theory Spec2Isabelle
  imports Main "HOL-Library.Word"
begin

section \<open>Memory model\<close>

text \<open>
  The set is a binary search tree of \<^verbatim>\<open>node\<close> objects linked by
  \<^verbatim>\<open>std::shared_ptr\<close>. Copies of a set share nodes, and the mutating operations
  write into nodes through pointers, so the model keeps an explicit store. Every
  \<^verbatim>\<open>node\<close> object lives at an address of the store \<open>nodes\<close>: the nodes made by
  \<^verbatim>\<open>std::make_shared<node>\<close>, the member \<^verbatim>\<open>m_root\<close> of a set object, and the local
  \<^verbatim>\<open>tmp\<close> of \<^verbatim>\<open>erase\<close>. A set object is identified with the address of its first
  member \<^verbatim>\<open>m_root\<close>; its second member \<^verbatim>\<open>m_size\<close> is found in the store \<open>m_size\<close>
  under the same address. The element objects owned by \<^verbatim>\<open>std::shared_ptr<T>\<close> live in
  the store \<open>vals\<close>. A shared pointer is an optional address (\<open>None\<close> is the null
  pointer). Addresses are handed out in increasing order by the counter \<open>brk\<close>.
  Reference counts are not modelled: an object that is no longer referenced stays in the
  store. In the code such an object is destroyed with its last owner, and a raw pointer to
  it, kept in an iterator, dangles; in the store the old contents can still be read. The
  operations of the set only follow pointers of the current tree, so this makes no
  difference to them. It makes a difference for an iterator that the client has kept
  across a mutation: what is stated about stepping an iterator is therefore stated for
  iterators whose node is owned by the tree of a set (\<open>set_nodes\<close> below), the nodes
  that exist in the code as well.

  The element type \<^verbatim>\<open>T\<close> is a linear order; \<^verbatim>\<open>size_t\<close> is a 64-bit word.
\<close>

type_synonym addr = nat

record node =
  value' :: "addr option"
  left :: "addr option"
  right :: "addr option"

record iterator =
  node_ptr :: addr
  set_ptr :: addr

record 'a heap =
  nodes :: "addr \<rightharpoonup> node"
  vals :: "addr \<rightharpoonup> 'a"
  m_size :: "addr \<rightharpoonup> 64 word"
  brk :: addr
  faults :: "bool list"

text \<open>
  A call returns a value, leaves by a C++ exception (\<open>Throw\<close>), or has undefined
  behaviour (\<open>UB\<close>: a null or dangling pointer is dereferenced). A call that does not
  terminate has the outcome \<open>None\<close>.

  Exceptions come from the element type and from the allocator, which the source does not
  fix. The field \<open>faults\<close> decides them: every operation that may throw (a comparison of
  two \<^verbatim>\<open>T\<close>, a \<^verbatim>\<open>std::make_shared\<close>) consumes the next entry, and throws when the entry
  is \<open>True\<close>. With \<open>faults = []\<close> nothing throws.
\<close>

datatype 'r res = Ret 'r | Throw | UB

type_synonym ('a, 'r) outcome = "('r res \<times> 'a heap) option"

type_synonym ('a, 'r) prog = "'a heap \<Rightarrow> ('a, 'r) outcome"

definition ret :: "'r \<Rightarrow> ('a, 'r) prog" where
  "ret x h = Some (Ret x, h)"

definition throw :: "('a, 'r) prog" where
  "throw h = Some (Throw, h)"

definition undef :: "('a, 'r) prog" where
  "undef h = Some (UB, h)"

definition and_then :: "('a, 'r) outcome \<Rightarrow> ('r \<Rightarrow> ('a, 'q) prog) \<Rightarrow> ('a, 'q) outcome" where
  "and_then m k = (case m of None \<Rightarrow> None
     | Some (r, h) \<Rightarrow> (case r of Ret x \<Rightarrow> k x h | Throw \<Rightarrow> Some (Throw, h) | UB \<Rightarrow> Some (UB, h)))"

definition bind :: "('a, 'r) prog \<Rightarrow> ('r \<Rightarrow> ('a, 'q) prog) \<Rightarrow> ('a, 'q) prog" where
  "bind m k h = and_then (m h) k"

text \<open>\<^verbatim>\<open>try { body } catch (...) { handler }\<close>: only a C++ exception reaches the handler.\<close>

definition try_catch :: "('a, 'r) prog \<Rightarrow> ('a, 'r) prog \<Rightarrow> ('a, 'r) prog" where
  "try_catch body handler h = (case body h of None \<Rightarrow> None
     | Some (r, h') \<Rightarrow> (case r of Throw \<Rightarrow> handler h' | _ \<Rightarrow> Some (r, h')))"

lemma and_then_mono [partial_function_mono]:
  assumes mf: "mono_option B" and mg: "\<And>y h. mono_option (\<lambda>f. C y h f)"
  shows "mono_option (\<lambda>f. and_then (B f) (\<lambda>y h. C y h f))"
proof (rule monotoneI)
  fix f g :: "'a \<Rightarrow> 'b option"
  assume fg: "fun_ord option_ord f g"
  from mf have 1: "option_ord (B f) (B g)" by (rule monotoneD) (rule fg)
  from mg have 2: "\<And>y h. option_ord (C y h f) (C y h g)" by (rule monotoneD) (rule fg)
  show "option_ord (and_then (B f) (\<lambda>y h. C y h f)) (and_then (B g) (\<lambda>y h. C y h g))"
  proof (cases "B f")
    case None
    then show ?thesis by (simp add: and_then_def flat_ord_def)
  next
    case (Some a)
    with 1 have "B g = Some a" by (simp add: flat_ord_def)
    with Some 2 show ?thesis
      by (cases a; cases "fst a") (auto simp: and_then_def flat_ord_def)
  qed
qed

subsection \<open>Primitive steps\<close>

definition may_throw :: "('a, unit) prog" where
  "may_throw h = (case faults h of [] \<Rightarrow> Some (Ret (), h)
     | b # bs \<Rightarrow> Some (if b then Throw else Ret (), h\<lparr>faults := bs\<rparr>))"

text \<open>Reading the node object at an address (\<^verbatim>\<open>*ptr\<close>, \<^verbatim>\<open>ptr->\<close>).\<close>

definition get_node :: "addr \<Rightarrow> ('a, node) prog" where
  "get_node p h = (case nodes h p of None \<Rightarrow> Some (UB, h) | Some n \<Rightarrow> Some (Ret n, h))"

text \<open>Assigning all three members of an existing node object.\<close>

definition set_node :: "addr \<Rightarrow> node \<Rightarrow> ('a, unit) prog" where
  "set_node p n h = (case nodes h p of None \<Rightarrow> Some (UB, h)
     | Some _ \<Rightarrow> Some (Ret (), h\<lparr>nodes := (nodes h)(p \<mapsto> n)\<rparr>))"

definition set_left :: "addr \<Rightarrow> addr option \<Rightarrow> ('a, unit) prog" where
  "set_left p c h = (case nodes h p of None \<Rightarrow> Some (UB, h)
     | Some n \<Rightarrow> Some (Ret (), h\<lparr>nodes := (nodes h)(p \<mapsto> n\<lparr>left := c\<rparr>)\<rparr>))"

definition set_right :: "addr \<Rightarrow> addr option \<Rightarrow> ('a, unit) prog" where
  "set_right p c h = (case nodes h p of None \<Rightarrow> Some (UB, h)
     | Some n \<Rightarrow> Some (Ret (), h\<lparr>nodes := (nodes h)(p \<mapsto> n\<lparr>right := c\<rparr>)\<rparr>))"

definition set_value :: "addr \<Rightarrow> addr option \<Rightarrow> ('a, unit) prog" where
  "set_value p c h = (case nodes h p of None \<Rightarrow> Some (UB, h)
     | Some n \<Rightarrow> Some (Ret (), h\<lparr>nodes := (nodes h)(p \<mapsto> n\<lparr>value' := c\<rparr>)\<rparr>))"

text \<open>Dereferencing a \<^verbatim>\<open>shared_ptr<T>\<close> or a \<^verbatim>\<open>T*\<close>.\<close>

definition deref :: "addr option \<Rightarrow> ('a, 'a) prog" where
  "deref vp h = (case vp of None \<Rightarrow> Some (UB, h)
     | Some a \<Rightarrow> (case vals h a of None \<Rightarrow> Some (UB, h) | Some x \<Rightarrow> Some (Ret x, h)))"

definition get_size :: "addr \<Rightarrow> ('a, 64 word) prog" where
  "get_size this h = (case m_size h this of None \<Rightarrow> Some (UB, h) | Some n \<Rightarrow> Some (Ret n, h))"

definition set_size :: "addr \<Rightarrow> 64 word \<Rightarrow> ('a, unit) prog" where
  "set_size this n h = (case m_size h this of None \<Rightarrow> Some (UB, h)
     | Some _ \<Rightarrow> Some (Ret (), h\<lparr>m_size := (m_size h)(this \<mapsto> n)\<rparr>))"

text \<open>A new node object (on the heap, or a local) and a new element object.\<close>

definition alloc_node :: "node \<Rightarrow> ('a, addr) prog" where
  "alloc_node n h = Some (Ret (brk h), h\<lparr>nodes := (nodes h)(brk h \<mapsto> n), brk := Suc (brk h)\<rparr>)"

definition alloc_val :: "'a \<Rightarrow> ('a, addr) prog" where
  "alloc_val x h = Some (Ret (brk h), h\<lparr>vals := (vals h)(brk h \<mapsto> x), brk := Suc (brk h)\<rparr>)"

text \<open>The comparisons of \<^verbatim>\<open>T\<close> the source uses: \<^verbatim>\<open>==\<close>, \<^verbatim>\<open>!=\<close>, \<^verbatim>\<open><\<close>, \<^verbatim>\<open>>\<close>.\<close>

definition equal_T :: "'a \<Rightarrow> 'a \<Rightarrow> ('a, bool) prog" where
  "equal_T x y = bind may_throw (\<lambda>_. ret (x = y))"

definition not_equal_T :: "'a \<Rightarrow> 'a \<Rightarrow> ('a, bool) prog" where
  "not_equal_T x y = bind may_throw (\<lambda>_. ret (x \<noteq> y))"

definition less_T :: "'a::linorder \<Rightarrow> 'a \<Rightarrow> ('a, bool) prog" where
  "less_T x y = bind may_throw (\<lambda>_. ret (x < y))"

definition greater_T :: "'a::linorder \<Rightarrow> 'a \<Rightarrow> ('a, bool) prog" where
  "greater_T x y = bind may_throw (\<lambda>_. ret (x > y))"

text \<open>
  \<^verbatim>\<open>std::make_shared<node>(*sp)\<close>: the argument is dereferenced, the allocation may throw,
  the copy constructor of \<^verbatim>\<open>node\<close> copies the three shared pointers.
\<close>

definition make_shared_copy :: "addr option \<Rightarrow> ('a, addr) prog" where
  "make_shared_copy sp = (case sp of None \<Rightarrow> undef
     | Some p \<Rightarrow> bind (get_node p) (\<lambda>n. bind may_throw (\<lambda>_. alloc_node n)))"

text \<open>
  \<^verbatim>\<open>std::make_shared<node>(value)\<close>: the allocation of the node may throw; the
  constructor \<^verbatim>\<open>node(T const&)\<close> starts from three null pointers and assigns
  \<^verbatim>\<open>std::make_shared<T>(value)\<close>, which may throw as well.
\<close>

definition make_shared_value :: "'a \<Rightarrow> ('a, addr) prog" where
  "make_shared_value v =
     bind may_throw (\<lambda>_.
     bind (alloc_node \<lparr>value' = None, left = None, right = None\<rparr>) (\<lambda>a.
     bind may_throw (\<lambda>_.
     bind (alloc_val v) (\<lambda>va.
     bind (set_value a (Some va)) (\<lambda>_. ret a)))))"

section \<open>The operations of the source\<close>

subsection \<open>Construction, size, equality\<close>

text \<open>\<^verbatim>\<open>persistent_set() = default\<close>: a root with three null pointers, \<^verbatim>\<open>m_size = 0\<close>.\<close>

definition new_set :: "('a, addr) prog" where
  "new_set h = Some (Ret (brk h),
     h\<lparr>nodes := (nodes h)(brk h \<mapsto> \<lparr>value' = None, left = None, right = None\<rparr>),
       m_size := (m_size h)(brk h \<mapsto> 0), brk := Suc (brk h)\<rparr>)"

text \<open>\<^verbatim>\<open>persistent_set(persistent_set const& other) : m_size(other.m_size), m_root(other.m_root)\<close>.\<close>

definition copy_set :: "addr \<Rightarrow> ('a, addr) prog" where
  "copy_set other =
     bind (get_size other) (\<lambda>n.
     bind (get_node other) (\<lambda>r. (\<lambda>h. Some (Ret (brk h),
       h\<lparr>nodes := (nodes h)(brk h \<mapsto> r), m_size := (m_size h)(brk h \<mapsto> n),
         brk := Suc (brk h)\<rparr>))))"

definition size_set :: "addr \<Rightarrow> ('a, 64 word) prog" where
  "size_set this = get_size this"

text \<open>
  \<^verbatim>\<open>node::operator==\<close> compares the three \<^verbatim>\<open>shared_ptr\<close> members with
  \<^verbatim>\<open>shared_ptr\<close>'s \<^verbatim>\<open>==\<close>, that is, the stored addresses.
\<close>

definition node_equal :: "node \<Rightarrow> node \<Rightarrow> bool" where
  "node_equal lhs rhs = (left lhs = left rhs \<and> right lhs = right rhs \<and> value' lhs = value' rhs)"

text \<open>\<^verbatim>\<open>operator==(persistent_set const&, persistent_set const&)\<close>.\<close>

definition set_equal :: "addr \<Rightarrow> addr \<Rightarrow> ('a, bool) prog" where
  "set_equal lhs rhs =
     bind (get_node lhs) (\<lambda>l.
     bind (get_node rhs) (\<lambda>r.
       if node_equal l r
       then bind (get_size lhs) (\<lambda>m. bind (get_size rhs) (\<lambda>n. ret (m = n)))
       else ret False))"

subsection \<open>Search\<close>

definition end_it :: "addr \<Rightarrow> iterator" where
  "end_it this = \<lparr>node_ptr = this, set_ptr = this\<rparr>"

text \<open>\<^verbatim>\<open>begin()\<close>: the loop \<^verbatim>\<open>while (ptr->left) ptr = ptr->left.get()\<close> from \<^verbatim>\<open>&m_root\<close>.\<close>

partial_function (option) begin_loop :: "addr \<Rightarrow> 'a heap \<Rightarrow> ('a, addr) outcome" where
  "begin_loop ptr h =
     and_then (get_node ptr h) (\<lambda>n h.
       case left n of None \<Rightarrow> ret ptr h | Some l \<Rightarrow> begin_loop l h)"

definition begin_it :: "addr \<Rightarrow> ('a, iterator) prog" where
  "begin_it this = bind (begin_loop this) (\<lambda>p. ret \<lparr>node_ptr = p, set_ptr = this\<rparr>)"

text \<open>\<^verbatim>\<open>lower_bound(node* ptr, T const& value)\<close>.\<close>

partial_function (option) lower_bound_rec ::
  "addr \<Rightarrow> addr option \<Rightarrow> 'a::linorder \<Rightarrow> 'a heap \<Rightarrow> ('a, iterator) outcome" where
  "lower_bound_rec this ptr v h =
     (case ptr of None \<Rightarrow> ret (end_it this) h
      | Some p \<Rightarrow>
          and_then (get_node p h) (\<lambda>n h.
          and_then (deref (value' n) h) (\<lambda>x h.
          and_then (equal_T x v h) (\<lambda>e h.
            if e then ret \<lparr>node_ptr = p, set_ptr = this\<rparr> h
            else and_then (greater_T v x h) (\<lambda>g h.
              if g then lower_bound_rec this (right n) v h
              else and_then (lower_bound_rec this (left n) v h) (\<lambda>it h.
                if it = end_it this then ret \<lparr>node_ptr = p, set_ptr = this\<rparr> h
                else ret it h))))))"

text \<open>\<^verbatim>\<open>upper_bound(node* ptr, T const& value)\<close>.\<close>

partial_function (option) upper_bound_rec ::
  "addr \<Rightarrow> addr option \<Rightarrow> 'a::linorder \<Rightarrow> 'a heap \<Rightarrow> ('a, iterator) outcome" where
  "upper_bound_rec this ptr v h =
     (case ptr of None \<Rightarrow> ret (end_it this) h
      | Some p \<Rightarrow>
          and_then (get_node p h) (\<lambda>n h.
          and_then (deref (value' n) h) (\<lambda>x h.
          and_then (less_T v x h) (\<lambda>l h.
            if l then and_then (upper_bound_rec this (left n) v h) (\<lambda>it h.
                if it = end_it this then ret \<lparr>node_ptr = p, set_ptr = this\<rparr> h
                else ret it h)
            else upper_bound_rec this (right n) v h))))"

text \<open>\<^verbatim>\<open>rev_upper_bound(node* ptr, T* value)\<close>.\<close>

partial_function (option) rev_upper_bound_rec ::
  "addr \<Rightarrow> addr option \<Rightarrow> addr option \<Rightarrow> 'a::linorder heap \<Rightarrow> ('a, iterator) outcome" where
  "rev_upper_bound_rec this ptr vp h =
     (case ptr of None \<Rightarrow> ret (end_it this) h
      | Some p \<Rightarrow>
          and_then (deref vp h) (\<lambda>v h.
          and_then (get_node p h) (\<lambda>n h.
          and_then (deref (value' n) h) (\<lambda>x h.
          and_then (greater_T v x h) (\<lambda>g h.
            if g then and_then (rev_upper_bound_rec this (right n) vp h) (\<lambda>it h.
                if it = end_it this then ret \<lparr>node_ptr = p, set_ptr = this\<rparr> h
                else ret it h)
            else rev_upper_bound_rec this (left n) vp h)))))"

text \<open>The loop \<^verbatim>\<open>while (ptr->right) ptr = ptr->right.get()\<close> of \<^verbatim>\<open>rev_upper_bound(T*)\<close>.\<close>

partial_function (option) rightmost_loop :: "addr \<Rightarrow> 'a heap \<Rightarrow> ('a, addr) outcome" where
  "rightmost_loop ptr h =
     and_then (get_node ptr h) (\<lambda>n h.
       case right n of None \<Rightarrow> ret ptr h | Some r \<Rightarrow> rightmost_loop r h)"

text \<open>
  \<^verbatim>\<open>rev_upper_bound(T* value)\<close>. With a null \<^verbatim>\<open>value\<close> the loop starts at
  \<^verbatim>\<open>m_root.left.get()\<close> and reads \<^verbatim>\<open>ptr->right\<close> at once: on the empty set this
  dereferences a null pointer.
\<close>

definition rev_upper_bound :: "addr \<Rightarrow> addr option \<Rightarrow> ('a::linorder, iterator) prog" where
  "rev_upper_bound this vp =
     (case vp of
        None \<Rightarrow> bind (get_node this) (\<lambda>r.
          case left r of None \<Rightarrow> undef
          | Some p \<Rightarrow> bind (rightmost_loop p) (\<lambda>q. ret \<lparr>node_ptr = q, set_ptr = this\<rparr>))
      | Some _ \<Rightarrow> bind (get_node this) (\<lambda>r. rev_upper_bound_rec this (left r) vp))"

definition lower_bound :: "addr \<Rightarrow> 'a::linorder \<Rightarrow> ('a, iterator) prog" where
  "lower_bound this v = bind (get_node this) (\<lambda>r. lower_bound_rec this (left r) v)"

definition upper_bound :: "addr \<Rightarrow> 'a::linorder \<Rightarrow> ('a, iterator) prog" where
  "upper_bound this v = bind (get_node this) (\<lambda>r. upper_bound_rec this (left r) v)"

text \<open>\<^verbatim>\<open>iterator::operator*\<close>: \<^verbatim>\<open>*node_ptr->value.get()\<close>.\<close>

definition deref_it :: "iterator \<Rightarrow> ('a, 'a) prog" where
  "deref_it it = bind (get_node (node_ptr it)) (\<lambda>n. deref (value' n))"

text \<open>
  \<^verbatim>\<open>find\<close>: \<^verbatim>\<open>if (lower_bound(value) == end() || *lower_bound(value) != value) return end();
  return lower_bound(value);\<close> The source calls \<^verbatim>\<open>lower_bound\<close> up to three times.
\<close>

definition find_set :: "addr \<Rightarrow> 'a::linorder \<Rightarrow> ('a, iterator) prog" where
  "find_set this v =
     bind (lower_bound this v) (\<lambda>it1.
       if it1 = end_it this then ret (end_it this)
       else bind (lower_bound this v) (\<lambda>it2.
            bind (deref_it it2) (\<lambda>x.
            bind (not_equal_T x v) (\<lambda>ne.
              if ne then ret (end_it this) else lower_bound this v))))"

subsection \<open>Iterator steps\<close>

text \<open>\<^verbatim>\<open>operator++\<close>: \<^verbatim>\<open>*this = set_ptr->upper_bound(*node_ptr->value.get())\<close>.\<close>

definition incr :: "iterator \<Rightarrow> ('a::linorder, iterator) prog" where
  "incr it =
     bind (get_node (node_ptr it)) (\<lambda>n.
     bind (deref (value' n)) (\<lambda>x. upper_bound (set_ptr it) x))"

text \<open>\<^verbatim>\<open>operator--\<close>: \<^verbatim>\<open>*this = set_ptr->rev_upper_bound(node_ptr->value.get())\<close>.\<close>

definition decr :: "iterator \<Rightarrow> ('a::linorder, iterator) prog" where
  "decr it = bind (get_node (node_ptr it)) (\<lambda>n. rev_upper_bound (set_ptr it) (value' n))"

subsection \<open>Insertion\<close>

text \<open>\<^verbatim>\<open>insert(node& next, T const& val)\<close>: \<open>next\<close> is the address of the node referred to.\<close>

partial_function (option) insert_rec ::
  "addr \<Rightarrow> 'a::linorder \<Rightarrow> 'a heap \<Rightarrow> ('a, unit) outcome" where
  "insert_rec next v h =
     and_then (get_node next h) (\<lambda>n h.
     and_then (deref (value' n) h) (\<lambda>x h.
     and_then (less_T v x h) (\<lambda>l h.
       if l then
         (if left n \<noteq> None then
            and_then (make_shared_copy (left n) h) (\<lambda>c h.
            and_then (set_left next (Some c) h) (\<lambda>_ h. insert_rec c v h))
          else
            and_then (make_shared_value v h) (\<lambda>c h. set_left next (Some c) h))
       else
         (if right n \<noteq> None then
            and_then (make_shared_copy (right n) h) (\<lambda>c h.
            and_then (set_right next (Some c) h) (\<lambda>_ h. insert_rec c v h))
          else
            and_then (make_shared_value v h) (\<lambda>c h. set_right next (Some c) h)))))"

text \<open>
  \<^verbatim>\<open>insert(T const& value)\<close>: the \<^verbatim>\<open>catch (...)\<close> block \<open>restore\<close> (the same in
  \<^verbatim>\<open>erase\<close>), the \<^verbatim>\<open>try\<close> block \<open>insert_try\<close>, and the function. The local
  \<^verbatim>\<open>tmp\<close> is only used by name, so it is a value here; \<^verbatim>\<open>++m_size\<close> wraps around
  at \<open>2 ^ 64\<close>.
\<close>

definition restore :: "addr \<Rightarrow> node \<Rightarrow> 64 word \<Rightarrow> ('a, 'r) prog" where
  "restore this back_up back_up_size =
     bind (set_node this back_up) (\<lambda>_.
     bind (set_size this back_up_size) (\<lambda>_. throw))"

definition insert_try :: "addr \<Rightarrow> 'a::linorder \<Rightarrow> ('a, iterator \<times> bool) prog" where
  "insert_try this v =
     bind (get_node this) (\<lambda>tmp.
     bind (if left tmp \<noteq> None
           then bind (make_shared_copy (left tmp)) (\<lambda>c.
                bind (insert_rec c v) (\<lambda>_. ret (tmp\<lparr>left := Some c\<rparr>)))
           else bind (make_shared_value v) (\<lambda>c. ret (tmp\<lparr>left := Some c\<rparr>))) (\<lambda>tmp.
     bind (set_node this tmp) (\<lambda>_.
     bind (get_size this) (\<lambda>n.
     bind (set_size this (n + 1)) (\<lambda>_.
     bind (find_set this v) (\<lambda>it'. ret (it', True)))))))"

definition insert_set :: "addr \<Rightarrow> 'a::linorder \<Rightarrow> ('a, iterator \<times> bool) prog" where
  "insert_set this v =
     bind (find_set this v) (\<lambda>it.
       if it \<noteq> end_it this then bind (find_set this v) (\<lambda>it'. ret (it', False))
       else
         bind (get_node this) (\<lambda>back_up.
         bind (get_size this) (\<lambda>back_up_size.
           try_catch (insert_try this v) (restore this back_up back_up_size))))"

subsection \<open>Erasure\<close>

text \<open>\<^verbatim>\<open>erase_impl(node* parent, node* son)\<close>.\<close>

definition erase_impl :: "addr \<Rightarrow> addr \<Rightarrow> ('a, unit) prog" where
  "erase_impl parent son =
     bind (get_node son) (\<lambda>s.
       if left s = None \<and> right s = None then
         bind (get_node parent) (\<lambda>p.
           if left p = Some son then set_left parent None else set_right parent None)
       else
         bind (get_node parent) (\<lambda>p.
           if left p = Some son then
             (if left s \<noteq> None then set_left parent (left s) else set_left parent (right s))
           else
             (if left s \<noteq> None then set_right parent (left s) else set_right parent (right s))))"

text \<open>\<^verbatim>\<open>std::swap(prev->value, next->value)\<close>: the two \<^verbatim>\<open>shared_ptr<T>\<close> are exchanged.\<close>

definition swap_value :: "addr \<Rightarrow> addr \<Rightarrow> ('a, unit) prog" where
  "swap_value p q =
     bind (get_node p) (\<lambda>pn.
     bind (get_node q) (\<lambda>qn.
     bind (set_value p (value' qn)) (\<lambda>_. set_value q (value' pn))))"

text \<open>
  The inner loop of \<^verbatim>\<open>erase(T const&, node*)\<close>:
  \<^verbatim>\<open>while (next->right) { tmp_prev = next; next->right = make_shared<node>(*next->right);
  next = next->right.get(); }\<close> It returns the final \<^verbatim>\<open>tmp_prev\<close> and \<^verbatim>\<open>next\<close>.
\<close>

partial_function (option) erase_max ::
  "addr \<Rightarrow> addr \<Rightarrow> 'a heap \<Rightarrow> ('a, addr \<times> addr) outcome" where
  "erase_max tmp_prev next h =
     and_then (get_node next h) (\<lambda>n h.
       if right n \<noteq> None then
         and_then (make_shared_copy (right n) h) (\<lambda>c h.
         and_then (set_right next (Some c) h) (\<lambda>_ h. erase_max next c h))
       else ret (tmp_prev, next) h)"

text \<open>The loop \<^verbatim>\<open>while (true)\<close> of \<^verbatim>\<open>erase(T const& value, node* prev)\<close>.\<close>

partial_function (option) erase_loop ::
  "'a::linorder \<Rightarrow> addr \<Rightarrow> addr \<Rightarrow> 'a heap \<Rightarrow> ('a, unit) outcome" where
  "erase_loop v prev next h =
     and_then (get_node next h) (\<lambda>n h.
     and_then (deref (value' n) h) (\<lambda>x h.
     and_then (equal_T x v h) (\<lambda>e h.
       if e then
         (if left n \<noteq> None \<and> right n \<noteq> None then
            and_then (make_shared_copy (left n) h) (\<lambda>c h.
            and_then (set_left next (Some c) h) (\<lambda>_ h.
            and_then (erase_max next c h) (\<lambda>ends h.
            and_then (swap_value next (snd ends) h) (\<lambda>_ h.
              erase_impl (fst ends) (snd ends) h))))
          else erase_impl prev next h)
       else
         and_then (less_T v x h) (\<lambda>l h.
           if l then
             and_then (make_shared_copy (left n) h) (\<lambda>c h.
             and_then (set_left next (Some c) h) (\<lambda>_ h. erase_loop v next c h))
           else
             and_then (make_shared_copy (right n) h) (\<lambda>c h.
             and_then (set_right next (Some c) h) (\<lambda>_ h. erase_loop v next c h))))))"

text \<open>\<^verbatim>\<open>erase(T const& value, node* prev)\<close>.\<close>

definition erase_path :: "'a::linorder \<Rightarrow> addr \<Rightarrow> ('a, unit) prog" where
  "erase_path v prev =
     bind (get_node prev) (\<lambda>p.
     bind (make_shared_copy (left p)) (\<lambda>c.
     bind (set_left prev (Some c)) (\<lambda>_. erase_loop v prev c)))"

text \<open>
  \<^verbatim>\<open>erase(iterator it)\<close>: its \<^verbatim>\<open>try\<close> block \<open>erase_try\<close> and the function. The
  local \<^verbatim>\<open>tmp\<close> is passed by address, so it is a node object of the store;
  \<^verbatim>\<open>--m_size\<close> wraps around at \<open>0\<close>.
\<close>

definition erase_try :: "addr \<Rightarrow> iterator \<Rightarrow> ('a::linorder, iterator) prog" where
  "erase_try this it =
     bind (get_node (node_ptr it)) (\<lambda>itn.
     bind (get_node this) (\<lambda>r.
     bind (alloc_node r) (\<lambda>tmp.
     bind (deref (value' itn)) (\<lambda>v.
     bind (erase_path v tmp) (\<lambda>_.
     bind (get_node tmp) (\<lambda>t.
     bind (set_node this t) (\<lambda>_.
     bind (get_size this) (\<lambda>n.
     bind (set_size this (n - 1)) (\<lambda>_.
     bind (deref (value' itn)) (\<lambda>v. lower_bound this v))))))))))"

definition erase :: "addr \<Rightarrow> iterator \<Rightarrow> ('a::linorder, iterator) prog" where
  "erase this it =
     bind (get_node this) (\<lambda>back_up.
     bind (get_size this) (\<lambda>back_up_size.
       try_catch (erase_try this it) (restore this back_up back_up_size)))"

subsection \<open>Client code\<close>

text \<open>
  The iteration sequence of a set is what the loop
  \<^verbatim>\<open>for (auto it = s.begin(); it != s.end(); ++it) out.push_back(*it);\<close>
  collects.
\<close>

partial_function (option) iterate ::
  "addr \<Rightarrow> iterator \<Rightarrow> 'a::linorder heap \<Rightarrow> ('a, 'a list) outcome" where
  "iterate this it h =
     (if it = end_it this then ret [] h
      else and_then (deref_it it h) (\<lambda>x h.
           and_then (incr it h) (\<lambda>it' h.
           and_then (iterate this it' h) (\<lambda>xs h. ret (x # xs) h))))"

definition to_list :: "addr \<Rightarrow> ('a::linorder, 'a list) prog" where
  "to_list this = bind (begin_it this) (\<lambda>it. iterate this it)"

text \<open>
  The sequence and the size a client observes when nothing throws; \<open>None\<close> when the
  iteration does not come to an end or runs into undefined behaviour.
\<close>

definition iteration :: "'a::linorder heap \<Rightarrow> addr \<Rightarrow> 'a list option" where
  "iteration h s = (case to_list s (h\<lparr>faults := []\<rparr>) of
      Some (Ret xs, _) \<Rightarrow> Some xs | _ \<Rightarrow> None)"

text \<open>
  A client applies a sequence of mutations to one set. An exception of one call is caught
  and the client goes on with the next call.
\<close>

datatype 'a mutation = Insert 'a | Erase iterator

definition mutate :: "addr \<Rightarrow> 'a::linorder mutation \<Rightarrow> ('a, unit) prog" where
  "mutate this m = try_catch
     (case m of Insert v \<Rightarrow> bind (insert_set this v) (\<lambda>_. ret ())
      | Erase it \<Rightarrow> bind (erase this it) (\<lambda>_. ret ()))
     (ret ())"

fun mutate_all :: "addr \<Rightarrow> 'a::linorder mutation list \<Rightarrow> ('a, unit) prog" where
  "mutate_all this [] = ret ()"
| "mutate_all this (m # ms) = bind (mutate this m) (\<lambda>_. mutate_all this ms)"

fun insert_all :: "addr \<Rightarrow> 'a::linorder list \<Rightarrow> ('a, unit) prog" where
  "insert_all this [] = ret ()"
| "insert_all this (v # vs) = bind (insert_set this v) (\<lambda>_. insert_all this vs)"

text \<open>
  A client that builds a set from a list of values, and one that builds two sets from the
  same list, compares them with \<^verbatim>\<open>==\<close> and iterates over both.
\<close>

definition build :: "'a::linorder list \<Rightarrow> ('a, addr) prog" where
  "build vs = bind new_set (\<lambda>s. bind (insert_all s vs) (\<lambda>_. ret s))"

definition built_twice :: "'a::linorder list \<Rightarrow> ('a, bool \<times> 'a list \<times> 'a list) prog" where
  "built_twice vs =
     bind (build vs) (\<lambda>a.
     bind (build vs) (\<lambda>b.
     bind (set_equal a b) (\<lambda>e.
     bind (to_list a) (\<lambda>xs.
     bind (to_list b) (\<lambda>ys. ret (e, xs, ys))))))"

section \<open>Abstract view\<close>

text \<open>
  The elements of a set, as the tree of values its nodes form. The functions below follow
  the source's searches and updates on that tree.
\<close>

datatype 'a tree = Leaf | Node "'a tree" 'a "'a tree"

fun elems :: "'a tree \<Rightarrow> 'a set" where
  "elems Leaf = {}"
| "elems (Node l x r) = insert x (elems l \<union> elems r)"

fun inorder :: "'a tree \<Rightarrow> 'a list" where
  "inorder Leaf = []"
| "inorder (Node l x r) = inorder l @ x # inorder r"

fun tree_size :: "'a tree \<Rightarrow> nat" where
  "tree_size Leaf = 0"
| "tree_size (Node l x r) = Suc (tree_size l + tree_size r)"

text \<open>The order invariant: everything on the left is less, everything on the right greater.\<close>

fun bst :: "'a::linorder tree \<Rightarrow> bool" where
  "bst Leaf = True"
| "bst (Node l x r) =
     ((\<forall>y\<in>elems l. y < x) \<and> (\<forall>y\<in>elems r. x < y) \<and> bst l \<and> bst r)"

fun lb :: "'a::linorder \<Rightarrow> 'a tree \<Rightarrow> 'a option" where
  "lb v Leaf = None"
| "lb v (Node l x r) =
     (if x = v then Some x
      else if v > x then lb v r
      else (case lb v l of None \<Rightarrow> Some x | Some y \<Rightarrow> Some y))"

fun ub :: "'a::linorder \<Rightarrow> 'a tree \<Rightarrow> 'a option" where
  "ub v Leaf = None"
| "ub v (Node l x r) =
     (if v < x then (case ub v l of None \<Rightarrow> Some x | Some y \<Rightarrow> Some y)
      else ub v r)"

fun rub :: "'a::linorder \<Rightarrow> 'a tree \<Rightarrow> 'a option" where
  "rub v Leaf = None"
| "rub v (Node l x r) =
     (if v > x then (case rub v r of None \<Rightarrow> Some x | Some y \<Rightarrow> Some y)
      else rub v l)"

fun first :: "'a tree \<Rightarrow> 'a option" where
  "first Leaf = None"
| "first (Node l x r) = (case first l of None \<Rightarrow> Some x | Some y \<Rightarrow> Some y)"

fun rightmost :: "'a tree \<Rightarrow> 'a \<Rightarrow> 'a tree \<Rightarrow> 'a" where
  "rightmost l x Leaf = x"
| "rightmost l x (Node rl y rr) = rightmost rl y rr"

fun ins :: "'a::linorder \<Rightarrow> 'a tree \<Rightarrow> 'a tree" where
  "ins v Leaf = Node Leaf v Leaf"
| "ins v (Node l x r) = (if v < x then Node (ins v l) x r else Node l x (ins v r))"

text \<open>The tree without its rightmost node.\<close>

fun drop_max :: "'a tree \<Rightarrow> 'a \<Rightarrow> 'a tree \<Rightarrow> 'a tree" where
  "drop_max l x Leaf = l"
| "drop_max l x (Node rl y rr) = Node l x (drop_max rl y rr)"

fun del :: "'a::linorder \<Rightarrow> 'a tree \<Rightarrow> 'a tree" where
  "del v Leaf = Leaf"
| "del v (Node l x r) =
     (if x = v then
        (case l of
           Leaf \<Rightarrow> r
         | Node ll lx lr \<Rightarrow>
             (case r of Leaf \<Rightarrow> l | Node _ _ _ \<Rightarrow> Node (drop_max ll lx lr) (rightmost ll lx lr) r))
      else if v < x then Node (del v l) x r
      else Node l x (del v r))"

subsection \<open>Trees in the store\<close>

text \<open>The node at address \<open>a\<close> owns an element object with value \<open>x\<close>.\<close>

definition holds :: "'a heap \<Rightarrow> addr \<Rightarrow> 'a \<Rightarrow> bool" where
  "holds h a x = (case nodes h a of None \<Rightarrow> False
     | Some n \<Rightarrow> (case value' n of None \<Rightarrow> False
         | Some va \<Rightarrow> va < brk h \<and> vals h va = Some x))"

text \<open>
  The pointer \<open>p\<close> is the root of the tree \<open>t\<close>, whose nodes all have addresses in \<open>A\<close>.
\<close>

fun tree_at :: "'a heap \<Rightarrow> addr set \<Rightarrow> addr option \<Rightarrow> 'a tree \<Rightarrow> bool" where
  "tree_at h A p Leaf = (p = None)"
| "tree_at h A p (Node l x r) =
     (case p of None \<Rightarrow> False
      | Some a \<Rightarrow> a \<in> A \<and> holds h a x \<and>
          (case nodes h a of None \<Rightarrow> False
           | Some n \<Rightarrow> tree_at h A (left n) l \<and> tree_at h A (right n) r))"

text \<open>
  The set object at address \<open>s\<close> is well formed and holds the tree \<open>t\<close>: its root carries no
  value, its tree lies in allocated nodes other than the root, the tree is ordered, and
  \<^verbatim>\<open>m_size\<close> counts its nodes (modulo \<open>2 ^ 64\<close>).
\<close>

definition pset :: "'a::linorder heap \<Rightarrow> addr \<Rightarrow> 'a tree \<Rightarrow> bool" where
  "pset h s t =
     (s < brk h \<and> bst t \<and> m_size h s = Some (of_nat (tree_size t)) \<and>
      (case nodes h s of None \<Rightarrow> False
       | Some r \<Rightarrow> value' r = None \<and> tree_at h ({..<brk h} - {s}) (left r) t))"

text \<open>
  The iterator \<open>it\<close> of the set \<open>this\<close> is at the element \<open>r\<close> (\<open>None\<close>: at the end).
\<close>

definition it_at :: "'a heap \<Rightarrow> addr set \<Rightarrow> addr \<Rightarrow> iterator \<Rightarrow> 'a option \<Rightarrow> bool" where
  "it_at h A this it r = (case r of None \<Rightarrow> it = end_it this
     | Some x \<Rightarrow> set_ptr it = this \<and> node_ptr it \<in> A \<and> holds h (node_ptr it) x)"

text \<open>
  Between \<open>h\<close> and \<open>h'\<close> nothing that was allocated in \<open>h\<close> has changed, except the node
  objects and sizes at the addresses in \<open>W\<close>.
\<close>

definition frame :: "addr set \<Rightarrow> 'a heap \<Rightarrow> 'a heap \<Rightarrow> bool" where
  "frame W h h' =
     (brk h \<le> brk h' \<and>
      (\<forall>a. a < brk h \<longrightarrow> a \<notin> W \<longrightarrow> nodes h' a = nodes h a \<and> m_size h' a = m_size h a) \<and>
      (\<forall>a. a < brk h \<longrightarrow> vals h' a = vals h a))"

text \<open>The addresses a tree of the set \<open>s\<close> may use: everything allocated but the root.\<close>

definition own :: "'a heap \<Rightarrow> addr \<Rightarrow> addr set" where
  "own h s = {..<brk h} - {s}"

text \<open>
  The node objects of the tree \<open>t\<close> rooted at \<open>p\<close>, and the node objects owned by the set
  \<open>s\<close> that holds the tree \<open>t\<close>: the nodes reached from \<^verbatim>\<open>m_root.left\<close>, which the
  shared pointers of the set keep alive.
\<close>

fun tree_addrs :: "'a heap \<Rightarrow> addr option \<Rightarrow> 'a tree \<Rightarrow> addr set" where
  "tree_addrs h p Leaf = {}"
| "tree_addrs h p (Node l x r) =
     (case p of None \<Rightarrow> {}
      | Some a \<Rightarrow> insert a (case nodes h a of None \<Rightarrow> {}
          | Some n \<Rightarrow> tree_addrs h (left n) l \<union> tree_addrs h (right n) r))"

definition set_nodes :: "'a heap \<Rightarrow> addr \<Rightarrow> 'a tree \<Rightarrow> addr set" where
  "set_nodes h s t = (case nodes h s of None \<Rightarrow> {} | Some r \<Rightarrow> tree_addrs h (left r) t)"

text \<open>
  A node outside \<open>A\<close> (a fresh copy on the path being rebuilt) with value \<open>x\<close> whose
  children are the roots of the trees \<open>l\<close> and \<open>r\<close>, which lie in \<open>A\<close>.
\<close>

definition fresh_at :: "'a heap \<Rightarrow> addr set \<Rightarrow> addr \<Rightarrow> 'a tree \<Rightarrow> 'a \<Rightarrow> 'a tree \<Rightarrow> bool" where
  "fresh_at h A a l x r =
     (a < brk h \<and> a \<notin> A \<and> A \<subseteq> {..<brk h} \<and> holds h a x \<and>
      (case nodes h a of None \<Rightarrow> False
       | Some n \<Rightarrow> tree_at h A (left n) l \<and> tree_at h A (right n) r))"

text \<open>The parent node after its pointer to \<open>son\<close> has been replaced by \<open>p'\<close>.\<close>

definition relink :: "node \<Rightarrow> addr \<Rightarrow> addr option \<Rightarrow> node" where
  "relink pn son p' = (if left pn = Some son then pn\<lparr>left := p'\<rparr> else pn\<lparr>right := p'\<rparr>)"

text \<open>What \<^verbatim>\<open>erase\<close> does after its inner loop: the swap and \<^verbatim>\<open>erase_impl\<close>.\<close>

definition erase_tail :: "addr \<Rightarrow> addr \<times> addr \<Rightarrow> ('a, unit) prog" where
  "erase_tail target ends h = and_then (swap_value target (snd ends) h) (\<lambda>_ h. erase_impl (fst ends) (snd ends) h)"

text \<open>
  Between \<open>h\<close> and \<open>h'\<close> the node objects and sizes at the addresses in \<open>P\<close> and all
  element objects of \<open>h\<close> are unchanged. A program is \<open>safe\<close> for \<open>P\<close> when, whatever its
  outcome, it leaves the allocated objects at \<open>P\<close> unchanged; \<open>Q\<close> holds for what it returns.
\<close>

definition pres :: "addr set \<Rightarrow> 'a heap \<Rightarrow> 'a heap \<Rightarrow> bool" where
  "pres P h h' =
     (brk h \<le> brk h' \<and>
      (\<forall>a\<in>P. nodes h' a = nodes h a \<and> m_size h' a = m_size h a) \<and>
      (\<forall>a<brk h. vals h' a = vals h a))"

definition safe :: "addr set \<Rightarrow> ('a, 'r) prog \<Rightarrow> ('r \<Rightarrow> bool) \<Rightarrow> bool" where
  "safe P m Q =
     (\<forall>h r h'. P \<subseteq> {..<brk h} \<longrightarrow> m h = Some (r, h') \<longrightarrow>
        pres P h h' \<and> (\<forall>x. r = Ret x \<longrightarrow> Q x))"

text \<open>The iterator \<open>it\<close> of the set \<open>s\<close> is not at the end and \<^verbatim>\<open>*it\<close> is \<open>y\<close>.\<close>

definition points_to :: "'a heap \<Rightarrow> addr \<Rightarrow> iterator \<Rightarrow> 'a \<Rightarrow> bool" where
  "points_to h s it y = (set_ptr it = s \<and> it \<noteq> end_it s \<and> deref_it it h = Some (Ret y, h))"

text \<open>
  The entries of \<open>faults\<close> a call has consumed, read off the stores before and after it:
  a call that returns has consumed only entries \<open>False\<close>; a call that leaves by an
  exception has consumed entries \<open>False\<close> and then one entry \<open>True\<close>, the operation that
  threw. A program is \<open>traced\<close> when every run of it is of this kind.
\<close>

definition trace :: "'a heap \<Rightarrow> 'r res \<Rightarrow> 'a heap \<Rightarrow> bool" where
  "trace h r h' = (case r of
      Ret _ \<Rightarrow> (\<exists>k. faults h = replicate k False @ faults h')
    | Throw \<Rightarrow> (\<exists>k. faults h = replicate k False @ True # faults h')
    | UB \<Rightarrow> True)"

definition traced :: "('a, 'r) prog \<Rightarrow> bool" where
  "traced m = (\<forall>h r h'. m h = Some (r, h') \<longrightarrow> trace h r h')"

text \<open>
  The store with no exception scheduled; a set object that exists in the store; and a
  program \<open>m\<close> that \<open>follows\<close> \<open>m0\<close>: whenever \<open>m0\<close> terminates in the store with no
  exception scheduled, \<open>m\<close> terminates in the store itself, with the same outcome and the
  same store (up to \<open>faults\<close>), or with an exception.
\<close>

definition calm :: "'a heap \<Rightarrow> 'a heap" where
  "calm h = h\<lparr>faults := []\<rparr>"

definition alive :: "addr \<Rightarrow> 'a heap \<Rightarrow> bool" where
  "alive s h = (nodes h s \<noteq> None \<and> m_size h s \<noteq> None)"

definition follows :: "addr \<Rightarrow> ('a, 'r) prog \<Rightarrow> ('a, 'r) prog \<Rightarrow> bool" where
  "follows s m0 m = (\<forall>h y0. alive s h \<longrightarrow> m0 (calm h) = Some y0 \<longrightarrow>
     (\<exists>r h'. m h = Some (r, h') \<and> alive s h' \<and>
        ((r = fst y0 \<and> calm h' = snd y0) \<or> r = Throw)))"

subsection \<open>Example states\<close>

text \<open>
  The empty store, and the objects that exist after
  \<^verbatim>\<open>persistent_set<int> s; s.insert(5); s.insert(8);\<close> with the set at address \<open>0\<close>:
  the root, the node of \<open>5\<close> at address \<open>3\<close> and the node of \<open>8\<close> at address \<open>4\<close>.
  The node that the first insertion made, at address \<open>1\<close>, was copied by the second
  insertion and lost its last owner when that call returned; it is not part of
  \<open>ex_heap\<close> (the run of the model leaves it behind, see \<open>ex_heap_built\<close>).
\<close>

definition empty_heap :: "int heap" where
  "empty_heap = \<lparr>nodes = Map.empty, vals = Map.empty, m_size = Map.empty, brk = 0, faults = []\<rparr>"

definition ex_heap :: "int heap" where
  "ex_heap = \<lparr>nodes = [0 \<mapsto> \<lparr>value' = None, left = Some 3, right = None\<rparr>,
                       3 \<mapsto> \<lparr>value' = Some 2, left = None, right = Some 4\<rparr>,
                       4 \<mapsto> \<lparr>value' = Some 5, left = None, right = None\<rparr>],
              vals = [2 \<mapsto> 5, 5 \<mapsto> 8], m_size = [0 \<mapsto> 2], brk = 6, faults = []\<rparr>"

definition ex_tree :: "int tree" where
  "ex_tree = Node Leaf 5 (Node Leaf 8 Leaf)"

text \<open>
  Two sets built separately with the same element, compared with \<^verbatim>\<open>==\<close> and iterated.
\<close>

definition two_sets :: "(int, bool \<times> int list \<times> int list) prog" where
  "two_sets =
     bind new_set (\<lambda>a.
     bind (insert_set a 7) (\<lambda>_.
     bind new_set (\<lambda>b.
     bind (insert_set b 7) (\<lambda>_.
     bind (set_equal a b) (\<lambda>e.
     bind (to_list a) (\<lambda>xs.
     bind (to_list b) (\<lambda>ys. ret (e, xs, ys))))))))"

text \<open>
  The store after the two sets of \<open>two_sets\<close> have been built, at the addresses \<open>0\<close> and
  \<open>3\<close>.
\<close>

definition ex_pair :: "int heap" where
  "ex_pair = \<lparr>nodes = [0 \<mapsto> \<lparr>value' = None, left = Some 1, right = None\<rparr>,
                       1 \<mapsto> \<lparr>value' = Some 2, left = None, right = None\<rparr>,
                       3 \<mapsto> \<lparr>value' = None, left = Some 4, right = None\<rparr>,
                       4 \<mapsto> \<lparr>value' = Some 5, left = None, right = None\<rparr>],
              vals = [2 \<mapsto> 7, 5 \<mapsto> 7], m_size = [0 \<mapsto> 1, 3 \<mapsto> 1], brk = 6,
              faults = []\<rparr>"

text \<open>
  The example store after \<^verbatim>\<open>persistent_set<int> c(s);\<close> with the copy at address
  \<open>6\<close>, and after \<^verbatim>\<open>auto it = s.find(5); s.insert(6);\<close> on top of that. The insertion
  has rebuilt the path of \<open>s\<close> in the nodes \<open>7\<close>, \<open>8\<close> and \<open>9\<close>; the nodes \<open>3\<close>
  and \<open>4\<close> are still owned by the copy, so \<open>it\<close>, which points to node \<open>3\<close>, is
  still an iterator to an existing node.
\<close>

definition ex_copied :: "int heap" where
  "ex_copied = ex_heap\<lparr>nodes := (nodes ex_heap)(6 \<mapsto> \<lparr>value' = None, left = Some 3, right = None\<rparr>),
                       m_size := (m_size ex_heap)(6 \<mapsto> 2), brk := 7\<rparr>"

definition ex_mutated :: "int heap" where
  "ex_mutated = \<lparr>nodes = [0 \<mapsto> \<lparr>value' = None, left = Some 7, right = None\<rparr>,
                          3 \<mapsto> \<lparr>value' = Some 2, left = None, right = Some 4\<rparr>,
                          4 \<mapsto> \<lparr>value' = Some 5, left = None, right = None\<rparr>,
                          6 \<mapsto> \<lparr>value' = None, left = Some 3, right = None\<rparr>,
                          7 \<mapsto> \<lparr>value' = Some 2, left = None, right = Some 8\<rparr>,
                          8 \<mapsto> \<lparr>value' = Some 5, left = Some 9, right = None\<rparr>,
                          9 \<mapsto> \<lparr>value' = Some 10, left = None, right = None\<rparr>],
                 vals = [2 \<mapsto> 5, 5 \<mapsto> 8, 10 \<mapsto> 6], m_size = [0 \<mapsto> 3, 6 \<mapsto> 2],
                 brk = 11, faults = []\<rparr>"

definition ex_tree' :: "int tree" where
  "ex_tree' = Node Leaf 5 (Node (Node Leaf 6 Leaf) 8 Leaf)"

text \<open>The example store with an exception scheduled for the tenth operation that may throw.\<close>

definition ex_faulty :: "int heap" where
  "ex_faulty = ex_heap\<lparr>faults := [False, False, False, False, False, False, False, False, False, True]\<rparr>"

text \<open>
  A client run: five insertions, an erasure, the two bounds of \<open>4\<close>, then a copy from
  which \<open>8\<close> is erased. It returns the iteration sequences, the size and the bounds seen on
  the way.
\<close>

definition scenario :: "(int, int list \<times> int list \<times> 64 word \<times> int \<times> int \<times> int list \<times> int list) prog" where
  "scenario =
     bind new_set (\<lambda>s.
     bind (insert_all s [5, 3, 8, 1, 4]) (\<lambda>_.
     bind (to_list s) (\<lambda>xs.
     bind (find_set s 3) (\<lambda>it3.
     bind (erase s it3) (\<lambda>_.
     bind (to_list s) (\<lambda>ys.
     bind (size_set s) (\<lambda>n.
     bind (lower_bound s 4) (\<lambda>lo.
     bind (deref_it lo) (\<lambda>l.
     bind (upper_bound s 4) (\<lambda>up.
     bind (deref_it up) (\<lambda>u.
     bind (copy_set s) (\<lambda>c.
     bind (find_set c 8) (\<lambda>it8.
     bind (erase c it8) (\<lambda>_.
     bind (to_list c) (\<lambda>zs.
     bind (to_list s) (\<lambda>ws. ret (xs, ys, n, l, u, zs, ws)))))))))))))))))"

section \<open>Properties\<close>

subsection \<open>Execution of single steps\<close>

lemma and_then_simps [simp]:
  "and_then None k = None"
  "and_then (Some (Ret x, h)) k = k x h"
  "and_then (Some (Throw, h)) k = Some (Throw, h)"
  "and_then (Some (UB, h)) k = Some (UB, h)"
  by (simp_all add: and_then_def)

lemma may_throw_ok: "faults h = [] \<Longrightarrow> may_throw h = Some (Ret (), h)"
  by (simp add: may_throw_def)

lemma get_node_ok: "nodes h p = Some n \<Longrightarrow> get_node p h = Some (Ret n, h)"
  by (simp add: get_node_def)

lemma deref_ok: "vals h a = Some x \<Longrightarrow> deref (Some a) h = Some (Ret x, h)"
  by (simp add: deref_def)

lemma cmp_ok:
  "faults h = [] \<Longrightarrow> equal_T x y h = Some (Ret (x = y), h)"
  "faults h = [] \<Longrightarrow> not_equal_T x y h = Some (Ret (x \<noteq> y), h)"
  "faults h = [] \<Longrightarrow> less_T v w h = Some (Ret (v < w), h)"
  "faults h = [] \<Longrightarrow> greater_T v w h = Some (Ret (v > w), h)"
  by (simp_all add: equal_T_def not_equal_T_def less_T_def greater_T_def bind_def may_throw_ok ret_def)

lemma holdsD: "holds h a x \<Longrightarrow> \<exists>n va. nodes h a = Some n \<and> value' n = Some va \<and> va < brk h \<and> vals h va = Some x"
  by (auto simp: holds_def split: option.splits)

lemma tree_at_NodeD:
  "tree_at h A p (Node l x r) \<Longrightarrow>
   \<exists>a n va. p = Some a \<and> a \<in> A \<and> nodes h a = Some n \<and> value' n = Some va \<and> va < brk h \<and> vals h va = Some x \<and> holds h a x
     \<and> tree_at h A (left n) l \<and> tree_at h A (right n) r"
  by (auto simp: holds_def split: option.splits)

lemma end_it_iff: "(it = end_it this) = (node_ptr it = this \<and> set_ptr it = this)"
  by (cases it) (auto simp: end_it_def)

lemma end_it_sel [simp]: "node_ptr (end_it this) = this" "set_ptr (end_it this) = this"
  by (simp_all add: end_it_def)

lemma it_at_end [simp]: "it_at h A this it None = (it = end_it this)"
  by (simp add: it_at_def)

lemma it_at_not_end: "it_at h A this it (Some x) \<Longrightarrow> this \<notin> A \<Longrightarrow> it \<noteq> end_it this"
  by (auto simp: it_at_def end_it_iff)

lemma lower_bound_rec_ok:
  "tree_at h A p t \<Longrightarrow> this \<notin> A \<Longrightarrow> faults h = [] \<Longrightarrow>
   \<exists>it. lower_bound_rec this p v h = Some (Ret it, h) \<and> it_at h A this it (lb v t)"
proof (induction t arbitrary: p)
  case Leaf
  then show ?case by (simp add: lower_bound_rec.simps ret_def)
next
  case (Node l x r)
  from tree_at_NodeD[OF Node.prems(1)] obtain a n va where
    p: "p = Some a" "a \<in> A" "nodes h a = Some n" "value' n = Some va" "vals h va = Some x" "holds h a x"
    and l: "tree_at h A (left n) l" and r: "tree_at h A (right n) r" by blast
  from Node.IH(1)[OF l Node.prems(2,3)] obtain il where
    il: "lower_bound_rec this (left n) v h = Some (Ret il, h)" "it_at h A this il (lb v l)" by blast
  from Node.IH(2)[OF r Node.prems(2,3)] obtain ir where
    ir: "lower_bound_rec this (right n) v h = Some (Ret ir, h)" "it_at h A this ir (lb v r)" by blast
  show ?case
    apply (subst lower_bound_rec.simps)
    using p il ir Node.prems(2,3)
    by (auto simp: get_node_ok deref_ok cmp_ok ret_def it_at_def end_it_iff split: option.splits)
qed

lemma upper_bound_rec_ok:
  "tree_at h A p t \<Longrightarrow> this \<notin> A \<Longrightarrow> faults h = [] \<Longrightarrow>
   \<exists>it. upper_bound_rec this p v h = Some (Ret it, h) \<and> it_at h A this it (ub v t)"
proof (induction t arbitrary: p)
  case Leaf
  then show ?case by (simp add: upper_bound_rec.simps ret_def)
next
  case (Node l x r)
  from tree_at_NodeD[OF Node.prems(1)] obtain a n va where
    p: "p = Some a" "a \<in> A" "nodes h a = Some n" "value' n = Some va" "vals h va = Some x" "holds h a x"
    and l: "tree_at h A (left n) l" and r: "tree_at h A (right n) r" by blast
  from Node.IH(1)[OF l Node.prems(2,3)] obtain il where
    il: "upper_bound_rec this (left n) v h = Some (Ret il, h)" "it_at h A this il (ub v l)" by blast
  from Node.IH(2)[OF r Node.prems(2,3)] obtain ir where
    ir: "upper_bound_rec this (right n) v h = Some (Ret ir, h)" "it_at h A this ir (ub v r)" by blast
  show ?case
    apply (subst upper_bound_rec.simps)
    using p il ir Node.prems(2,3)
    by (auto simp: get_node_ok deref_ok cmp_ok ret_def it_at_def end_it_iff split: option.splits)
qed

lemma rev_upper_bound_rec_ok:
  "tree_at h A p t \<Longrightarrow> this \<notin> A \<Longrightarrow> faults h = [] \<Longrightarrow> vals h vp = Some v \<Longrightarrow>
   \<exists>it. rev_upper_bound_rec this p (Some vp) h = Some (Ret it, h) \<and> it_at h A this it (rub v t)"
proof (induction t arbitrary: p)
  case Leaf
  then show ?case by (simp add: rev_upper_bound_rec.simps ret_def)
next
  case (Node l x r)
  from tree_at_NodeD[OF Node.prems(1)] obtain a n va where
    p: "p = Some a" "a \<in> A" "nodes h a = Some n" "value' n = Some va" "vals h va = Some x" "holds h a x"
    and l: "tree_at h A (left n) l" and r: "tree_at h A (right n) r" by blast
  from Node.IH(1)[OF l Node.prems(2,3,4)] obtain il where
    il: "rev_upper_bound_rec this (left n) (Some vp) h = Some (Ret il, h)" "it_at h A this il (rub v l)" by blast
  from Node.IH(2)[OF r Node.prems(2,3,4)] obtain ir where
    ir: "rev_upper_bound_rec this (right n) (Some vp) h = Some (Ret ir, h)" "it_at h A this ir (rub v r)" by blast
  show ?case
    apply (subst rev_upper_bound_rec.simps)
    using p il ir Node.prems(2,3,4)
    by (auto simp: get_node_ok deref_ok cmp_ok ret_def it_at_def end_it_iff split: option.splits)
qed

lemma begin_loop_ok:
  "tree_at h A (Some a) t \<Longrightarrow>
   \<exists>q y. begin_loop a h = Some (Ret q, h) \<and> q \<in> A \<and> first t = Some y \<and> holds h q y"
proof (induction t arbitrary: a)
  case Leaf
  then show ?case by simp
next
  case (Node l x r)
  from tree_at_NodeD[OF Node.prems(1)] obtain n where
    p: "a \<in> A" "nodes h a = Some n" "holds h a x"
    and l: "tree_at h A (left n) l" by auto
  show ?case
  proof (cases l)
    case Leaf
    with l p show ?thesis
      by (subst begin_loop.simps) (simp add: get_node_ok ret_def)
  next
    case (Node ll lx lr)
    with l obtain la where la: "left n = Some la" by (auto split: option.splits)
    from Node.IH(1)[of la] l la obtain q y where
      "begin_loop la h = Some (Ret q, h)" "q \<in> A" "first l = Some y" "holds h q y" by auto
    with p la show ?thesis
      by (subst begin_loop.simps) (simp add: get_node_ok)
  qed
qed

lemma rightmost_loop_ok:
  "tree_at h A (Some a) (Node l x r) \<Longrightarrow>
   \<exists>q. rightmost_loop a h = Some (Ret q, h) \<and> q \<in> A \<and> holds h q (rightmost l x r)"
proof (induction r arbitrary: a l x)
  case Leaf
  from tree_at_NodeD[OF Leaf.prems(1)] obtain n where
    p: "a \<in> A" "nodes h a = Some n" "holds h a x" "right n = None" by auto
  then show ?case
    by (subst rightmost_loop.simps) (simp add: get_node_ok ret_def)
next
  case (Node rl y rr)
  from tree_at_NodeD[OF Node.prems(1)] obtain n where
    p: "a \<in> A" "nodes h a = Some n" "holds h a x"
    and r: "tree_at h A (right n) (Node rl y rr)" by auto
  from r obtain ra where ra: "right n = Some ra" by (auto split: option.splits)
  from Node.IH(2)[of ra rl y] r ra obtain q where
    "rightmost_loop ra h = Some (Ret q, h)" "q \<in> A" "holds h q (rightmost rl y rr)" by auto
  with p ra show ?case
    by (subst rightmost_loop.simps) (simp add: get_node_ok)
qed

lemma frame_refl [simp]: "frame W h h"
  by (simp add: frame_def)

lemma frame_trans:
  "frame W h h1 \<Longrightarrow> frame W' h1 h2 \<Longrightarrow> W' \<inter> {..<brk h} \<subseteq> W \<Longrightarrow> frame W h h2"
  unfolding frame_def
  apply (intro conjI allI impI)
     apply simp
    apply (subgoal_tac "a < brk h1 \<and> a \<notin> W'")
     apply fastforce
    apply (rule conjI, simp, blast)
   apply (subgoal_tac "a < brk h1 \<and> a \<notin> W'")
    apply fastforce
   apply (rule conjI, simp, blast)
  apply (subgoal_tac "a < brk h1")
   apply fastforce
  apply simp
  done

lemma holds_frame:
  "holds h a x \<Longrightarrow> frame W h h' \<Longrightarrow> a < brk h \<Longrightarrow> a \<notin> W \<Longrightarrow> holds h' a x"
  by (auto simp: holds_def frame_def split: option.splits)

lemma tree_at_frame:
  "tree_at h A p t \<Longrightarrow> frame W h h' \<Longrightarrow> A \<subseteq> {..<brk h} \<Longrightarrow> A \<inter> W = {} \<Longrightarrow> tree_at h' A p t"
proof (induction t arbitrary: p)
  case Leaf
  then show ?case by simp
next
  case (Node l x r)
  from tree_at_NodeD[OF Node.prems(1)] obtain a n where
    p: "p = Some a" "a \<in> A" "nodes h a = Some n" "holds h a x"
    and l: "tree_at h A (left n) l" and r: "tree_at h A (right n) r" by blast
  from p Node.prems have a: "a < brk h" "a \<notin> W" by auto
  with p Node.prems(2) have "nodes h' a = Some n" by (simp add: frame_def)
  moreover from p a Node.prems(2) have "holds h' a x" by (blast intro: holds_frame)
  ultimately show ?case using p Node.IH(1)[OF l Node.prems(2,3,4)] Node.IH(2)[OF r Node.prems(2,3,4)]
    by simp
qed

lemma tree_at_mono: "tree_at h A p t \<Longrightarrow> A \<subseteq> B \<Longrightarrow> tree_at h B p t"
  by (induction t arbitrary: p) (auto split: option.splits)

lemma make_shared_copy_ok:
  "nodes h p = Some n \<Longrightarrow> faults h = [] \<Longrightarrow>
   make_shared_copy (Some p) h =
     Some (Ret (brk h), h\<lparr>nodes := (nodes h)(brk h \<mapsto> n), brk := Suc (brk h)\<rparr>)"
  by (simp add: make_shared_copy_def bind_def get_node_ok may_throw_ok alloc_node_def)

lemma make_shared_value_ok:
  "faults h = [] \<Longrightarrow>
   make_shared_value v h =
     Some (Ret (brk h),
       h\<lparr>nodes := (nodes h)(brk h \<mapsto> \<lparr>value' = Some (Suc (brk h)), left = None, right = None\<rparr>),
         vals := (vals h)(Suc (brk h) \<mapsto> v), brk := Suc (Suc (brk h))\<rparr>)"
  by (simp add: make_shared_value_def bind_def may_throw_ok alloc_node_def alloc_val_def
      set_value_def ret_def)

lemma set_left_ok:
  "nodes h p = Some n \<Longrightarrow> set_left p c h = Some (Ret (), h\<lparr>nodes := (nodes h)(p \<mapsto> n\<lparr>left := c\<rparr>)\<rparr>)"
  by (simp add: set_left_def)

lemma set_right_ok:
  "nodes h p = Some n \<Longrightarrow> set_right p c h = Some (Ret (), h\<lparr>nodes := (nodes h)(p \<mapsto> n\<lparr>right := c\<rparr>)\<rparr>)"
  by (simp add: set_right_def)

lemma set_value_ok:
  "nodes h p = Some n \<Longrightarrow> set_value p c h = Some (Ret (), h\<lparr>nodes := (nodes h)(p \<mapsto> n\<lparr>value' := c\<rparr>)\<rparr>)"
  by (simp add: set_value_def)

lemma set_node_ok:
  "nodes h p = Some n \<Longrightarrow> set_node p m h = Some (Ret (), h\<lparr>nodes := (nodes h)(p \<mapsto> m)\<rparr>)"
  by (simp add: set_node_def)

lemma tree_at_Leaf_iff: "tree_at h A p Leaf = (p = None)" by simp

lemma tree_at_None [simp]: "tree_at h A None t = (t = Leaf)"
  by (cases t) auto

lemma tree_at_SomeD: "tree_at h A (Some a) t \<Longrightarrow> \<exists>l x r. t = Node l x r"
  by (cases t) auto

lemma fresh_atD:
  "fresh_at h A a l x r \<Longrightarrow>
   \<exists>n. nodes h a = Some n \<and> a < brk h \<and> a \<notin> A \<and> A \<subseteq> {..<brk h} \<and> holds h a x
      \<and> tree_at h A (left n) l \<and> tree_at h A (right n) r"
  by (auto simp: fresh_at_def split: option.splits)

lemma fresh_at_tree:
  "fresh_at h A a l x r \<Longrightarrow> insert a A \<subseteq> B \<Longrightarrow> tree_at h B (Some a) (Node l x r)"
  by (auto simp: fresh_at_def split: option.splits intro: tree_at_mono)

lemma copy_fresh:
  assumes t: "tree_at h A (Some p) (Node l x r)" and A: "A \<subseteq> {..<brk h}"
    and n: "nodes h p = Some n"
  shows "fresh_at (h\<lparr>nodes := (nodes h)(brk h \<mapsto> n), brk := Suc (brk h)\<rparr>) A (brk h) l x r"
proof -
  let ?h = "h\<lparr>nodes := (nodes h)(brk h \<mapsto> n), brk := Suc (brk h)\<rparr>"
  have f: "frame {} h ?h" by (auto simp: frame_def)
  from t n have "holds h p x" "tree_at h A (left n) l" "tree_at h A (right n) r" by auto
  with f A have "tree_at ?h A (left n) l" "tree_at ?h A (right n) r"
    by (auto intro: tree_at_frame)
  moreover from \<open>holds h p x\<close> n have "holds ?h (brk h) x"
    by (auto simp: holds_def split: option.splits)
  ultimately show ?thesis using A by (auto simp: fresh_at_def)
qed

lemma fresh_at_frame:
  "fresh_at h A a l x r \<Longrightarrow> frame W h h' \<Longrightarrow> a \<notin> W \<Longrightarrow> A \<inter> W = {} \<Longrightarrow> fresh_at h' A a l x r"
proof -
  assume a: "fresh_at h A a l x r" "frame W h h'" "a \<notin> W" "A \<inter> W = {}"
  from fresh_atD[OF a(1)] obtain n where
    n: "nodes h a = Some n" "a < brk h" "a \<notin> A" "A \<subseteq> {..<brk h}" "holds h a x"
    and l: "tree_at h A (left n) l" and r: "tree_at h A (right n) r" by blast
  from a n have "nodes h' a = Some n" "brk h \<le> brk h'" by (auto simp: frame_def)
  moreover from n a have "holds h' a x" by (blast intro: holds_frame)
  moreover have "tree_at h' A (left n) l" "tree_at h' A (right n) r"
    using l r a n by (blast intro: tree_at_frame)+
  ultimately show ?thesis using n by (auto simp: fresh_at_def)
qed

lemma insert_rec_ok:
  "fresh_at h A nx l x r \<Longrightarrow> faults h = [] \<Longrightarrow>
   \<exists>h'. insert_rec nx v h = Some (Ret (), h') \<and>
     tree_at h' (insert nx (A \<union> {brk h..<brk h'})) (Some nx) (ins v (Node l x r)) \<and>
     frame {nx} h h' \<and> faults h' = []"
proof (induction "Node l x r" arbitrary: l x r nx h)
  case (Node l x r)
  from fresh_atD[OF Node.prems(1)] obtain n where
    n: "nodes h nx = Some n" "nx < brk h" "nx \<notin> A" "A \<subseteq> {..<brk h}" "holds h nx x"
    and l: "tree_at h A (left n) l" and r: "tree_at h A (right n) r" by blast
  from holdsD[OF n(5)] n(1) obtain va where va: "value' n = Some va" "va < brk h" "vals h va = Some x"
    by auto
  note nf = \<open>faults h = []\<close>
  let ?c = "brk h"
  let ?h1 = "h\<lparr>nodes := (nodes h)(?c \<mapsto> \<lparr>value' = Some (Suc ?c), left = None, right = None\<rparr>),
         vals := (vals h)(Suc ?c \<mapsto> v), brk := Suc (Suc ?c)\<rparr>"
  show ?case
  proof (cases "v < x")
    case True
    show ?thesis
    proof (cases l)
      case Leaf
      with l have ln: "left n = None" by simp
      let ?h2 = "?h1\<lparr>nodes := (nodes ?h1)(nx \<mapsto> n\<lparr>left := Some ?c\<rparr>)\<rparr>"
      have run: "insert_rec nx v h = Some (Ret (), ?h2)"
        using n va nf ln True
        by (subst insert_rec.simps)
           (simp add: get_node_ok deref_ok cmp_ok make_shared_value_ok set_left_ok)
      have f: "frame {nx} h ?h2" using n by (auto simp: frame_def)
      from tree_at_frame[OF r f] n have "tree_at ?h2 A (right n) r" by auto
      then have "tree_at ?h2 (insert nx (A \<union> {brk h..<brk ?h2})) (right n) r"
        by (rule tree_at_mono) auto
      moreover have "holds ?h2 nx x" using n va by (auto simp: holds_def)
      moreover have "holds ?h2 ?c v" using n by (auto simp: holds_def)
      ultimately have "tree_at ?h2 (insert nx (A \<union> {brk h..<brk ?h2})) (Some nx) (ins v (Node l x r))"
        using True Leaf n by auto
      with run f nf show ?thesis by auto
    next
      case (Node ll lx lr)
      with l obtain lp ln where lp: "left n = Some lp" "nodes h lp = Some ln"
        by (auto split: option.splits)
      let ?g1 = "h\<lparr>nodes := (nodes h)(?c \<mapsto> ln), brk := Suc ?c\<rparr>"
      let ?g2 = "?g1\<lparr>nodes := (nodes ?g1)(nx \<mapsto> n\<lparr>left := Some ?c\<rparr>)\<rparr>"
      from l lp Node have "fresh_at ?g1 A ?c ll lx lr" using n(4) by (auto intro!: copy_fresh)
      moreover have f12: "frame {nx} ?g1 ?g2" by (auto simp: frame_def)
      ultimately have fr: "fresh_at ?g2 A ?c ll lx lr" using n by (auto intro: fresh_at_frame)
      have nf2: "faults ?g2 = []" using nf by simp
      from Node.hyps(1)[OF Node fr nf2] obtain h' where
        h': "insert_rec ?c v ?g2 = Some (Ret (), h')"
          "tree_at h' (insert ?c (A \<union> {brk ?g2..<brk h'})) (Some ?c) (ins v l)"
          "frame {?c} ?g2 h'" "faults h' = []" unfolding Node by blast
      have run: "insert_rec nx v h = Some (Ret (), h')"
        using n va nf lp True h'(1)
        by (subst insert_rec.simps)
           (simp add: get_node_ok deref_ok cmp_ok make_shared_copy_ok set_left_ok)
      have f02: "frame {nx} h ?g2" using n by (auto simp: frame_def)
      have f: "frame {nx} h h'" by (rule frame_trans[OF f02 h'(3)]) auto
      from h'(3) n have nn: "nodes h' nx = Some (n\<lparr>left := Some ?c\<rparr>)" "brk ?g2 \<le> brk h'"
        by (auto simp: frame_def)
      from tree_at_frame[OF r f] n have "tree_at h' A (right n) r" by auto
      then have "tree_at h' (insert nx (A \<union> {brk h..<brk h'})) (right n) r"
        by (rule tree_at_mono) auto
      moreover have "holds h' nx x" using holds_frame[OF _ h'(3), of nx x] n va
        by (auto simp: holds_def)
      moreover have "tree_at h' (insert nx (A \<union> {brk h..<brk h'})) (Some ?c) (ins v l)"
        using nn by (intro tree_at_mono[OF h'(2)]) auto
      ultimately have "tree_at h' (insert nx (A \<union> {brk h..<brk h'})) (Some nx) (ins v (Node l x r))"
        using True nn by auto
      with run f h'(4) show ?thesis by auto
    qed
  next
    case False
    show ?thesis
    proof (cases r)
      case Leaf
      with r have rn: "right n = None" by simp
      let ?h2 = "?h1\<lparr>nodes := (nodes ?h1)(nx \<mapsto> n\<lparr>right := Some ?c\<rparr>)\<rparr>"
      have run: "insert_rec nx v h = Some (Ret (), ?h2)"
        using n va nf rn False
        by (subst insert_rec.simps)
           (simp add: get_node_ok deref_ok cmp_ok make_shared_value_ok set_right_ok)
      have f: "frame {nx} h ?h2" using n by (auto simp: frame_def)
      from tree_at_frame[OF l f] n have "tree_at ?h2 A (left n) l" by auto
      then have "tree_at ?h2 (insert nx (A \<union> {brk h..<brk ?h2})) (left n) l"
        by (rule tree_at_mono) auto
      moreover have "holds ?h2 nx x" using n va by (auto simp: holds_def)
      moreover have "holds ?h2 ?c v" using n by (auto simp: holds_def)
      ultimately have "tree_at ?h2 (insert nx (A \<union> {brk h..<brk ?h2})) (Some nx) (ins v (Node l x r))"
        using False Leaf n by auto
      with run f nf show ?thesis by auto
    next
      case (Node rl rx rr)
      with r obtain rp rn where rp: "right n = Some rp" "nodes h rp = Some rn"
        by (auto split: option.splits)
      let ?g1 = "h\<lparr>nodes := (nodes h)(?c \<mapsto> rn), brk := Suc ?c\<rparr>"
      let ?g2 = "?g1\<lparr>nodes := (nodes ?g1)(nx \<mapsto> n\<lparr>right := Some ?c\<rparr>)\<rparr>"
      from r rp Node have "fresh_at ?g1 A ?c rl rx rr" using n(4) by (auto intro!: copy_fresh)
      moreover have f12: "frame {nx} ?g1 ?g2" by (auto simp: frame_def)
      ultimately have fr: "fresh_at ?g2 A ?c rl rx rr" using n by (auto intro: fresh_at_frame)
      have nf2: "faults ?g2 = []" using nf by simp
      from Node.hyps(2)[OF Node fr nf2] obtain h' where
        h': "insert_rec ?c v ?g2 = Some (Ret (), h')"
          "tree_at h' (insert ?c (A \<union> {brk ?g2..<brk h'})) (Some ?c) (ins v r)"
          "frame {?c} ?g2 h'" "faults h' = []" unfolding Node by blast
      have run: "insert_rec nx v h = Some (Ret (), h')"
        using n va nf rp False h'(1)
        by (subst insert_rec.simps)
           (simp add: get_node_ok deref_ok cmp_ok make_shared_copy_ok set_right_ok)
      have f02: "frame {nx} h ?g2" using n by (auto simp: frame_def)
      have f: "frame {nx} h h'" by (rule frame_trans[OF f02 h'(3)]) auto
      from h'(3) n have nn: "nodes h' nx = Some (n\<lparr>right := Some ?c\<rparr>)" "brk ?g2 \<le> brk h'"
        by (auto simp: frame_def)
      from tree_at_frame[OF l f] n have "tree_at h' A (left n) l" by auto
      then have "tree_at h' (insert nx (A \<union> {brk h..<brk h'})) (left n) l"
        by (rule tree_at_mono) auto
      moreover have "holds h' nx x" using holds_frame[OF _ h'(3), of nx x] n va
        by (auto simp: holds_def)
      moreover have "tree_at h' (insert nx (A \<union> {brk h..<brk h'})) (Some ?c) (ins v r)"
        using nn by (intro tree_at_mono[OF h'(2)]) auto
      ultimately have "tree_at h' (insert nx (A \<union> {brk h..<brk h'})) (Some nx) (ins v (Node l x r))"
        using False nn by auto
      with run f h'(4) show ?thesis by auto
    qed
  qed
qed

lemma erase_impl_ok:
  "nodes h son = Some s \<Longrightarrow> nodes h parent = Some p \<Longrightarrow>
   erase_impl parent son h =
     Some (Ret (), h\<lparr>nodes := (nodes h)(parent \<mapsto>
        relink p son (if left s \<noteq> None then left s else right s))\<rparr>)"
  by (auto simp: erase_impl_def bind_def get_node_ok set_left_ok set_right_ok relink_def)

lemma swap_value_ok:
  "nodes h p = Some pn \<Longrightarrow> nodes h q = Some qn \<Longrightarrow> p \<noteq> q \<Longrightarrow>
   swap_value p q h =
     Some (Ret (), h\<lparr>nodes := (nodes h)(p \<mapsto> pn\<lparr>value' := value' qn\<rparr>, q \<mapsto> qn\<lparr>value' := value' pn\<rparr>)\<rparr>)"
  by (simp add: swap_value_def bind_def get_node_ok set_value_ok)

lemma relink_same: "left pn = Some nx \<or> right pn = Some nx \<Longrightarrow> relink pn nx (Some nx) = pn"
  by (auto simp: relink_def)

lemma erase_max_ok:
  "fresh_at h A nx l x r \<Longrightarrow> nodes h parent = Some pn \<Longrightarrow> parent \<notin> A \<Longrightarrow> parent \<noteq> nx \<Longrightarrow>
   parent < brk h \<Longrightarrow> left pn = Some nx \<or> (right pn = Some nx \<and> left pn \<noteq> Some nx) \<Longrightarrow>
   nodes h target = Some tn \<Longrightarrow> target \<notin> A \<Longrightarrow> target \<noteq> nx \<Longrightarrow> target < brk h \<Longrightarrow>
   faults h = [] \<Longrightarrow>
   \<exists>h' p' vm. and_then (erase_max parent nx h) (erase_tail target) = Some (Ret (), h') \<and>
     tree_at h' (insert nx (A \<union> {brk h..<brk h'})) p' (drop_max l x r) \<and>
     vm < brk h' \<and> vals h' vm = Some (rightmost l x r) \<and>
     nodes h' target = Some ((if target = parent then relink pn nx p' else tn)\<lparr>value' := Some vm\<rparr>) \<and>
     (parent \<noteq> target \<longrightarrow> nodes h' parent = Some (relink pn nx p')) \<and>
     frame {parent, target, nx} h h' \<and> faults h' = []"
proof (induction r arbitrary: l x nx h parent pn tn)
  case Leaf
  from fresh_atD[OF Leaf.prems(1)] obtain n where
    n: "nodes h nx = Some n" "nx < brk h" "nx \<notin> A" "A \<subseteq> {..<brk h}" "holds h nx x"
    and l: "tree_at h A (left n) l" and r: "right n = None" by auto
  from holdsD[OF n(5)] n(1) obtain va where va: "value' n = Some va" "va < brk h" "vals h va = Some x"
    by auto
  let ?h1 = "h\<lparr>nodes := (nodes h)(target \<mapsto> tn\<lparr>value' := value' n\<rparr>, nx \<mapsto> n\<lparr>value' := value' tn\<rparr>)\<rparr>"
  let ?pn1 = "if target = parent then pn\<lparr>value' := value' n\<rparr> else pn"
  let ?h2 = "?h1\<lparr>nodes := (nodes ?h1)(parent \<mapsto> relink ?pn1 nx (left n))\<rparr>"
  have tp: "target = parent \<Longrightarrow> tn = pn" using Leaf.prems by auto
  have run: "and_then (erase_max parent nx h) (erase_tail target) = Some (Ret (), ?h2)"
    using n r Leaf.prems tp
    by (subst erase_max.simps)
       (auto simp: get_node_ok ret_def erase_tail_def swap_value_ok erase_impl_ok)
  have f: "frame {parent, target, nx} h ?h2" by (auto simp: frame_def)
  from tree_at_frame[OF l f] n Leaf.prems have "tree_at ?h2 A (left n) l" by auto
  then have t: "tree_at ?h2 (insert nx (A \<union> {brk h..<brk ?h2})) (left n) (drop_max l x Leaf)"
    by (auto intro: tree_at_mono)
  show ?case
    apply (rule exI[of _ ?h2], rule exI[of _ "left n"], rule exI[of _ va])
    using run t f va Leaf.prems tp
    by (auto simp: relink_def)
next
  case (Node rl y rr)
  from fresh_atD[OF Node.prems(1)] obtain n where
    n: "nodes h nx = Some n" "nx < brk h" "nx \<notin> A" "A \<subseteq> {..<brk h}" "holds h nx x"
    and l: "tree_at h A (left n) l" and r: "tree_at h A (right n) (Node rl y rr)" by blast
  from r obtain rp rn where rp: "right n = Some rp" "nodes h rp = Some rn" "rp \<in> A"
    by (auto split: option.splits)
  let ?c = "brk h"
  let ?g1 = "h\<lparr>nodes := (nodes h)(?c \<mapsto> rn), brk := Suc ?c\<rparr>"
  let ?g2 = "?g1\<lparr>nodes := (nodes ?g1)(nx \<mapsto> n\<lparr>right := Some ?c\<rparr>)\<rparr>"
  from r rp have "fresh_at ?g1 A ?c rl y rr" using n(4) by (auto intro!: copy_fresh)
  moreover have f12: "frame {nx} ?g1 ?g2" by (auto simp: frame_def)
  ultimately have fr: "fresh_at ?g2 A ?c rl y rr" using n by (auto intro: fresh_at_frame)
  have ln: "left n \<noteq> Some ?c" using l n(4) by (cases l) (auto split: option.splits)
  have tp: "target = parent \<Longrightarrow> tn = pn" using Node.prems by auto
  have pre: "nodes ?g2 nx = Some (n\<lparr>right := Some ?c\<rparr>)" "nx \<notin> A" "nx \<noteq> ?c" "nx < brk ?g2"
     "left (n\<lparr>right := Some ?c\<rparr>) = Some ?c \<or> (right (n\<lparr>right := Some ?c\<rparr>) = Some ?c \<and> left (n\<lparr>right := Some ?c\<rparr>) \<noteq> Some ?c)"
     "nodes ?g2 target = Some tn" "target \<notin> A" "target \<noteq> ?c" "target < brk ?g2" "faults ?g2 = []"
    using n Node.prems ln by auto
  from Node.IH(2)[OF fr pre] obtain h' p' vm where
    h': "and_then (erase_max nx ?c ?g2) (erase_tail target) = Some (Ret (), h')"
      "tree_at h' (insert ?c (A \<union> {brk ?g2..<brk h'})) p' (drop_max rl y rr)"
      "vm < brk h'" "vals h' vm = Some (rightmost rl y rr)"
      "nodes h' target = Some ((if target = nx then relink (n\<lparr>right := Some ?c\<rparr>) ?c p' else tn)\<lparr>value' := Some vm\<rparr>)"
      "nx \<noteq> target \<longrightarrow> nodes h' nx = Some (relink (n\<lparr>right := Some ?c\<rparr>) ?c p')"
      "frame {nx, target, ?c} ?g2 h'" "faults h' = []" by blast
  have run: "and_then (erase_max parent nx h) (erase_tail target) = Some (Ret (), h')"
    using n rp Node.prems h'(1)
    by (subst erase_max.simps)
       (simp add: get_node_ok make_shared_copy_ok set_right_ok)
  have f02: "frame {parent, target, nx} h ?g2" using n by (auto simp: frame_def)
  have f02': "frame {target, nx} h ?g2" using n by (auto simp: frame_def)
  have f: "frame {parent, target, nx} h h'" by (rule frame_trans[OF f02 h'(7)]) auto
  have f': "frame {target, nx} h h'" by (rule frame_trans[OF f02' h'(7)]) auto
  from h'(7) have b: "brk ?g2 \<le> brk h'" by (simp add: frame_def)
  have nn: "nodes h' nx = Some (n\<lparr>right := p'\<rparr>)"
    using h'(6) Node.prems ln by (auto simp: relink_def)
  from tree_at_frame[OF l f] n Node.prems have "tree_at h' A (left n) l" by auto
  then have "tree_at h' (insert nx (A \<union> {brk h..<brk h'})) (left n) l"
    by (rule tree_at_mono) auto
  moreover have "holds h' nx x" using holdsD[OF n(5)] n nn f
    by (auto simp: holds_def frame_def)
  moreover have "tree_at h' (insert nx (A \<union> {brk h..<brk h'})) p' (drop_max rl y rr)"
    using b by (intro tree_at_mono[OF h'(2)]) auto
  ultimately have t: "tree_at h' (insert nx (A \<union> {brk h..<brk h'})) (Some nx) (drop_max l x (Node rl y rr))"
    using nn b n by auto
  have pp: "parent \<noteq> target \<Longrightarrow> nodes h' parent = Some pn"
    using f' Node.prems by (auto simp: frame_def)
  show ?case
    apply (rule exI[of _ h'], rule exI[of _ "Some nx"], rule exI[of _ vm])
    using run t h'(3,4,5,8) f tp pp Node.prems(2-10)
    by (auto simp: relink_same)
qed

lemma elems_Leaf_iff: "elems t = {} \<longleftrightarrow> t = Leaf"
  by (cases t) auto

lemma erase_loop_ok:
  "fresh_at h A nx l x r \<Longrightarrow> nodes h parent = Some pn \<Longrightarrow> parent \<notin> A \<Longrightarrow> parent \<noteq> nx \<Longrightarrow>
   parent < brk h \<Longrightarrow> left pn = Some nx \<or> (right pn = Some nx \<and> left pn \<noteq> Some nx) \<Longrightarrow>
   bst (Node l x r) \<Longrightarrow> v \<in> elems (Node l x r) \<Longrightarrow> faults h = [] \<Longrightarrow>
   \<exists>h' p'. erase_loop v parent nx h = Some (Ret (), h') \<and>
     tree_at h' (insert nx (A \<union> {brk h..<brk h'})) p' (del v (Node l x r)) \<and>
     nodes h' parent = Some (relink pn nx p') \<and>
     frame {parent, nx} h h' \<and> faults h' = []"
proof (induction "Node l x r" arbitrary: l x r nx h parent pn)
  case (Node l x r)
  from fresh_atD[OF Node.prems(1)] obtain n where
    n: "nodes h nx = Some n" "nx < brk h" "nx \<notin> A" "A \<subseteq> {..<brk h}" "holds h nx x"
    and l: "tree_at h A (left n) l" and r: "tree_at h A (right n) r" by blast
  from holdsD[OF n(5)] n(1) obtain va where va: "value' n = Some va" "va < brk h" "vals h va = Some x"
    by auto
  note nf = \<open>faults h = []\<close>
  note par = Node.prems(2-6)
  let ?c = "brk h"
  let ?B = "\<lambda>h'. insert nx (A \<union> {brk h..<brk h'})"
  have lnc: "left n \<noteq> Some ?c" using l n(4) by (cases l) (auto split: option.splits)
  have rnc: "right n \<noteq> Some ?c" using r n(4) by (cases r) (auto split: option.splits)
  consider (eq2) "x = v" "l \<noteq> Leaf" "r \<noteq> Leaf" | (eq1) "x = v" "l = Leaf \<or> r = Leaf"
    | (lt) "v < x" | (gt) "x < v" by fastforce
  then show ?case
  proof cases
    case eq2
    then obtain ll lx lr where lN: "l = Node ll lx lr" by (cases l) auto
    with l obtain lp ln where lp: "left n = Some lp" "nodes h lp = Some ln"
      by (auto split: option.splits)
    from eq2 r obtain rp where rp: "right n = Some rp" by (cases r) (auto split: option.splits)
    let ?g1 = "h\<lparr>nodes := (nodes h)(?c \<mapsto> ln), brk := Suc ?c\<rparr>"
    let ?g2 = "?g1\<lparr>nodes := (nodes ?g1)(nx \<mapsto> n\<lparr>left := Some ?c\<rparr>)\<rparr>"
    from l lp lN have "fresh_at ?g1 A ?c ll lx lr" using n(4) by (auto intro!: copy_fresh)
    moreover have f12: "frame {nx} ?g1 ?g2" by (auto simp: frame_def)
    ultimately have fr: "fresh_at ?g2 A ?c ll lx lr" using n by (auto intro: fresh_at_frame)
    have pre: "nodes ?g2 nx = Some (n\<lparr>left := Some ?c\<rparr>)" "nx \<notin> A" "nx \<noteq> ?c" "nx < brk ?g2"
      "left (n\<lparr>left := Some ?c\<rparr>) = Some ?c \<or> (right (n\<lparr>left := Some ?c\<rparr>) = Some ?c \<and> left (n\<lparr>left := Some ?c\<rparr>) \<noteq> Some ?c)"
      "nodes ?g2 nx = Some (n\<lparr>left := Some ?c\<rparr>)" "nx \<notin> A" "nx \<noteq> ?c" "nx < brk ?g2" "faults ?g2 = []"
      using n nf by auto
    from erase_max_ok[OF fr pre] obtain h' p' vm where
      h': "and_then (erase_max nx ?c ?g2) (erase_tail nx) = Some (Ret (), h')"
        "tree_at h' (insert ?c (A \<union> {brk ?g2..<brk h'})) p' (drop_max ll lx lr)"
        "vm < brk h'" "vals h' vm = Some (rightmost ll lx lr)"
        "nodes h' nx = Some ((relink (n\<lparr>left := Some ?c\<rparr>) ?c p')\<lparr>value' := Some vm\<rparr>)"
        "frame {nx, nx, ?c} ?g2 h'" "faults h' = []" by auto
    have run: "erase_loop v parent nx h = Some (Ret (), h')"
      using n va nf lp rp eq2 h'(1)
      by (subst erase_loop.simps)
         (simp add: get_node_ok deref_ok cmp_ok make_shared_copy_ok set_left_ok erase_tail_def[abs_def])
    have f02: "frame {nx} h ?g2" using n by (auto simp: frame_def)
    have f: "frame {nx} h h'" by (rule frame_trans[OF f02 h'(6)]) auto
    from h'(6) have b: "brk ?g2 \<le> brk h'" by (simp add: frame_def)
    have nn: "nodes h' nx = Some (n\<lparr>left := p', value' := Some vm\<rparr>)"
      using h'(5) by (auto simp: relink_def)
    from tree_at_frame[OF r f] n have "tree_at h' A (right n) r" by auto
    then have "tree_at h' (?B h') (right n) r"
      by (rule tree_at_mono) auto
    moreover have "holds h' nx (rightmost ll lx lr)" using nn h'(3,4)
      by (auto simp: holds_def)
    moreover have "tree_at h' (?B h') p' (drop_max ll lx lr)"
      using b by (intro tree_at_mono[OF h'(2)]) auto
    ultimately have t: "tree_at h' (?B h') (Some nx) (del v (Node l x r))"
      using nn b n eq2 lN by (cases r) auto
    have pp: "nodes h' parent = Some pn"
      using f par by (auto simp: frame_def)
    have "frame {parent, nx} h h'" using f by (auto simp: frame_def)
    with run t h'(7) pp par show ?thesis
      by (intro exI[of _ h'] exI[of _ "Some nx"]) (auto simp: relink_same)
  next
    case eq1
    let ?p' = "if left n \<noteq> None then left n else right n"
    let ?h1 = "h\<lparr>nodes := (nodes h)(parent \<mapsto> relink pn nx ?p')\<rparr>"
    have lr: "left n = None \<or> right n = None" using eq1 l r by auto
    have run: "erase_loop v parent nx h = Some (Ret (), ?h1)"
      using n va nf eq1 lr par
      by (subst erase_loop.simps)
         (auto simp: get_node_ok deref_ok cmp_ok erase_impl_ok)
    have f: "frame {parent, nx} h ?h1" by (auto simp: frame_def)
    have d: "del v (Node l x r) = (if l = Leaf then r else l)"
      using eq1 by (cases l; cases r) auto
    have "tree_at h A ?p' (del v (Node l x r))"
      using l r eq1 unfolding d by (cases l) (auto split: option.splits)
    from tree_at_frame[OF this f] n par have "tree_at ?h1 A ?p' (del v (Node l x r))" by auto
    then have "tree_at ?h1 (?B ?h1) ?p' (del v (Node l x r))" by (rule tree_at_mono) auto
    with run f nf show ?thesis
      by (intro exI[of _ ?h1] exI[of _ ?p']) auto
  next
    case lt
    with Node.prems(7,8) have vl: "v \<in> elems l" "bst l" "x \<noteq> v" by auto
    then obtain ll lx lr where lN: "l = Node ll lx lr" by (cases l) auto
    with l obtain lp ln where lp: "left n = Some lp" "nodes h lp = Some ln"
      by (auto split: option.splits)
    let ?g1 = "h\<lparr>nodes := (nodes h)(?c \<mapsto> ln), brk := Suc ?c\<rparr>"
    let ?g2 = "?g1\<lparr>nodes := (nodes ?g1)(nx \<mapsto> n\<lparr>left := Some ?c\<rparr>)\<rparr>"
    from l lp lN have "fresh_at ?g1 A ?c ll lx lr" using n(4) by (auto intro!: copy_fresh)
    moreover have f12: "frame {nx} ?g1 ?g2" by (auto simp: frame_def)
    ultimately have fr: "fresh_at ?g2 A ?c ll lx lr" using n by (auto intro: fresh_at_frame)
    have pre: "nodes ?g2 nx = Some (n\<lparr>left := Some ?c\<rparr>)" "nx \<notin> A" "nx \<noteq> ?c" "nx < brk ?g2"
      "left (n\<lparr>left := Some ?c\<rparr>) = Some ?c \<or> (right (n\<lparr>left := Some ?c\<rparr>) = Some ?c \<and> left (n\<lparr>left := Some ?c\<rparr>) \<noteq> Some ?c)"
      "bst (Node ll lx lr)" "v \<in> elems (Node ll lx lr)" "faults ?g2 = []"
      using n nf vl lN by auto
    from Node.hyps(1)[OF lN fr pre] obtain h' p' where
      h': "erase_loop v nx ?c ?g2 = Some (Ret (), h')"
        "tree_at h' (insert ?c (A \<union> {brk ?g2..<brk h'})) p' (del v l)"
        "nodes h' nx = Some (relink (n\<lparr>left := Some ?c\<rparr>) ?c p')"
        "frame {nx, ?c} ?g2 h'" "faults h' = []" unfolding lN by blast
    have run: "erase_loop v parent nx h = Some (Ret (), h')"
      using n va nf lp lt vl h'(1)
      by (subst erase_loop.simps)
         (simp add: get_node_ok deref_ok cmp_ok make_shared_copy_ok set_left_ok)
    have f02: "frame {nx} h ?g2" using n by (auto simp: frame_def)
    have f: "frame {nx} h h'" by (rule frame_trans[OF f02 h'(4)]) auto
    from h'(4) have b: "brk ?g2 \<le> brk h'" by (simp add: frame_def)
    have nn: "nodes h' nx = Some (n\<lparr>left := p'\<rparr>)"
      using h'(3) by (auto simp: relink_def)
    from tree_at_frame[OF r f] n have "tree_at h' A (right n) r" by auto
    then have "tree_at h' (?B h') (right n) r"
      by (rule tree_at_mono) auto
    moreover have "holds h' nx x" using holdsD[OF n(5)] n nn f
      by (auto simp: holds_def frame_def)
    moreover have "tree_at h' (?B h') p' (del v l)"
      using b by (intro tree_at_mono[OF h'(2)]) auto
    ultimately have t: "tree_at h' (?B h') (Some nx) (del v (Node l x r))"
      using nn b n lt vl by auto
    have pp: "nodes h' parent = Some pn"
      using f par by (auto simp: frame_def)
    have "frame {parent, nx} h h'" using f by (auto simp: frame_def)
    with run t h'(5) pp par show ?thesis
      by (intro exI[of _ h'] exI[of _ "Some nx"]) (auto simp: relink_same)
  next
    case gt
    with Node.prems(7,8) have vl: "v \<in> elems r" "bst r" "x \<noteq> v" "\<not> v < x" by auto
    then obtain rl rx rr where rN: "r = Node rl rx rr" by (cases r) auto
    with r obtain rp rn where rp: "right n = Some rp" "nodes h rp = Some rn"
      by (auto split: option.splits)
    let ?g1 = "h\<lparr>nodes := (nodes h)(?c \<mapsto> rn), brk := Suc ?c\<rparr>"
    let ?g2 = "?g1\<lparr>nodes := (nodes ?g1)(nx \<mapsto> n\<lparr>right := Some ?c\<rparr>)\<rparr>"
    from r rp rN have "fresh_at ?g1 A ?c rl rx rr" using n(4) by (auto intro!: copy_fresh)
    moreover have f12: "frame {nx} ?g1 ?g2" by (auto simp: frame_def)
    ultimately have fr: "fresh_at ?g2 A ?c rl rx rr" using n by (auto intro: fresh_at_frame)
    have pre: "nodes ?g2 nx = Some (n\<lparr>right := Some ?c\<rparr>)" "nx \<notin> A" "nx \<noteq> ?c" "nx < brk ?g2"
      "left (n\<lparr>right := Some ?c\<rparr>) = Some ?c \<or> (right (n\<lparr>right := Some ?c\<rparr>) = Some ?c \<and> left (n\<lparr>right := Some ?c\<rparr>) \<noteq> Some ?c)"
      "bst (Node rl rx rr)" "v \<in> elems (Node rl rx rr)" "faults ?g2 = []"
      using n nf vl rN lnc by auto
    from Node.hyps(2)[OF rN fr pre] obtain h' p' where
      h': "erase_loop v nx ?c ?g2 = Some (Ret (), h')"
        "tree_at h' (insert ?c (A \<union> {brk ?g2..<brk h'})) p' (del v r)"
        "nodes h' nx = Some (relink (n\<lparr>right := Some ?c\<rparr>) ?c p')"
        "frame {nx, ?c} ?g2 h'" "faults h' = []" unfolding rN by blast
    have run: "erase_loop v parent nx h = Some (Ret (), h')"
      using n va nf rp gt vl h'(1)
      by (subst erase_loop.simps)
         (simp add: get_node_ok deref_ok cmp_ok make_shared_copy_ok set_right_ok)
    have f02: "frame {nx} h ?g2" using n by (auto simp: frame_def)
    have f: "frame {nx} h h'" by (rule frame_trans[OF f02 h'(4)]) auto
    from h'(4) have b: "brk ?g2 \<le> brk h'" by (simp add: frame_def)
    have nn: "nodes h' nx = Some (n\<lparr>right := p'\<rparr>)"
      using h'(3) lnc by (auto simp: relink_def)
    from tree_at_frame[OF l f] n have "tree_at h' A (left n) l" by auto
    then have "tree_at h' (?B h') (left n) l"
      by (rule tree_at_mono) auto
    moreover have "holds h' nx x" using holdsD[OF n(5)] n nn f
      by (auto simp: holds_def frame_def)
    moreover have "tree_at h' (?B h') p' (del v r)"
      using b by (intro tree_at_mono[OF h'(2)]) auto
    ultimately have t: "tree_at h' (?B h') (Some nx) (del v (Node l x r))"
      using nn b n gt vl by auto
    have pp: "nodes h' parent = Some pn"
      using f par by (auto simp: frame_def)
    have "frame {parent, nx} h h'" using f by (auto simp: frame_def)
    with run t h'(5) pp par show ?thesis
      by (intro exI[of _ h'] exI[of _ "Some nx"]) (auto simp: relink_same)
  qed
qed

lemma lb_None: "bst t \<Longrightarrow> lb v t = None \<Longrightarrow> \<forall>z\<in>elems t. z < v"
proof (induction t)
  case Leaf
  then show ?case by simp
next
  case (Node l x r)
  from Node.prems(2) have 1: "x < v" "lb v r = None"
    by (auto split: if_splits option.splits)
  with Node have "\<forall>z\<in>elems r. z < v" by simp
  moreover from Node.prems(1) 1 have "\<forall>z\<in>elems l. z < v" by (auto intro: less_trans)
  ultimately show ?case using 1 by (auto simp: not_less)
qed

lemma lb_Some:
  "bst t \<Longrightarrow> lb v t = Some y \<Longrightarrow> y \<in> elems t \<and> v \<le> y \<and> (\<forall>z\<in>elems t. v \<le> z \<longrightarrow> y \<le> z)"
proof (induction t)
  case Leaf
  then show ?case by simp
next
  case (Node l x r)
  then have b: "\<forall>z\<in>elems l. z < x" "\<forall>z\<in>elems r. x < z" "bst l" "bst r" by auto
  consider (eq) "x = v" | (gt) "x < v" | (lt) "v < x" by fastforce
  then show ?case
  proof cases
    case eq
    with Node.prems(2) have "y = v" by (auto split: if_splits)
    with eq b show ?thesis by (auto intro: less_imp_le)
  next
    case gt
    with Node.prems(2) have "lb v r = Some y" by (auto split: if_splits)
    from Node.IH(2)[OF b(4) this] have ih: "y \<in> elems r" "v \<le> y" "\<forall>z\<in>elems r. v \<le> z \<longrightarrow> y \<le> z"
      by auto
    have "\<forall>z\<in>elems l. \<not> v \<le> z" using b(1) gt by (meson less_trans not_le)
    with ih gt show ?thesis by auto
  next
    case lt
    show ?thesis
    proof (cases "lb v l")
      case None
      with lt Node.prems(2) have y: "y = x" by (auto split: if_splits)
      from lb_None[OF b(3) None] have "\<forall>z\<in>elems l. \<not> v \<le> z" by (simp add: not_le)
      with y lt b(2) show ?thesis by (auto intro: less_imp_le)
    next
      case (Some y')
      with lt Node.prems(2) have y: "lb v l = Some y" by (auto split: if_splits)
      from Node.IH(1)[OF b(3) this] have ih: "y \<in> elems l" "v \<le> y" "\<forall>z\<in>elems l. v \<le> z \<longrightarrow> y \<le> z"
        by auto
      from ih(1) b(1) have yx: "y < x" by simp
      then have "\<forall>z\<in>elems r. y \<le> z" using b(2) by (meson less_imp_le less_trans)
      with ih yx show ?thesis by (auto intro: less_imp_le)
    qed
  qed
qed

lemma ub_None: "bst t \<Longrightarrow> ub v t = None \<Longrightarrow> \<forall>z\<in>elems t. z \<le> v"
proof (induction t)
  case Leaf
  then show ?case by simp
next
  case (Node l x r)
  from Node.prems(2) have 1: "\<not> v < x" "ub v r = None"
    by (auto split: if_splits option.splits)
  with Node have "\<forall>z\<in>elems r. z \<le> v" by simp
  moreover from Node.prems(1) 1 have "\<forall>z\<in>elems l. z \<le> v" by (meson bst.simps(2) less_imp_le less_trans not_le)
  ultimately show ?case using 1 by (auto simp: not_less)
qed

lemma ub_Some:
  "bst t \<Longrightarrow> ub v t = Some y \<Longrightarrow> y \<in> elems t \<and> v < y \<and> (\<forall>z\<in>elems t. v < z \<longrightarrow> y \<le> z)"
proof (induction t)
  case Leaf
  then show ?case by simp
next
  case (Node l x r)
  then have b: "\<forall>z\<in>elems l. z < x" "\<forall>z\<in>elems r. x < z" "bst l" "bst r" by auto
  show ?case
  proof (cases "v < x")
    case False
    with Node.prems(2) have "ub v r = Some y" by (auto split: if_splits)
    from Node.IH(2)[OF b(4) this] have ih: "y \<in> elems r" "v < y" "\<forall>z\<in>elems r. v < z \<longrightarrow> y \<le> z"
      by auto
    have "\<forall>z\<in>elems l. \<not> v < z" using b(1) False by (meson less_trans)
    with ih False show ?thesis by auto
  next
    case lt: True
    show ?thesis
    proof (cases "ub v l")
      case None
      with lt Node.prems(2) have y: "y = x" by (auto split: if_splits)
      from ub_None[OF b(3) None] have "\<forall>z\<in>elems l. \<not> v < z" by (simp add: not_less)
      with y lt b(2) show ?thesis by (auto intro: less_imp_le)
    next
      case (Some y')
      with lt Node.prems(2) have y: "ub v l = Some y" by (auto split: if_splits)
      from Node.IH(1)[OF b(3) this] have ih: "y \<in> elems l" "v < y" "\<forall>z\<in>elems l. v < z \<longrightarrow> y \<le> z"
        by auto
      from ih(1) b(1) have yx: "y < x" by simp
      then have "\<forall>z\<in>elems r. y \<le> z" using b(2) by (meson less_imp_le less_trans)
      with ih yx show ?thesis by (auto intro: less_imp_le)
    qed
  qed
qed

lemma rub_None: "bst t \<Longrightarrow> rub v t = None \<Longrightarrow> \<forall>z\<in>elems t. v \<le> z"
proof (induction t)
  case Leaf
  then show ?case by simp
next
  case (Node l x r)
  from Node.prems(2) have 1: "\<not> x < v" "rub v l = None"
    by (auto split: if_splits option.splits)
  with Node have "\<forall>z\<in>elems l. v \<le> z" by simp
  moreover from Node.prems(1) 1 have "\<forall>z\<in>elems r. v \<le> z" by (meson bst.simps(2) less_imp_le less_trans not_le)
  ultimately show ?case using 1 by (auto simp: not_less)
qed

lemma rub_Some:
  "bst t \<Longrightarrow> rub v t = Some y \<Longrightarrow> y \<in> elems t \<and> y < v \<and> (\<forall>z\<in>elems t. z < v \<longrightarrow> z \<le> y)"
proof (induction t)
  case Leaf
  then show ?case by simp
next
  case (Node l x r)
  then have b: "\<forall>z\<in>elems l. z < x" "\<forall>z\<in>elems r. x < z" "bst l" "bst r" by auto
  show ?case
  proof (cases "x < v")
    case False
    with Node.prems(2) have "rub v l = Some y" by (auto split: if_splits)
    from Node.IH(1)[OF b(3) this] have ih: "y \<in> elems l" "y < v" "\<forall>z\<in>elems l. z < v \<longrightarrow> z \<le> y"
      by auto
    have "\<forall>z\<in>elems r. \<not> z < v" using b(2) False by (meson less_trans)
    with ih False show ?thesis by auto
  next
    case gt: True
    show ?thesis
    proof (cases "rub v r")
      case None
      with gt Node.prems(2) have y: "y = x" by (auto split: if_splits)
      from rub_None[OF b(4) None] have "\<forall>z\<in>elems r. \<not> z < v" by (simp add: not_less)
      with y gt b(1) show ?thesis by (auto intro: less_imp_le)
    next
      case (Some y')
      with gt Node.prems(2) have y: "rub v r = Some y" by (auto split: if_splits)
      from Node.IH(2)[OF b(4) this] have ih: "y \<in> elems r" "y < v" "\<forall>z\<in>elems r. z < v \<longrightarrow> z \<le> y"
        by auto
      from ih(1) b(2) have yx: "x < y" by simp
      then have "\<forall>z\<in>elems l. z \<le> y" using b(1) by (meson less_imp_le less_trans)
      with ih yx show ?thesis by (auto intro: less_imp_le)
    qed
  qed
qed

lemma first_None: "first t = None \<longleftrightarrow> t = Leaf"
  by (induction t) (auto split: option.splits)

lemma first_Some:
  "bst t \<Longrightarrow> first t = Some y \<Longrightarrow> y \<in> elems t \<and> (\<forall>z\<in>elems t. y \<le> z)"
proof (induction t)
  case Leaf
  then show ?case by simp
next
  case (Node l x r)
  then have b: "\<forall>z\<in>elems l. z < x" "\<forall>z\<in>elems r. x < z" "bst l" "bst r" by auto
  show ?case
  proof (cases "first l")
    case None
    with Node.prems(2) have y: "y = x" by (auto split: if_splits)
    from None have "l = Leaf" by (simp add: first_None)
    with y b(2) show ?thesis by (auto intro: less_imp_le)
  next
    case (Some y')
    with Node.prems(2) have y: "first l = Some y" by (auto split: if_splits)
    from Node.IH(1)[OF b(3) this] have ih: "y \<in> elems l" "\<forall>z\<in>elems l. y \<le> z" by auto
    from ih(1) b(1) have yx: "y < x" by simp
    then have "\<forall>z\<in>elems r. y \<le> z" using b(2) by (meson less_imp_le less_trans)
    with ih yx show ?thesis by (auto intro: less_imp_le)
  qed
qed

lemma rightmost_in: "rightmost l x r \<in> elems (Node l x r)"
  by (induction r arbitrary: l x) auto

lemma rightmost_max: "bst (Node l x r) \<Longrightarrow> \<forall>z\<in>elems (Node l x r). z \<le> rightmost l x r"
proof (induction r arbitrary: l x)
  case Leaf
  then show ?case by auto
next
  case (Node rl y rr)
  from Node.prems have "bst (Node rl y rr)" by simp
  from Node.IH(2)[OF this] have m: "\<forall>z\<in>elems (Node rl y rr). z \<le> rightmost rl y rr" .
  then have "y \<le> rightmost rl y rr" by simp
  moreover from Node.prems have "x < y" "\<forall>z\<in>elems l. z < x" by auto
  ultimately show ?case using m by fastforce
qed

lemma lb_mem: "bst t \<Longrightarrow> v \<in> elems t \<Longrightarrow> lb v t = Some v"
proof -
  assume a: "bst t" "v \<in> elems t"
  show ?thesis
  proof (cases "lb v t")
    case None
    from lb_None[OF a(1) this] a show ?thesis by auto
  next
    case (Some y)
    from lb_Some[OF a(1) this] a(2) show ?thesis using Some by fastforce
  qed
qed

lemma lb_not_mem: "bst t \<Longrightarrow> v \<notin> elems t \<Longrightarrow> lb v t \<noteq> Some v"
  using lb_Some by fastforce

lemma elems_ins: "elems (ins v t) = insert v (elems t)"
  by (induction t) auto

lemma bst_ins: "bst t \<Longrightarrow> v \<notin> elems t \<Longrightarrow> bst (ins v t)"
  by (induction t) (auto simp: elems_ins)

lemma tree_size_ins: "tree_size (ins v t) = Suc (tree_size t)"
  by (induction t) auto

lemma elems_drop_max:
  "elems (Node l x r) = insert (rightmost l x r) (elems (drop_max l x r))"
  by (induction r arbitrary: l x) auto

lemma bst_drop_max:
  "bst (Node l x r) \<Longrightarrow> bst (drop_max l x r) \<and> (\<forall>y\<in>elems (drop_max l x r). y < rightmost l x r)"
proof (induction r arbitrary: l x)
  case Leaf
  then show ?case by auto
next
  case (Node rl y rr)
  from Node.prems have b: "bst (Node rl y rr)" by simp
  from Node.IH(2)[OF b] have ih: "bst (drop_max rl y rr)" "\<forall>z\<in>elems (drop_max rl y rr). z < rightmost rl y rr"
    by auto
  have sub: "elems (drop_max rl y rr) \<subseteq> elems (Node rl y rr)"
    using elems_drop_max[of rl y rr] by auto
  from rightmost_in[of rl y rr] Node.prems have "x < rightmost rl y rr" by auto
  moreover from Node.prems have "\<forall>z\<in>elems l. z < x" by simp
  ultimately show ?case using ih sub Node.prems by fastforce
qed

lemma tree_size_drop_max: "Suc (tree_size (drop_max l x r)) = tree_size (Node l x r)"
  by (induction r arbitrary: l x) auto

lemma elems_del: "bst t \<Longrightarrow> elems (del v t) = elems t - {v}"
proof (induction t)
  case Leaf
  then show ?case by simp
next
  case (Node l x r)
  show ?case
  proof (cases "x = v")
    case True
    show ?thesis
    proof (cases l)
      case Leaf
      with True Node.prems show ?thesis by auto
    next
      case lN: (Node ll lx lr)
      show ?thesis
      proof (cases r)
        case Leaf
        with True lN Node.prems show ?thesis by auto
      next
        case rN: (Node rl rx rr)
        have "elems l = insert (rightmost ll lx lr) (elems (drop_max ll lx lr))"
          unfolding lN by (rule elems_drop_max)
        then show ?thesis using True lN rN Node.prems by auto
      qed
    qed
  next
    case False
    with Node show ?thesis by auto
  qed
qed

lemma bst_del: "bst t \<Longrightarrow> bst (del v t)"
proof (induction t)
  case Leaf
  then show ?case by simp
next
  case (Node l x r)
  show ?case
  proof (cases "x = v")
    case True
    show ?thesis
    proof (cases l)
      case Leaf
      with True Node.prems show ?thesis by auto
    next
      case lN: (Node ll lx lr)
      show ?thesis
      proof (cases r)
        case Leaf
        with True lN Node.prems show ?thesis by auto
      next
        case rN: (Node rl rx rr)
        from Node.prems lN have bl: "bst (Node ll lx lr)" by simp
        from bst_drop_max[OF bl] have d: "bst (drop_max ll lx lr)"
          "\<forall>y\<in>elems (drop_max ll lx lr). y < rightmost ll lx lr" by auto
        from rightmost_in[of ll lx lr] lN Node.prems have "rightmost ll lx lr < x" by auto
        with Node.prems have "\<forall>y\<in>elems r. rightmost ll lx lr < y" by fastforce
        with d True lN rN Node.prems show ?thesis by auto
      qed
    qed
  next
    case False
    with Node show ?thesis by (auto simp: elems_del)
  qed
qed

lemma tree_size_del: "bst t \<Longrightarrow> v \<in> elems t \<Longrightarrow> Suc (tree_size (del v t)) = tree_size t"
proof (induction t)
  case Leaf
  then show ?case by simp
next
  case (Node l x r)
  show ?case
  proof (cases "x = v")
    case True
    show ?thesis
    proof (cases l)
      case Leaf
      with True show ?thesis by auto
    next
      case lN: (Node ll lx lr)
      show ?thesis
      proof (cases r)
        case Leaf
        with True lN show ?thesis by auto
      next
        case rN: (Node rl rx rr)
        from tree_size_drop_max[of ll lx lr] True lN rN show ?thesis by auto
      qed
    qed
  next
    case False
    with Node show ?thesis by (cases "v < x") fastforce+
  qed
qed

lemma set_inorder: "set (inorder t) = elems t"
  by (induction t) auto

lemma sorted_inorder: "bst t \<Longrightarrow> sorted_wrt (<) (inorder t)"
  by (induction t) (fastforce simp: sorted_wrt_append set_inorder)+

lemma length_inorder: "length (inorder t) = tree_size t"
  by (induction t) auto

lemma inorder_sorted_list: "bst t \<Longrightarrow> inorder t = sorted_list_of_set (elems t)"
proof -
  assume "bst t"
  then have "sorted_wrt (<) (inorder t)" by (rule sorted_inorder)
  moreover have "sorted_wrt (<) (sorted_list_of_set (elems t))"
    by (rule sorted_list_of_set.strict_sorted_key_list_of_set)
  moreover have "finite (elems t)" by (induction t) auto
  then have "set (sorted_list_of_set (elems t)) = set (inorder t)"
    by (simp add: set_inorder)
  ultimately show ?thesis by (metis strict_sorted_equal)
qed

lemma psetD:
  "pset h s t \<Longrightarrow> \<exists>r. nodes h s = Some r \<and> value' r = None \<and> tree_at h (own h s) (left r) t
     \<and> s < brk h \<and> bst t \<and> m_size h s = Some (of_nat (tree_size t)) \<and> s \<notin> own h s"
  by (auto simp: pset_def own_def split: option.splits)

lemma deref_it_ok: "holds h (node_ptr it) x \<Longrightarrow> deref_it it h = Some (Ret x, h)"
  by (auto simp: deref_it_def bind_def holds_def get_node_ok deref_ok split: option.splits)

lemma lower_bound_ok:
  "pset h s t \<Longrightarrow> faults h = [] \<Longrightarrow>
   \<exists>it. lower_bound s v h = Some (Ret it, h) \<and> it_at h (own h s) s it (lb v t)"
proof -
  assume a: "pset h s t" "faults h = []"
  from psetD[OF a(1)] obtain r where r: "nodes h s = Some r" "tree_at h (own h s) (left r) t" "s \<notin> own h s"
    by blast
  from lower_bound_rec_ok[OF r(2,3) a(2), of v] r(1) show ?thesis
    by (simp add: lower_bound_def bind_def get_node_ok)
qed

lemma upper_bound_ok:
  "pset h s t \<Longrightarrow> faults h = [] \<Longrightarrow>
   \<exists>it. upper_bound s v h = Some (Ret it, h) \<and> it_at h (own h s) s it (ub v t)"
proof -
  assume a: "pset h s t" "faults h = []"
  from psetD[OF a(1)] obtain r where r: "nodes h s = Some r" "tree_at h (own h s) (left r) t" "s \<notin> own h s"
    by blast
  from upper_bound_rec_ok[OF r(2,3) a(2), of v] r(1) show ?thesis
    by (simp add: upper_bound_def bind_def get_node_ok)
qed

lemma find_set_ok:
  "pset h s t \<Longrightarrow> faults h = [] \<Longrightarrow>
   \<exists>it. find_set s v h = Some (Ret it, h) \<and>
     it_at h (own h s) s it (if v \<in> elems t then Some v else None)"
proof -
  assume a: "pset h s t" "faults h = []"
  from psetD[OF a(1)] have b: "bst t" "s \<notin> own h s" by auto
  from lower_bound_ok[OF a, of v] obtain it where
    it: "lower_bound s v h = Some (Ret it, h)" "it_at h (own h s) s it (lb v t)" by blast
  show ?thesis
  proof (cases "lb v t")
    case None
    with it have e: "it = end_it s" by simp
    from lb_None[OF b(1) None] have "v \<notin> elems t" by auto
    with it e show ?thesis by (simp add: find_set_def bind_def ret_def)
  next
    case (Some x)
    with it b have ne: "it \<noteq> end_it s" and hx: "holds h (node_ptr it) x"
      by (auto simp: it_at_def end_it_iff)
    show ?thesis
    proof (cases "x = v")
      case True
      with lb_Some[OF b(1) Some] have "v \<in> elems t" by simp
      with it ne hx True Some a(2) show ?thesis
        by (simp add: find_set_def bind_def ret_def deref_it_ok cmp_ok)
    next
      case False
      with lb_mem[OF b(1), of v] Some have "v \<notin> elems t" by auto
      with it ne hx False a(2) show ?thesis
        by (simp add: find_set_def bind_def ret_def deref_it_ok cmp_ok)
    qed
  qed
qed

lemma begin_it_ok:
  "pset h s t \<Longrightarrow> \<exists>it. begin_it s h = Some (Ret it, h) \<and> it_at h (own h s) s it (first t)"
proof -
  assume a: "pset h s t"
  from psetD[OF a(1)] obtain r where r: "nodes h s = Some r" "tree_at h (own h s) (left r) t" "s \<notin> own h s"
    by blast
  show ?thesis
  proof (cases t)
    case Leaf
    with r show ?thesis
      by (subst begin_it_def, subst bind_def, subst begin_loop.simps)
         (simp add: get_node_ok ret_def end_it_def)
  next
    case (Node l x r')
    with r obtain p where p: "left r = Some p" by (auto split: option.splits)
    from begin_loop_ok[of h "own h s" p t] r p obtain q y where
      "begin_loop p h = Some (Ret q, h)" "q \<in> own h s" "first t = Some y" "holds h q y" by auto
    with r p show ?thesis
      by (subst begin_it_def, subst bind_def, subst begin_loop.simps)
         (simp add: get_node_ok ret_def it_at_def)
  qed
qed

lemma pset_faults [simp]: "pset (h\<lparr>faults := fs\<rparr>) s t = pset h s t"
proof -
  have "tree_at (h\<lparr>faults := fs\<rparr>) A p t = tree_at h A p t" for A p
    by (induction t arbitrary: p) (auto simp: holds_def split: option.splits)
  then show ?thesis by (auto simp: pset_def split: option.splits)
qed

lemma get_size_ok: "m_size h s = Some n \<Longrightarrow> get_size s h = Some (Ret n, h)"
  by (simp add: get_size_def)

lemma set_size_ok:
  "m_size h s = Some n \<Longrightarrow> set_size s m h = Some (Ret (), h\<lparr>m_size := (m_size h)(s \<mapsto> m)\<rparr>)"
  by (simp add: set_size_def)

lemma try_catch_ret: "body h = Some (Ret x, h') \<Longrightarrow> try_catch body handler h = Some (Ret x, h')"
  by (simp add: try_catch_def)

lemma it_at_mono: "it_at h A s it r \<Longrightarrow> A \<subseteq> B \<Longrightarrow> it_at h B s it r"
  by (auto simp: it_at_def split: option.splits)

lemma pset_publish:
  assumes t: "tree_at h B p t'" and B: "B \<subseteq> {..<brk h} - {s}" and s: "s < brk h"
    and b: "bst t'" and r: "value' r = None"
  shows "pset (h\<lparr>nodes := (nodes h)(s \<mapsto> r\<lparr>left := p\<rparr>),
                 m_size := (m_size h)(s \<mapsto> of_nat (tree_size t'))\<rparr>) s t'"
proof -
  let ?h = "h\<lparr>nodes := (nodes h)(s \<mapsto> r\<lparr>left := p\<rparr>), m_size := (m_size h)(s \<mapsto> of_nat (tree_size t'))\<rparr>"
  have f: "frame {s} h ?h" by (auto simp: frame_def)
  from tree_at_frame[OF t f] B have "tree_at ?h B p t'" by auto
  then have "tree_at ?h ({..<brk ?h} - {s}) p t'" using B by (auto intro: tree_at_mono)
  with s b r show ?thesis by (simp add: pset_def)
qed

lemma insert_set_new:
  assumes p: "pset h s t" and nf: "faults h = []" and v: "v \<notin> elems t"
  shows "\<exists>h' it. insert_set s v h = Some (Ret (it, True), h') \<and> pset h' s (ins v t) \<and>
     it_at h' (own h' s) s it (Some v) \<and> frame {s} h h' \<and> faults h' = [] \<and>
     (\<exists>r'. nodes h' s = Some r' \<and> left r' = Some (brk h))"
proof -
  from psetD[OF p] obtain r where r: "nodes h s = Some r" "value' r = None"
    "tree_at h (own h s) (left r) t" "s < brk h" "bst t" "m_size h s = Some (of_nat (tree_size t))"
    "s \<notin> own h s" by blast
  from find_set_ok[OF p nf, of v] v have fe: "find_set s v h = Some (Ret (end_it s), h)" by simp
  have own: "own h s \<subseteq> {..<brk h}" by (auto simp: own_def)
  let ?c = "brk h"
  have "\<exists>h2 B. (if left r \<noteq> None
                 then bind (make_shared_copy (left r)) (\<lambda>c.
                      bind (insert_rec c v) (\<lambda>_. ret (r\<lparr>left := Some c\<rparr>)))
                 else bind (make_shared_value v) (\<lambda>c. ret (r\<lparr>left := Some c\<rparr>))) h
          = Some (Ret (r\<lparr>left := Some ?c\<rparr>), h2) \<and>
        tree_at h2 B (Some ?c) (ins v t) \<and> B \<subseteq> {..<brk h2} - {s} \<and> frame {} h h2 \<and> faults h2 = []"
  proof (cases t)
    case Leaf
    with r have l: "left r = None" by simp
    let ?h2 = "h\<lparr>nodes := (nodes h)(?c \<mapsto> \<lparr>value' = Some (Suc ?c), left = None, right = None\<rparr>),
         vals := (vals h)(Suc ?c \<mapsto> v), brk := Suc (Suc ?c)\<rparr>"
    have "holds ?h2 ?c v" by (auto simp: holds_def)
    then have "tree_at ?h2 {?c} (Some ?c) (ins v t)" using Leaf by simp
    moreover have "frame {} h ?h2" by (auto simp: frame_def)
    ultimately show ?thesis using l nf r(4)
      by (intro exI[of _ ?h2] exI[of _ "{?c}"])
         (simp add: bind_def make_shared_value_ok ret_def)
  next
    case (Node l x r')
    with r obtain lp ln where lp: "left r = Some lp" "nodes h lp = Some ln"
      by (auto split: option.splits)
    let ?h1 = "h\<lparr>nodes := (nodes h)(?c \<mapsto> ln), brk := Suc ?c\<rparr>"
    from r(3) lp Node have fr: "fresh_at ?h1 (own h s) ?c l x r'" using own by (auto intro!: copy_fresh)
    have nf1: "faults ?h1 = []" using nf by simp
    from insert_rec_ok[OF fr nf1, of v] obtain h2 where
      h2: "insert_rec ?c v ?h1 = Some (Ret (), h2)"
        "tree_at h2 (insert ?c (own h s \<union> {brk ?h1..<brk h2})) (Some ?c) (ins v t)"
        "frame {?c} ?h1 h2" "faults h2 = []" unfolding Node by blast
    have f01: "frame {} h ?h1" by (auto simp: frame_def)
    have f: "frame {} h h2" by (rule frame_trans[OF f01 h2(3)]) auto
    from h2(3) have "brk ?h1 \<le> brk h2" by (simp add: frame_def)
    then have "insert ?c (own h s \<union> {brk ?h1..<brk h2}) \<subseteq> {..<brk h2} - {s}"
      using r(4) by (auto simp: own_def)
    with h2 f lp nf show ?thesis
      by (intro exI[of _ h2] exI[of _ "insert ?c (own h s \<union> {brk ?h1..<brk h2})"])
         (simp add: bind_def make_shared_copy_ok ret_def)
  qed
  then obtain h2 B where h2: "(if left r \<noteq> None
                 then bind (make_shared_copy (left r)) (\<lambda>c.
                      bind (insert_rec c v) (\<lambda>_. ret (r\<lparr>left := Some c\<rparr>)))
                 else bind (make_shared_value v) (\<lambda>c. ret (r\<lparr>left := Some c\<rparr>))) h
          = Some (Ret (r\<lparr>left := Some ?c\<rparr>), h2)"
     "tree_at h2 B (Some ?c) (ins v t)" "B \<subseteq> {..<brk h2} - {s}" "frame {} h h2" "faults h2 = []"
    by blast
  from h2(4) r have s2: "nodes h2 s = Some r" "m_size h2 s = Some (of_nat (tree_size t))" "s < brk h2"
    by (auto simp: frame_def)
  let ?h3 = "h2\<lparr>nodes := (nodes h2)(s \<mapsto> r\<lparr>left := Some ?c\<rparr>),
                m_size := (m_size h2)(s \<mapsto> of_nat (tree_size (ins v t)))\<rparr>"
  have ps: "pset ?h3 s (ins v t)"
    using h2(2,3) s2(3) r(2,5) v by (intro pset_publish) (auto intro: bst_ins)
  have nf3: "faults ?h3 = []" using h2(5) by simp
  from find_set_ok[OF ps nf3, of v] obtain it where
    it: "find_set s v ?h3 = Some (Ret it, ?h3)" "it_at ?h3 (own ?h3 s) s it (Some v)"
    by (auto simp: elems_ins)
  have f23: "frame {s} h2 ?h3" by (auto simp: frame_def)
  have f: "frame {s} h ?h3" using h2(4) f23 by (auto simp: frame_def)
  have body: "insert_try s v h = Some (Ret (it, True), ?h3)"
    unfolding insert_try_def
    apply (subst bind_def)
    apply (subst get_node_ok[OF r(1)])
    apply (subst and_then_simps(2))
    apply (subst bind_def)
    apply (subst h2(1))
    apply (subst and_then_simps(2))
    using s2 it(1)
    apply (simp add: bind_def set_node_ok get_size_ok set_size_ok tree_size_ins ret_def add.commute)
    done
  have "insert_set s v h = Some (Ret (it, True), ?h3)"
    unfolding insert_set_def
    apply (subst bind_def)
    apply (subst fe)
    apply (subst and_then_simps(2))
    apply (simp only: if_False simp_thms)
    apply (subst bind_def)
    apply (subst get_node_ok[OF r(1)])
    apply (subst and_then_simps(2))
    apply (subst bind_def)
    apply (subst get_size_ok[OF r(6)])
    apply (subst and_then_simps(2))
    apply (rule try_catch_ret)
    apply (rule body)
    done
  moreover have "\<exists>r'. nodes ?h3 s = Some r' \<and> left r' = Some (brk h)" by simp
  ultimately show ?thesis using ps it(2) f nf3 by blast
qed

lemma insert_set_old:
  assumes p: "pset h s t" and nf: "faults h = []" and v: "v \<in> elems t"
  shows "\<exists>it. insert_set s v h = Some (Ret (it, False), h) \<and> it_at h (own h s) s it (Some v)"
proof -
  from psetD[OF p] have s: "s \<notin> own h s" by blast
  from find_set_ok[OF p nf, of v] v obtain it where
    it: "find_set s v h = Some (Ret it, h)" "it_at h (own h s) s it (Some v)" by auto
  with s have "it \<noteq> end_it s" by (auto simp: it_at_def end_it_iff)
  with it show ?thesis
    by (simp add: insert_set_def bind_def ret_def)
qed

lemma alloc_node_ok:
  "alloc_node n h = Some (Ret (brk h), h\<lparr>nodes := (nodes h)(brk h \<mapsto> n), brk := Suc (brk h)\<rparr>)"
  by (simp add: alloc_node_def)

lemma erase_ok:
  assumes p: "pset h s t" and nf: "faults h = []"
    and hx: "holds h (node_ptr it) x" and x: "x \<in> elems t"
  shows "\<exists>h' it'. erase s it h = Some (Ret it', h') \<and> pset h' s (del x t) \<and>
     it_at h' (own h' s) s it' (lb x (del x t)) \<and> frame {s} h h' \<and> faults h' = [] \<and>
     lower_bound s x h' = Some (Ret it', h')"
proof -
  from psetD[OF p] obtain r where r: "nodes h s = Some r" "value' r = None"
    "tree_at h (own h s) (left r) t" "s < brk h" "bst t" "m_size h s = Some (of_nat (tree_size t))"
    "s \<notin> own h s" by blast
  from holdsD[OF hx] obtain itn va where itn: "nodes h (node_ptr it) = Some itn" "value' itn = Some va"
    "va < brk h" "vals h va = Some x" by blast
  have own: "own h s \<subseteq> {..<brk h}" by (auto simp: own_def)
  from x obtain l y r' where N: "t = Node l y r'" by (cases t) auto
  with r obtain lp ln where lp: "left r = Some lp" "nodes h lp = Some ln" "lp \<noteq> brk h"
    by (auto simp: own_def split: option.splits)
  let ?tmp = "brk h"
  let ?c = "Suc (brk h)"
  let ?h1 = "h\<lparr>nodes := (nodes h)(?tmp \<mapsto> r), brk := Suc ?tmp\<rparr>"
  let ?h2 = "?h1\<lparr>nodes := (nodes ?h1)(?c \<mapsto> ln), brk := Suc ?c\<rparr>"
  let ?h3 = "?h2\<lparr>nodes := (nodes ?h2)(?tmp \<mapsto> r\<lparr>left := Some ?c\<rparr>)\<rparr>"
  have f01: "frame {} h ?h1" by (auto simp: frame_def)
  from tree_at_frame[OF r(3) f01 own] have t1: "tree_at ?h1 (own h s) (Some lp) t" using lp by simp
  have "fresh_at (?h1\<lparr>nodes := (nodes ?h1)(brk ?h1 \<mapsto> ln), brk := Suc (brk ?h1)\<rparr>) (own h s) (brk ?h1) l y r'"
    using t1 own lp(2) r(4) unfolding N by (intro copy_fresh) (auto simp: own_def)
  then have fr2: "fresh_at ?h2 (own h s) ?c l y r'" by simp
  have f23: "frame {?tmp} ?h2 ?h3" by (auto simp: frame_def)
  from fresh_at_frame[OF fr2 f23] have fr3: "fresh_at ?h3 (own h s) ?c l y r'"
    by (auto simp: own_def)
  have pre: "nodes ?h3 ?tmp = Some (r\<lparr>left := Some ?c\<rparr>)" "?tmp \<notin> own h s" "?tmp \<noteq> ?c" "?tmp < brk ?h3"
    "left (r\<lparr>left := Some ?c\<rparr>) = Some ?c \<or> (right (r\<lparr>left := Some ?c\<rparr>) = Some ?c \<and> left (r\<lparr>left := Some ?c\<rparr>) \<noteq> Some ?c)"
    "bst (Node l y r')" "x \<in> elems (Node l y r')" "faults ?h3 = []"
    using r(5) x nf N by (auto simp: own_def)
  from erase_loop_ok[OF fr3 pre] obtain h4 p' where
    h4: "erase_loop x ?tmp ?c ?h3 = Some (Ret (), h4)"
      "tree_at h4 (insert ?c (own h s \<union> {brk ?h3..<brk h4})) p' (del x t)"
      "nodes h4 ?tmp = Some (relink (r\<lparr>left := Some ?c\<rparr>) ?c p')"
      "frame {?tmp, ?c} ?h3 h4" "faults h4 = []" unfolding N by blast
  have ep: "erase_path x ?tmp ?h1 = Some (Ret (), h4)"
    using lp nf h4(1)
    by (simp add: erase_path_def bind_def get_node_ok make_shared_copy_ok set_left_ok)
  have t4: "nodes h4 ?tmp = Some (r\<lparr>left := p'\<rparr>)" using h4(3) by (simp add: relink_def)
  have f03: "frame {} h ?h3" by (auto simp: frame_def)
  have f04: "frame {} h h4" by (rule frame_trans[OF f03 h4(4)]) auto
  from f04 r itn have s4: "nodes h4 s = Some r" "m_size h4 s = Some (of_nat (tree_size t))"
    "s < brk h4" "vals h4 va = Some x" "brk h \<le> brk h4"
    by (auto simp: frame_def)
  from h4(4) have b34: "brk ?h3 \<le> brk h4" by (simp add: frame_def)
  have sz: "(of_nat (tree_size t) - 1 :: 64 word) = of_nat (tree_size (del x t))"
    using tree_size_del[OF r(5) x] by (metis add_diff_cancel_left' of_nat_Suc)
  let ?h6 = "h4\<lparr>nodes := (nodes h4)(s \<mapsto> r\<lparr>left := p'\<rparr>),
                m_size := (m_size h4)(s \<mapsto> of_nat (tree_size (del x t)))\<rparr>"
  have B: "insert ?c (own h s \<union> {brk ?h3..<brk h4}) \<subseteq> {..<brk h4} - {s}"
    using r(4) b34 by (auto simp: own_def)
  have ps: "pset ?h6 s (del x t)"
    using h4(2) B s4(3) r(2,5) by (intro pset_publish) (auto intro: bst_del)
  have nf6: "faults ?h6 = []" using h4(5) by simp
  from lower_bound_ok[OF ps nf6, of x] obtain it' where
    it': "lower_bound s x ?h6 = Some (Ret it', ?h6)" "it_at ?h6 (own ?h6 s) s it' (lb x (del x t))"
    by blast
  have f: "frame {s} h ?h6" using f04 by (auto simp: frame_def)
  have body: "erase_try s it h = Some (Ret it', ?h6)"
    unfolding erase_try_def
    apply (subst bind_def)
    apply (subst get_node_ok[OF itn(1)])
    apply (subst and_then_simps(2))
    apply (subst bind_def)
    apply (subst get_node_ok[OF r(1)])
    apply (subst and_then_simps(2))
    apply (subst bind_def)
    apply (subst alloc_node_ok)
    apply (subst and_then_simps(2))
    apply (subst bind_def)
    apply (simp only: itn(2))
    apply (subst deref_ok[of _ va x])
     apply (simp add: itn)
    apply (subst and_then_simps(2))
    apply (subst bind_def)
    apply (subst ep)
    apply (subst and_then_simps(2))
    using t4 s4 it'(1)
    apply (simp add: bind_def get_node_ok set_node_ok get_size_ok set_size_ok deref_ok sz)
    done
  have "erase s it h = Some (Ret it', ?h6)"
    unfolding erase_def
    apply (subst bind_def)
    apply (subst get_node_ok[OF r(1)])
    apply (subst and_then_simps(2))
    apply (subst bind_def)
    apply (subst get_size_ok[OF r(6)])
    apply (subst and_then_simps(2))
    apply (rule try_catch_ret)
    apply (rule body)
    done
  with ps it' f nf6 show ?thesis by blast
qed

subsection \<open>Iteration\<close>

lemma filter_ge_split:
  "sorted_wrt (<) xs \<Longrightarrow> x \<in> set xs \<Longrightarrow>
   filter (\<lambda>z. x \<le> z) xs = (x::'a::linorder) # filter (\<lambda>z. x < z) xs"
proof (induction xs)
  case Nil
  then show ?case by simp
next
  case (Cons a as)
  show ?case
  proof (cases "a = x")
    case True
    with Cons.prems have "\<forall>z\<in>set as. x < z" by auto
    then have "filter (\<lambda>z. x \<le> z) as = as" "filter (\<lambda>z. x < z) as = as"
      by (auto simp: filter_id_conv intro: less_imp_le)
    with True show ?thesis by simp
  next
    case False
    with Cons.prems have "x \<in> set as" "a < x" "sorted_wrt (<) as" by auto
    with Cons.IH show ?thesis by (auto simp: not_le)
  qed
qed

lemma finite_elems [simp]: "finite (elems t)"
  by (induction t) auto

lemma incr_ok:
  "holds h (node_ptr it) x \<Longrightarrow> incr it h = upper_bound (set_ptr it) x h"
  by (auto simp: incr_def bind_def holds_def get_node_ok deref_ok split: option.splits)

lemma iterate_end: "iterate s (end_it s) h = Some (Ret [], h)"
  by (subst iterate.simps) (simp add: ret_def)

lemma iterate_ok:
  "pset h s t \<Longrightarrow> faults h = [] \<Longrightarrow> it_at h (own h s) s it (Some x) \<Longrightarrow> x \<in> elems t \<Longrightarrow>
   iterate s it h = Some (Ret (filter (\<lambda>y. x \<le> y) (inorder t)), h)"
proof (induction "card {y \<in> elems t. x < y}" arbitrary: it x rule: less_induct)
  case less
  note p = \<open>pset h s t\<close> and nf = \<open>faults h = []\<close>
  from psetD[OF p] have b: "bst t" "s \<notin> own h s" by auto
  from less.prems(3) b have it: "it \<noteq> end_it s" "holds h (node_ptr it) x" "set_ptr it = s"
    by (auto simp: it_at_def end_it_iff)
  from upper_bound_ok[OF p nf, of x] obtain it' where
    it': "upper_bound s x h = Some (Ret it', h)" "it_at h (own h s) s it' (ub x t)" by blast
  have srt: "sorted_wrt (<) (inorder t)" using b by (simp add: sorted_inorder)
  have split: "filter (\<lambda>y. x \<le> y) (inorder t) = x # filter (\<lambda>y. x < y) (inorder t)"
    using srt less.prems(4) by (intro filter_ge_split) (simp_all add: set_inorder)
  show ?case
  proof (cases "ub x t")
    case None
    with it' have e: "it' = end_it s" by simp
    from ub_None[OF b(1) None] have "filter (\<lambda>y. x < y) (inorder t) = []"
      by (auto simp: filter_empty_conv set_inorder not_less)
    with split it it' e show ?thesis
      by (subst iterate.simps) (simp add: deref_it_ok incr_ok ret_def iterate_end)
  next
    case (Some y)
    from ub_Some[OF b(1) Some] have y: "y \<in> elems t" "x < y" "\<forall>z\<in>elems t. x < z \<longrightarrow> y \<le> z"
      by auto
    have "{z \<in> elems t. y < z} \<subset> {z \<in> elems t. x < z}" using y by auto
    then have "card {z \<in> elems t. y < z} < card {z \<in> elems t. x < z}"
      by (intro psubset_card_mono) simp_all
    from less.hyps[OF this p nf _ y(1), of it'] it'(2) Some have
      ih: "iterate s it' h = Some (Ret (filter (\<lambda>z. y \<le> z) (inorder t)), h)" by simp
    have "filter (\<lambda>z. x < z) (inorder t) = filter (\<lambda>z. y \<le> z) (inorder t)"
      using y by (intro filter_cong) (auto simp: set_inorder)
    with split it it' ih show ?thesis
      by (subst iterate.simps) (simp add: deref_it_ok incr_ok ret_def)
  qed
qed

lemma to_list_ok:
  "pset h s t \<Longrightarrow> faults h = [] \<Longrightarrow> to_list s h = Some (Ret (inorder t), h)"
proof -
  assume p: "pset h s t" and nf: "faults h = []"
  from psetD[OF p] have b: "bst t" by auto
  from begin_it_ok[OF p] obtain it where
    it: "begin_it s h = Some (Ret it, h)" "it_at h (own h s) s it (first t)" by blast
  show ?thesis
  proof (cases "first t")
    case None
    then have "t = Leaf" by (simp add: first_None)
    with it None show ?thesis
      by (simp add: to_list_def bind_def iterate_end)
  next
    case (Some m)
    from first_Some[OF b Some] have m: "m \<in> elems t" "\<forall>z\<in>elems t. m \<le> z" by auto
    from iterate_ok[OF p nf _ m(1), of it] it(2) Some have
      "iterate s it h = Some (Ret (filter (\<lambda>y. m \<le> y) (inorder t)), h)" by simp
    moreover have "filter (\<lambda>y. m \<le> y) (inorder t) = inorder t"
      using m by (simp add: filter_id_conv set_inorder)
    ultimately show ?thesis using it by (simp add: to_list_def bind_def)
  qed
qed

lemma iteration_ok: "pset h s t \<Longrightarrow> iteration h s = Some (inorder t)"
proof -
  assume p: "pset h s t"
  then have "pset (h\<lparr>faults := []\<rparr>) s t" by simp
  from to_list_ok[OF this] show ?thesis by (simp add: iteration_def)
qed

subsection \<open>What a call leaves unchanged\<close>

lemma pres_refl [simp]: "pres P h h"
  by (simp add: pres_def)

lemma pres_trans: "pres P h h1 \<Longrightarrow> pres P h1 h2 \<Longrightarrow> pres P h h2"
  by (auto simp: pres_def)

lemma safeI:
  "(\<And>h r h'. P \<subseteq> {..<brk h} \<Longrightarrow> m h = Some (r, h') \<Longrightarrow> pres P h h' \<and> (\<forall>x. r = Ret x \<longrightarrow> Q x))
   \<Longrightarrow> safe P m Q"
  by (auto simp: safe_def)

lemma safeD:
  "safe P m Q \<Longrightarrow> P \<subseteq> {..<brk h} \<Longrightarrow> m h = Some (r, h') \<Longrightarrow> pres P h h' \<and> (\<forall>x. r = Ret x \<longrightarrow> Q x)"
  by (auto simp: safe_def)

lemma safe_weaken: "safe P m Q \<Longrightarrow> (\<And>x. Q x \<Longrightarrow> R x) \<Longrightarrow> safe P m R"
  by (auto simp: safe_def)

lemma safe_and_then:
  assumes m: "safe P m Q" and k: "\<And>x. Q x \<Longrightarrow> safe P (k x) R"
  shows "safe P (\<lambda>h. and_then (m h) k) R"
proof (rule safeI)
  fix h r h'
  assume P: "P \<subseteq> {..<brk h}" and run: "and_then (m h) k = Some (r, h')"
  from run obtain r1 h1 where m1: "m h = Some (r1, h1)"
    by (cases "m h") (auto simp: and_then_def)
  from safeD[OF m P m1] have p1: "pres P h h1" and q: "\<forall>x. r1 = Ret x \<longrightarrow> Q x" by auto
  show "pres P h h' \<and> (\<forall>x. r = Ret x \<longrightarrow> R x)"
  proof (cases r1)
    case (Ret x)
    with run m1 have kx: "k x h1 = Some (r, h')" by simp
    from p1 P have P1: "P \<subseteq> {..<brk h1}" by (auto simp: pres_def)
    from q Ret have "Q x" by simp
    from safeD[OF k[OF this] P1 kx] p1 show ?thesis by (auto intro: pres_trans)
  next
    case Throw
    with run m1 p1 show ?thesis by auto
  next
    case UB
    with run m1 p1 show ?thesis by auto
  qed
qed

lemma safe_bind:
  "safe P m Q \<Longrightarrow> (\<And>x. Q x \<Longrightarrow> safe P (k x) R) \<Longrightarrow> safe P (bind m k) R"
  using safe_and_then[of P m Q k R] by (simp add: bind_def[abs_def])

lemma safe_if:
  "(c \<Longrightarrow> safe P (\<lambda>h. A h) Q) \<Longrightarrow> (\<not> c \<Longrightarrow> safe P (\<lambda>h. B h) Q) \<Longrightarrow>
   safe P (\<lambda>h. if c then A h else B h) Q"
  by (auto simp: safe_def)

lemma safe_if':
  "(c \<Longrightarrow> safe P A Q) \<Longrightarrow> (\<not> c \<Longrightarrow> safe P B Q) \<Longrightarrow> safe P (if c then A else B) Q"
  by (auto simp: safe_def)

lemma safe_try_catch:
  assumes b: "safe P body Q" and c: "safe P handler Q"
  shows "safe P (try_catch body handler) Q"
proof (rule safeI)
  fix h r h'
  assume P: "P \<subseteq> {..<brk h}" and run: "try_catch body handler h = Some (r, h')"
  from run obtain r1 h1 where m1: "body h = Some (r1, h1)"
    by (cases "body h") (auto simp: try_catch_def)
  from safeD[OF b P m1] have p1: "pres P h h1" and q: "\<forall>x. r1 = Ret x \<longrightarrow> Q x" by auto
  from p1 P have P1: "P \<subseteq> {..<brk h1}" by (auto simp: pres_def)
  show "pres P h h' \<and> (\<forall>x. r = Ret x \<longrightarrow> Q x)"
  proof (cases r1)
    case (Ret x)
    with run m1 p1 q show ?thesis by (auto simp: try_catch_def)
  next
    case Throw
    with run m1 have "handler h1 = Some (r, h')" by (simp add: try_catch_def)
    from safeD[OF c P1 this] p1 show ?thesis by (auto intro: pres_trans)
  next
    case UB
    with run m1 p1 show ?thesis by (auto simp: try_catch_def)
  qed
qed

lemma safe_ret: "Q x \<Longrightarrow> safe P (ret x) Q"
  by (auto simp: safe_def ret_def)

lemma safe_throw: "safe P throw Q"
  by (auto simp: safe_def throw_def)

lemma safe_undef: "safe P undef Q"
  by (auto simp: safe_def undef_def)

lemma safe_may_throw: "safe P may_throw (\<lambda>_. True)"
  by (auto simp: safe_def may_throw_def pres_def split: list.splits if_splits)

lemma safe_get_node: "safe P (get_node p) (\<lambda>_. True)"
  by (auto simp: safe_def get_node_def split: option.splits)

lemma safe_get_size: "safe P (get_size p) (\<lambda>_. True)"
  by (auto simp: safe_def get_size_def split: option.splits)

lemma safe_deref: "safe P (deref p) (\<lambda>_. True)"
  by (auto simp: safe_def deref_def split: option.splits)

lemma safe_set_node: "p \<notin> P \<Longrightarrow> safe P (set_node p n) (\<lambda>_. True)"
  by (auto simp: safe_def set_node_def pres_def split: option.splits)

lemma safe_set_left: "p \<notin> P \<Longrightarrow> safe P (set_left p n) (\<lambda>_. True)"
  by (auto simp: safe_def set_left_def pres_def split: option.splits)

lemma safe_set_right: "p \<notin> P \<Longrightarrow> safe P (set_right p n) (\<lambda>_. True)"
  by (auto simp: safe_def set_right_def pres_def split: option.splits)

lemma safe_set_value: "p \<notin> P \<Longrightarrow> safe P (set_value p n) (\<lambda>_. True)"
  by (auto simp: safe_def set_value_def pres_def split: option.splits)

lemma safe_set_size: "p \<notin> P \<Longrightarrow> safe P (set_size p n) (\<lambda>_. True)"
  by (auto simp: safe_def set_size_def pres_def split: option.splits)

lemma safe_alloc_node: "safe P (alloc_node n) (\<lambda>c. c \<notin> P)"
  by (auto simp: safe_def alloc_node_def pres_def)

lemma safe_alloc_val: "safe P (alloc_val n) (\<lambda>c. True)"
  by (auto simp: safe_def alloc_val_def pres_def)

lemma safe_cmp:
  "safe P (equal_T x y) (\<lambda>_. True)" "safe P (not_equal_T x y) (\<lambda>_. True)"
  "safe P (less_T v w) (\<lambda>_. True)" "safe P (greater_T v w) (\<lambda>_. True)"
  unfolding equal_T_def not_equal_T_def less_T_def greater_T_def
  by (rule safe_bind[OF safe_may_throw safe_ret], simp)+

lemma safe_make_shared_copy: "safe P (make_shared_copy sp) (\<lambda>c. c \<notin> P)"
  unfolding make_shared_copy_def
  by (cases sp) (auto intro!: safe_undef safe_bind safe_get_node safe_may_throw safe_alloc_node)

lemma safe_make_shared_value: "safe P (make_shared_value v) (\<lambda>c. c \<notin> P)"
  unfolding make_shared_value_def
  by (rule safe_bind safe_may_throw safe_alloc_node safe_alloc_val safe_set_value safe_ret | assumption)+

lemma safe_insert_rec: "nx \<notin> P \<Longrightarrow> safe P (insert_rec nx v) (\<lambda>_. True)"
proof -
  have "nx \<notin> P \<longrightarrow> P \<subseteq> {..<brk h} \<longrightarrow> pres P h (snd y)"
    if run: "insert_rec nx v h = Some y" for nx h y
  proof (rule insert_rec.raw_induct[of "\<lambda>nx v h y. nx \<notin> P \<longrightarrow> P \<subseteq> {..<brk h} \<longrightarrow> pres P h (snd y)" nx v h y, OF _ run])
    fix f nx and v :: 'a and h :: "'a heap" and y :: "unit res \<times> 'a heap"
    assume ih: "\<And>nx v h y. f nx v h = Some y \<Longrightarrow> nx \<notin> P \<longrightarrow> P \<subseteq> {..<brk h} \<longrightarrow> pres P h (snd y)"
      and b: "and_then (get_node nx h) (\<lambda>n h.
     and_then (deref (value' n) h) (\<lambda>x h.
     and_then (less_T v x h) (\<lambda>l h.
       if l then
         (if left n \<noteq> None then
            and_then (make_shared_copy (left n) h) (\<lambda>c h.
            and_then (set_left nx (Some c) h) (\<lambda>_ h. f c v h))
          else
            and_then (make_shared_value v h) (\<lambda>c h. set_left nx (Some c) h))
       else
         (if right n \<noteq> None then
            and_then (make_shared_copy (right n) h) (\<lambda>c h.
            and_then (set_right nx (Some c) h) (\<lambda>_ h. f c v h))
          else
            and_then (make_shared_value v h) (\<lambda>c h. set_right nx (Some c) h))))) = Some y"
    show "nx \<notin> P \<longrightarrow> P \<subseteq> {..<brk h} \<longrightarrow> pres P h (snd y)"
    proof (intro impI)
      assume nx: "nx \<notin> P" and P: "P \<subseteq> {..<brk h}"
      have ih': "safe P (f c v) (\<lambda>_. True)" if "c \<notin> P" for c
        using ih that by (fastforce simp: safe_def)
      have "safe P (\<lambda>h. and_then (get_node nx h) (\<lambda>n h.
     and_then (deref (value' n) h) (\<lambda>x h.
     and_then (less_T v x h) (\<lambda>l h.
       if l then
         (if left n \<noteq> None then
            and_then (make_shared_copy (left n) h) (\<lambda>c h.
            and_then (set_left nx (Some c) h) (\<lambda>_ h. f c v h))
          else
            and_then (make_shared_value v h) (\<lambda>c h. set_left nx (Some c) h))
       else
         (if right n \<noteq> None then
            and_then (make_shared_copy (right n) h) (\<lambda>c h.
            and_then (set_right nx (Some c) h) (\<lambda>_ h. f c v h))
          else
            and_then (make_shared_value v h) (\<lambda>c h. set_right nx (Some c) h)))))) (\<lambda>_. True)"
        by (insert nx) (rule safe_and_then safe_if safe_get_node safe_deref safe_cmp safe_make_shared_copy
              safe_make_shared_value safe_set_left safe_set_right ih' | assumption)+
      from safeD[OF this P, of "fst y" "snd y"] b show "pres P h (snd y)" by simp
    qed
  qed
  then show "nx \<notin> P \<Longrightarrow> safe P (insert_rec nx v) (\<lambda>_. True)"
    by (fastforce simp: safe_def)
qed

lemmas exec_defs = bind_def ret_def throw_def undef_def try_catch_def may_throw_def get_node_def
  set_node_def set_left_def set_right_def set_value_def deref_def get_size_def set_size_def
  alloc_node_def alloc_val_def equal_T_def not_equal_T_def less_T_def greater_T_def
  make_shared_copy_def make_shared_value_def new_set_def copy_set_def size_set_def node_equal_def
  set_equal_def end_it_def begin_it_def lower_bound_def upper_bound_def deref_it_def find_set_def
  incr_def decr_def rev_upper_bound_def restore_def insert_try_def insert_set_def erase_impl_def
  swap_value_def erase_path_def erase_try_def erase_def to_list_def
  lower_bound_rec.simps upper_bound_rec.simps rev_upper_bound_rec.simps begin_loop.simps
  rightmost_loop.simps insert_rec.simps erase_max.simps erase_loop.simps iterate.simps

subsection \<open>Running the model\<close>

lemma ex_heap_built:
  "bind new_set (\<lambda>s. bind (insert_set s 5) (\<lambda>_. bind (insert_set s 8) (\<lambda>_. ret s))) empty_heap
     = Some (Ret 0,
         ex_heap\<lparr>nodes := (nodes ex_heap)(1 \<mapsto> \<lparr>value' = Some 2, left = None, right = None\<rparr>)\<rparr>)"
  by (simp add: exec_defs empty_heap_def ex_heap_def) (auto simp: fun_eq_iff)

lemma pset_ex: "pset ex_heap 0 ex_tree"
  by (simp add: pset_def ex_heap_def ex_tree_def holds_def)

lemma scenario_run:
  "map_option fst (scenario empty_heap) =
     Some (Ret ([1, 3, 4, 5, 8], [1, 4, 5, 8], 4, 4, 5, [1, 4, 5], [1, 4, 5, 8]))"
  by (simp add: scenario_def exec_defs empty_heap_def)

lemma it_at_points: "it_at h (own h s) s it (Some y) \<Longrightarrow> points_to h s it y"
  by (auto simp: it_at_def points_to_def own_def end_it_iff deref_it_ok)

lemma tree_at_unique: "tree_at h A p t1 \<Longrightarrow> tree_at h B p t2 \<Longrightarrow> t1 = t2"
proof (induction t1 arbitrary: p t2)
  case Leaf
  then show ?case by simp
next
  case (Node l x r)
  from tree_at_NodeD[OF Node.prems(1)] obtain a n va where
    p: "p = Some a" "nodes h a = Some n" "value' n = Some va" "vals h va = Some x"
    and l: "tree_at h A (left n) l" and r: "tree_at h A (right n) r" by blast
  from Node.prems(2) p obtain l2 x2 r2 where t2: "t2 = Node l2 x2 r2" by (cases t2) auto
  from tree_at_NodeD[OF Node.prems(2)[unfolded t2]] p have
    "x2 = x" "tree_at h B (left n) l2" "tree_at h B (right n) r2" by auto
  with Node.IH(1)[OF l] Node.IH(2)[OF r] t2 show ?case by simp
qed

lemma find_set_lower_bound:
  assumes lo: "lower_bound s v h = Some (Ret lo, h)" and nf: "faults h = []"
    and d: "lo \<noteq> end_it s \<Longrightarrow> deref_it lo h = Some (Ret y, h)"
  shows "find_set s v h = Some (Ret (if lo \<noteq> end_it s \<and> y = v then lo else end_it s), h)"
  using lo nf d by (simp add: find_set_def bind_def ret_def cmp_ok)

lemma new_set_ok:
  "new_set h = Some (Ret (brk h),
     h\<lparr>nodes := (nodes h)(brk h \<mapsto> \<lparr>value' = None, left = None, right = None\<rparr>),
       m_size := (m_size h)(brk h \<mapsto> 0), brk := Suc (brk h)\<rparr>) \<and>
   pset (h\<lparr>nodes := (nodes h)(brk h \<mapsto> \<lparr>value' = None, left = None, right = None\<rparr>),
       m_size := (m_size h)(brk h \<mapsto> 0), brk := Suc (brk h)\<rparr>) (brk h) Leaf"
  by (simp add: new_set_def pset_def)

lemma insert_set_ok:
  assumes p: "pset h s t" and nf: "faults h = []"
  shows "\<exists>it h'. insert_set s v h = Some (Ret (it, v \<notin> elems t), h') \<and> pset h' s (if v \<in> elems t then t else ins v t) \<and>
     points_to h' s it v \<and> faults h' = []"
proof (cases "v \<in> elems t")
  case True
  from insert_set_old[OF p nf True] nf p True show ?thesis by (auto intro: it_at_points)
next
  case False
  from insert_set_new[OF p nf False] False show ?thesis by (auto intro: it_at_points)
qed

lemma insert_all_ok:
  "pset h s t \<Longrightarrow> faults h = [] \<Longrightarrow>
   \<exists>h' t'. insert_all s vs h = Some (Ret (), h') \<and> pset h' s t' \<and> elems t' = elems t \<union> set vs \<and>
     faults h' = []"
proof (induction vs arbitrary: h t)
  case Nil
  then show ?case by (auto simp: ret_def)
next
  case (Cons v vs)
  from insert_set_ok[OF Cons.prems, of v] obtain it h1 where
    1: "insert_set s v h = Some (Ret (it, v \<notin> elems t), h1)"
      "pset h1 s (if v \<in> elems t then t else ins v t)" "faults h1 = []" by blast
  from Cons.IH[OF 1(2,3)] obtain h' t' where
    2: "insert_all s vs h1 = Some (Ret (), h')" "pset h' s t'"
      "elems t' = elems (if v \<in> elems t then t else ins v t) \<union> set vs" "faults h' = []" by blast
  from 2(3) have "elems t' = elems t \<union> set (v # vs)" by (auto simp: elems_ins)
  with 1(1) 2 show ?case by (auto simp: bind_def)
qed

lemma lb_del:
  assumes b: "bst t"
  shows "lb x (del x t) = ub x t"
proof -
  have bd: "bst (del x t)" using b by (rule bst_del)
  have ed: "elems (del x t) = elems t - {x}" using b by (rule elems_del)
  show ?thesis
  proof (cases "ub x t")
    case None
    from ub_None[OF b None] have "\<forall>z\<in>elems (del x t). z < x" using ed by fastforce
    then show ?thesis using None lb_Some[OF bd, of x] by (cases "lb x (del x t)") fastforce+
  next
    case (Some y)
    from ub_Some[OF b Some] have y: "y \<in> elems t" "x < y" "\<forall>z\<in>elems t. x < z \<longrightarrow> y \<le> z" by auto
    show ?thesis
    proof (cases "lb x (del x t)")
      case None
      from lb_None[OF bd None] y ed show ?thesis by fastforce
    next
      case (Some y')
      from lb_Some[OF bd Some] ed have y': "y' \<in> elems t" "y' \<noteq> x" "x \<le> y'"
        "\<forall>z\<in>elems t - {x}. x \<le> z \<longrightarrow> y' \<le> z" by auto
      from y' have "x < y'" by simp
      with y y' have "y \<le> y'" "y' \<le> y" by auto
      with Some \<open>ub x t = Some y\<close> show ?thesis by simp
    qed
  qed
qed

lemma safe_and_then_pair:
  assumes m: "safe P m (\<lambda>x. fst x \<notin> P \<and> snd x \<notin> P)"
    and k: "\<And>x. fst x \<notin> P \<Longrightarrow> snd x \<notin> P \<Longrightarrow> safe P (k x) R"
  shows "safe P (\<lambda>h. and_then (m h) k) R"
  using safe_and_then[OF m, of k R] k by blast

lemma safe_lower_bound_rec: "safe P (lower_bound_rec this p v) (\<lambda>_. True)"
proof -
  have "P \<subseteq> {..<brk h} \<longrightarrow> pres P h (snd y)"
    if run: "lower_bound_rec this p v h = Some y" for p h y
  proof (rule lower_bound_rec.raw_induct[of "\<lambda>this p v h y. P \<subseteq> {..<brk h} \<longrightarrow> pres P h (snd y)" this p v h y, OF _ run])
    fix f this p and v :: 'a and h :: "'a heap" and y :: "iterator res \<times> 'a heap"
    assume ih: "\<And>this p v h y. f this p v h = Some y \<Longrightarrow> P \<subseteq> {..<brk h} \<longrightarrow> pres P h (snd y)"
      and b: "(case p of None \<Rightarrow> ret (end_it this) h
      | Some p \<Rightarrow>
          and_then (get_node p h) (\<lambda>n h.
          and_then (deref (value' n) h) (\<lambda>x h.
          and_then (equal_T x v h) (\<lambda>e h.
            if e then ret \<lparr>node_ptr = p, set_ptr = this\<rparr> h
            else and_then (greater_T v x h) (\<lambda>g h.
              if g then f this (right n) v h
              else and_then (f this (left n) v h) (\<lambda>it h.
                if it = end_it this then ret \<lparr>node_ptr = p, set_ptr = this\<rparr> h
                else ret it h)))))) = Some y"
    show "P \<subseteq> {..<brk h} \<longrightarrow> pres P h (snd y)"
    proof (intro impI)
      assume P: "P \<subseteq> {..<brk h}"
      have ih': "safe P (f this q v) (\<lambda>_. True)" for q
        using ih by (fastforce simp: safe_def)
      show "pres P h (snd y)"
      proof (cases p)
        case None
        with b show ?thesis by (auto simp: ret_def)
      next
        case (Some a)
        have "safe P (\<lambda>h. and_then (get_node a h) (\<lambda>n h.
          and_then (deref (value' n) h) (\<lambda>x h.
          and_then (equal_T x v h) (\<lambda>e h.
            if e then ret \<lparr>node_ptr = a, set_ptr = this\<rparr> h
            else and_then (greater_T v x h) (\<lambda>g h.
              if g then f this (right n) v h
              else and_then (f this (left n) v h) (\<lambda>it h.
                if it = end_it this then ret \<lparr>node_ptr = a, set_ptr = this\<rparr> h
                else ret it h)))))) (\<lambda>_. True)"
          by (rule safe_and_then safe_if safe_get_node safe_deref safe_cmp safe_ret ih' TrueI)+
        from safeD[OF this P, of "fst y" "snd y"] b Some show ?thesis by simp
      qed
    qed
  qed
  then show ?thesis by (fastforce simp: safe_def)
qed

lemma safe_lower_bound: "safe P (lower_bound this v) (\<lambda>_. True)"
  unfolding lower_bound_def
  by (rule safe_bind safe_get_node safe_lower_bound_rec)+

lemma safe_deref_it: "safe P (deref_it it) (\<lambda>_. True)"
  unfolding deref_it_def
  by (rule safe_bind safe_get_node safe_deref)+

lemma safe_find_set: "safe P (find_set this v) (\<lambda>_. True)"
  unfolding find_set_def
  by (rule safe_bind safe_if' safe_lower_bound safe_deref_it safe_cmp safe_ret TrueI)+

lemma safe_restore: "this \<notin> P \<Longrightarrow> safe P (restore this bu bs) Q"
  unfolding restore_def
  by (rule safe_bind safe_set_node safe_set_size safe_throw | assumption)+

lemma safe_insert_try: "this \<notin> P \<Longrightarrow> safe P (insert_try this v) (\<lambda>_. True)"
  unfolding insert_try_def
  apply (rule safe_bind[OF safe_get_node])
  apply (rule safe_bind[where Q = "\<lambda>_. True"])
  by (rule safe_bind safe_if' safe_get_node safe_make_shared_copy safe_make_shared_value
        safe_insert_rec safe_set_node safe_get_size safe_set_size safe_find_set safe_ret TrueI
      | assumption)+

lemma safe_insert_set: "this \<notin> P \<Longrightarrow> safe P (insert_set this v) (\<lambda>_. True)"
  unfolding insert_set_def
  by (rule safe_bind safe_if' safe_find_set safe_ret safe_get_node safe_get_size safe_try_catch
        safe_insert_try safe_restore TrueI | assumption)+

lemma safe_swap_value: "p \<notin> P \<Longrightarrow> q \<notin> P \<Longrightarrow> safe P (swap_value p q) (\<lambda>_. True)"
  unfolding swap_value_def
  by (rule safe_bind safe_get_node safe_set_value | assumption)+

lemma safe_erase_impl: "parent \<notin> P \<Longrightarrow> safe P (erase_impl parent son) (\<lambda>_. True)"
  unfolding erase_impl_def
  by (rule safe_bind safe_if' safe_get_node safe_set_left safe_set_right | assumption)+

lemma safe_ret_pair:
  "a \<notin> P \<Longrightarrow> b \<notin> P \<Longrightarrow> safe P (ret (a, b)) (\<lambda>x. fst x \<notin> P \<and> snd x \<notin> P)"
  by (rule safe_ret) simp

lemma safe_erase_max:
  "tp \<notin> P \<Longrightarrow> nx \<notin> P \<Longrightarrow>
   safe P (erase_max tp nx :: ('a, addr \<times> addr) prog) (\<lambda>x. fst x \<notin> P \<and> snd x \<notin> P)"
proof -
  have "tp \<notin> P \<longrightarrow> nx \<notin> P \<longrightarrow> P \<subseteq> {..<brk h} \<longrightarrow>
          pres P h (snd y) \<and> (\<forall>x. fst y = Ret x \<longrightarrow> fst x \<notin> P \<and> snd x \<notin> P)"
    if run: "erase_max tp nx h = Some y" for tp nx and h :: "'a heap" and y
  proof (rule erase_max.raw_induct[of "\<lambda>tp nx h y. tp \<notin> P \<longrightarrow> nx \<notin> P \<longrightarrow> P \<subseteq> {..<brk h} \<longrightarrow>
          pres P h (snd y) \<and> (\<forall>x. fst y = Ret x \<longrightarrow> fst x \<notin> P \<and> snd x \<notin> P)" tp nx h y, OF _ run])
    fix f tp nx and h :: "'a heap" and y :: "(addr \<times> addr) res \<times> 'a heap"
    assume ih: "\<And>tp nx h y. f tp nx h = Some y \<Longrightarrow> tp \<notin> P \<longrightarrow> nx \<notin> P \<longrightarrow> P \<subseteq> {..<brk h} \<longrightarrow>
          pres P h (snd y) \<and> (\<forall>x. fst y = Ret x \<longrightarrow> fst x \<notin> P \<and> snd x \<notin> P)"
      and b: "and_then (get_node nx h) (\<lambda>n h.
       if right n \<noteq> None then
         and_then (make_shared_copy (right n) h) (\<lambda>c h.
         and_then (set_right nx (Some c) h) (\<lambda>_ h. f nx c h))
       else ret (tp, nx) h) = Some y"
    show "tp \<notin> P \<longrightarrow> nx \<notin> P \<longrightarrow> P \<subseteq> {..<brk h} \<longrightarrow>
          pres P h (snd y) \<and> (\<forall>x. fst y = Ret x \<longrightarrow> fst x \<notin> P \<and> snd x \<notin> P)"
    proof (intro impI)
      assume tp: "tp \<notin> P" and nx: "nx \<notin> P" and P: "P \<subseteq> {..<brk h}"
      have ih': "safe P (f a c) (\<lambda>x. fst x \<notin> P \<and> snd x \<notin> P)" if "a \<notin> P" "c \<notin> P" for a c
        unfolding safe_def
      proof (intro allI impI)
        fix h r h' assume "P \<subseteq> {..<brk h}" "f a c h = Some (r, h')"
        with ih[of a c h "(r, h')"] that
        show "pres P h h' \<and> (\<forall>x. r = Ret x \<longrightarrow> fst x \<notin> P \<and> snd x \<notin> P)" by simp
      qed
      have "safe P (\<lambda>h. and_then (get_node nx h) (\<lambda>n h.
       if right n \<noteq> None then
         and_then (make_shared_copy (right n) h) (\<lambda>c h.
         and_then (set_right nx (Some c) h) (\<lambda>_ h. f nx c h))
       else ret (tp, nx) h)) (\<lambda>x. fst x \<notin> P \<and> snd x \<notin> P)"
        by (insert tp nx) (rule safe_and_then safe_if safe_get_node safe_make_shared_copy
              safe_set_right safe_ret_pair ih' | assumption)+
      from safeD[OF this P, of "fst y" "snd y"] b
      show "pres P h (snd y) \<and> (\<forall>x. fst y = Ret x \<longrightarrow> fst x \<notin> P \<and> snd x \<notin> P)" by simp
    qed
  qed
  note main = this
  assume a: "tp \<notin> P" "nx \<notin> P"
  show "safe P (erase_max tp nx :: ('a, addr \<times> addr) prog) (\<lambda>x. fst x \<notin> P \<and> snd x \<notin> P)"
  proof (rule safeI)
    fix h :: "'a heap" and r h'
    assume "P \<subseteq> {..<brk h}" "erase_max tp nx h = Some (r, h')"
    with main[of tp nx h "(r, h')"] a
    show "pres P h h' \<and> (\<forall>x. r = Ret x \<longrightarrow> fst x \<notin> P \<and> snd x \<notin> P)" by simp
  qed
qed

lemma safe_erase_loop:
  "prev \<notin> P \<Longrightarrow> nx \<notin> P \<Longrightarrow> safe P (erase_loop v prev nx) (\<lambda>_. True)"
proof -
  have "prev \<notin> P \<longrightarrow> nx \<notin> P \<longrightarrow> P \<subseteq> {..<brk h} \<longrightarrow> pres P h (snd y)"
    if run: "erase_loop v prev nx h = Some y" for prev nx h y
  proof (rule erase_loop.raw_induct[of "\<lambda>v prev nx h y. prev \<notin> P \<longrightarrow> nx \<notin> P \<longrightarrow> P \<subseteq> {..<brk h} \<longrightarrow> pres P h (snd y)" v prev nx h y, OF _ run])
    fix f prev nx and v :: 'a and h :: "'a heap" and y :: "unit res \<times> 'a heap"
    assume ih: "\<And>v prev nx h y. f v prev nx h = Some y \<Longrightarrow>
        prev \<notin> P \<longrightarrow> nx \<notin> P \<longrightarrow> P \<subseteq> {..<brk h} \<longrightarrow> pres P h (snd y)"
      and b: "and_then (get_node nx h) (\<lambda>n h.
     and_then (deref (value' n) h) (\<lambda>x h.
     and_then (equal_T x v h) (\<lambda>e h.
       if e then
         (if left n \<noteq> None \<and> right n \<noteq> None then
            and_then (make_shared_copy (left n) h) (\<lambda>c h.
            and_then (set_left nx (Some c) h) (\<lambda>_ h.
            and_then (erase_max nx c h) (\<lambda>ends h.
            and_then (swap_value nx (snd ends) h) (\<lambda>_ h.
              erase_impl (fst ends) (snd ends) h))))
          else erase_impl prev nx h)
       else
         and_then (less_T v x h) (\<lambda>l h.
           if l then
             and_then (make_shared_copy (left n) h) (\<lambda>c h.
             and_then (set_left nx (Some c) h) (\<lambda>_ h. f v nx c h))
           else
             and_then (make_shared_copy (right n) h) (\<lambda>c h.
             and_then (set_right nx (Some c) h) (\<lambda>_ h. f v nx c h)))))) = Some y"
    show "prev \<notin> P \<longrightarrow> nx \<notin> P \<longrightarrow> P \<subseteq> {..<brk h} \<longrightarrow> pres P h (snd y)"
    proof (intro impI)
      assume pv: "prev \<notin> P" and nx: "nx \<notin> P" and P: "P \<subseteq> {..<brk h}"
      have ih': "safe P (f v a c) (\<lambda>_. True)" if "a \<notin> P" "c \<notin> P" for a c
        using ih that by (fastforce simp: safe_def)
      have "safe P (\<lambda>h. and_then (get_node nx h) (\<lambda>n h.
     and_then (deref (value' n) h) (\<lambda>x h.
     and_then (equal_T x v h) (\<lambda>e h.
       if e then
         (if left n \<noteq> None \<and> right n \<noteq> None then
            and_then (make_shared_copy (left n) h) (\<lambda>c h.
            and_then (set_left nx (Some c) h) (\<lambda>_ h.
            and_then (erase_max nx c h) (\<lambda>ends h.
            and_then (swap_value nx (snd ends) h) (\<lambda>_ h.
              erase_impl (fst ends) (snd ends) h))))
          else erase_impl prev nx h)
       else
         and_then (less_T v x h) (\<lambda>l h.
           if l then
             and_then (make_shared_copy (left n) h) (\<lambda>c h.
             and_then (set_left nx (Some c) h) (\<lambda>_ h. f v nx c h))
           else
             and_then (make_shared_copy (right n) h) (\<lambda>c h.
             and_then (set_right nx (Some c) h) (\<lambda>_ h. f v nx c h))))))) (\<lambda>_. True)"
        by (insert pv nx) (rule safe_and_then_pair safe_and_then safe_if safe_get_node safe_deref
              safe_cmp safe_make_shared_copy safe_set_left safe_set_right safe_erase_max
              safe_swap_value safe_erase_impl ih' | assumption)+
      from safeD[OF this P, of "fst y" "snd y"] b show "pres P h (snd y)" by simp
    qed
  qed
  then show "prev \<notin> P \<Longrightarrow> nx \<notin> P \<Longrightarrow> safe P (erase_loop v prev nx) (\<lambda>_. True)"
    by (fastforce simp: safe_def)
qed

lemma safe_erase_path: "prev \<notin> P \<Longrightarrow> safe P (erase_path v prev) (\<lambda>_. True)"
  unfolding erase_path_def
  by (rule safe_bind safe_get_node safe_make_shared_copy safe_set_left safe_erase_loop
      | assumption)+

lemma safe_erase_try: "this \<notin> P \<Longrightarrow> safe P (erase_try this it) (\<lambda>_. True)"
  unfolding erase_try_def
  by (rule safe_bind safe_get_node safe_alloc_node safe_deref safe_erase_path safe_set_node
        safe_get_size safe_set_size safe_lower_bound | assumption)+

lemma safe_erase: "this \<notin> P \<Longrightarrow> safe P (erase this it) (\<lambda>_. True)"
  unfolding erase_def
  by (rule safe_bind safe_get_node safe_get_size safe_try_catch safe_erase_try safe_restore
      | assumption)+

lemma safe_mutate: "this \<notin> P \<Longrightarrow> safe P (mutate this m) (\<lambda>_. True)"
  unfolding mutate_def
  by (cases m)
     (simp_all, (rule safe_try_catch safe_bind safe_insert_set safe_erase safe_ret TrueI
        | assumption)+)

lemma safe_mutate_all: "this \<notin> P \<Longrightarrow> safe P (mutate_all this ms) (\<lambda>_. True)"
  by (induction ms) (auto intro!: safe_ret safe_bind safe_mutate)

lemma pres_mono: "pres P h h' \<Longrightarrow> Q \<subseteq> P \<Longrightarrow> pres Q h h'"
  by (auto simp: pres_def)

lemma holds_pres: "holds h a x \<Longrightarrow> pres P h h' \<Longrightarrow> a \<in> P \<Longrightarrow> holds h' a x"
  by (auto simp: holds_def pres_def split: option.splits)

lemma tree_at_pres: "tree_at h A p t \<Longrightarrow> pres P h h' \<Longrightarrow> A \<subseteq> P \<Longrightarrow> tree_at h' A p t"
proof (induction t arbitrary: p)
  case Leaf
  then show ?case by simp
next
  case (Node l x r)
  from tree_at_NodeD[OF Node.prems(1)] obtain a n where
    p: "p = Some a" "a \<in> A" "nodes h a = Some n" "holds h a x"
    and l: "tree_at h A (left n) l" and r: "tree_at h A (right n) r" by blast
  from p Node.prems have a: "a \<in> P" by auto
  with p Node.prems(2) have "nodes h' a = Some n" by (simp add: pres_def)
  moreover from p a Node.prems(2) have "holds h' a x" by (blast intro: holds_pres)
  ultimately show ?case using p Node.IH(1)[OF l Node.prems(2,3)] Node.IH(2)[OF r Node.prems(2,3)]
    by simp
qed

lemma pset_pres:
  assumes r: "nodes h s = Some r" "value' r = None" and t: "tree_at h A (left r) t"
    and A: "A \<subseteq> {..<brk h} - {s}" and s: "s < brk h" and b: "bst t"
    and n: "m_size h s = Some (of_nat (tree_size t))"
    and p: "pres P h h'" and P: "insert s A \<subseteq> P"
  shows "pset h' s t \<and> nodes h' s = Some r \<and> m_size h' s = m_size h s \<and> tree_at h' A (left r) t"
proof -
  from p P r n have 1: "nodes h' s = Some r" "m_size h' s = m_size h s" "brk h \<le> brk h'"
    by (auto simp: pres_def)
  from tree_at_pres[OF t p] P have 2: "tree_at h' A (left r) t" by auto
  have "A \<subseteq> {..<brk h'} - {s}" using A 1(3) by auto
  with 2 have "tree_at h' ({..<brk h'} - {s}) (left r) t" by (rule tree_at_mono)
  with 1 2 r s b n show ?thesis by (simp add: pset_def)
qed

lemma pset_pres_all:
  assumes p: "pset h s t" and q: "pres {..<brk h} h h'"
  shows "pset h' s t \<and> nodes h' s = nodes h s \<and> m_size h' s = m_size h s"
proof -
  from psetD[OF p] obtain r where r: "nodes h s = Some r" "value' r = None"
    "tree_at h (own h s) (left r) t" "s < brk h" "bst t" "m_size h s = Some (of_nat (tree_size t))"
    by blast
  have "insert s (own h s) \<subseteq> {..<brk h}" using r(4) by (auto simp: own_def)
  from pset_pres[OF r(1,2,3) _ r(4,5,6) q this] r(1) show ?thesis by (auto simp: own_def)
qed

lemma bind_cases:
  "bind m k h = Some (r, h') \<Longrightarrow>
   (\<exists>x h1. m h = Some (Ret x, h1) \<and> k x h1 = Some (r, h')) \<or>
   (m h = Some (Throw, h') \<and> r = Throw) \<or> (m h = Some (UB, h') \<and> r = UB)"
  by (cases "m h") (auto simp: bind_def and_then_def split: res.splits)

lemma bind_Throw:
  "bind m k h = Some (Throw, h') \<Longrightarrow>
   (\<exists>x h1. m h = Some (Ret x, h1) \<and> k x h1 = Some (Throw, h')) \<or> m h = Some (Throw, h')"
  by (drule bind_cases) auto

lemma try_catch_Throw:
  "try_catch b c h = Some (Throw, h') \<Longrightarrow> \<exists>hb. b h = Some (Throw, hb) \<and> c hb = Some (Throw, h')"
  by (cases "b h") (auto simp: try_catch_def split: res.splits)

lemma restore_Throw:
  "restore s bu bs hb = Some (Throw, h') \<Longrightarrow>
   h' = hb\<lparr>nodes := (nodes hb)(s \<mapsto> bu), m_size := (m_size hb)(s \<mapsto> bs)\<rparr>"
  by (auto simp: restore_def bind_def set_node_def set_size_def throw_def split: option.splits)

lemma guarded_Throw:
  fixes body :: "('a, 'r) prog"
  assumes run: "bind (get_node s) (\<lambda>bu. bind (get_size s) (\<lambda>bs. try_catch body (restore s bu bs))) h
      = Some (Throw, h')"
    and body: "safe ({..<brk h} - {s}) body Q"
  shows "nodes h' s = nodes h s \<and> m_size h' s = m_size h s \<and> pres {..<brk h} h h'"
proof -
  from bind_Throw[OF run] obtain bu where
    bu: "nodes h s = Some bu"
    and 1: "bind (get_size s) (\<lambda>bs. try_catch body (restore s bu bs)) h = Some (Throw, h')"
    by (auto simp: get_node_def split: option.splits)
  from bind_Throw[OF 1] obtain bs where
    bs: "m_size h s = Some bs" and 2: "try_catch body (restore s bu bs) h = Some (Throw, h')"
    by (auto simp: get_size_def split: option.splits)
  from try_catch_Throw[OF 2] obtain hb where
    hb: "body h = Some (Throw, hb)" "restore s bu bs hb = Some (Throw :: 'r res, h')" by blast
  from safeD[OF body _ hb(1)] have p: "pres ({..<brk h} - {s}) h hb" by auto
  from restore_Throw[OF hb(2)] have h': "h' = hb\<lparr>nodes := (nodes hb)(s \<mapsto> bu), m_size := (m_size hb)(s \<mapsto> bs)\<rparr>" .
  from p show ?thesis unfolding h' using bu bs by (auto simp: pres_def)
qed

lemma insert_set_Throw:
  assumes run: "insert_set s v h = Some (Throw, h')" and s: "s < brk h"
  shows "nodes h' s = nodes h s \<and> m_size h' s = m_size h s \<and> pres {..<brk h} h h'"
proof -
  have sf: "safe {..<brk h} (find_set s v) (\<lambda>_. True)" by (rule safe_find_set)
  from bind_Throw[OF run[unfolded insert_set_def]]
  show ?thesis
  proof (elim disjE exE conjE)
    assume "find_set s v h = Some (Throw, h')"
    from safeD[OF sf _ this] s show ?thesis by (auto simp: pres_def)
  next
    fix it h1
    assume f: "find_set s v h = Some (Ret it, h1)"
      and k: "(if it \<noteq> end_it s then bind (find_set s v) (\<lambda>it'. ret (it', False))
         else bind (get_node s) (\<lambda>back_up. bind (get_size s) (\<lambda>back_up_size.
           try_catch (insert_try s v) (restore s back_up back_up_size)))) h1 = Some (Throw, h')"
    from safeD[OF sf _ f] have p1: "pres {..<brk h} h h1" by auto
    then have b1: "brk h \<le> brk h1" by (simp add: pres_def)
    show ?thesis
    proof (cases "it \<noteq> end_it s")
      case True
      with k have "bind (find_set s v) (\<lambda>it'. ret (it', False)) h1 = Some (Throw, h')" by simp
      from bind_Throw[OF this] have "find_set s v h1 = Some (Throw, h')" by (auto simp: ret_def)
      from safeD[OF safe_find_set[of "{..<brk h}"] _ this] b1 have "pres {..<brk h} h1 h'" by auto
      with p1 have "pres {..<brk h} h h'" by (rule pres_trans)
      with s show ?thesis by (auto simp: pres_def)
    next
      case False
      with k have g: "bind (get_node s) (\<lambda>back_up. bind (get_size s) (\<lambda>back_up_size.
           try_catch (insert_try s v) (restore s back_up back_up_size))) h1 = Some (Throw, h')" by simp
      have "safe ({..<brk h1} - {s}) (insert_try s v) (\<lambda>_. True)" by (rule safe_insert_try) simp
      from guarded_Throw[OF g this] have
        2: "nodes h' s = nodes h1 s" "m_size h' s = m_size h1 s" "pres {..<brk h1} h1 h'" by auto
      from 2(3) b1 have "pres {..<brk h} h1 h'" by (auto intro: pres_mono)
      with p1 have "pres {..<brk h} h h'" by (rule pres_trans)
      with s show ?thesis by (auto simp: pres_def)
    qed
  qed
qed

lemma erase_Throw:
  assumes run: "erase s it h = Some (Throw, h')"
  shows "nodes h' s = nodes h s \<and> m_size h' s = m_size h s \<and> pres {..<brk h} h h'"
proof -
  have "safe ({..<brk h} - {s}) (erase_try s it) (\<lambda>_. True)" by (rule safe_erase_try) simp
  from guarded_Throw[OF run[unfolded erase_def] this] show ?thesis .
qed

lemma copy_set_ok:
  assumes p: "pset h s t"
  shows "\<exists>r n. nodes h s = Some r \<and> m_size h s = Some n \<and>
     copy_set s h = Some (Ret (brk h),
       h\<lparr>nodes := (nodes h)(brk h \<mapsto> r), m_size := (m_size h)(brk h \<mapsto> n), brk := Suc (brk h)\<rparr>)"
  using psetD[OF p] by (auto simp: copy_set_def bind_def get_size_ok get_node_ok)

lemma mutate_all_inserts:
  "pset h c t \<Longrightarrow> faults h = [] \<Longrightarrow> \<exists>h'. mutate_all c (map Insert vs) h = Some (Ret (), h')"
proof (induction vs arbitrary: h t)
  case Nil
  then show ?case by (simp add: ret_def)
next
  case (Cons v vs)
  from insert_set_ok[OF Cons.prems, of v] obtain it h1 where
    1: "insert_set c v h = Some (Ret (it, v \<notin> elems t), h1)"
      "pset h1 c (if v \<in> elems t then t else ins v t)" "faults h1 = []" by blast
  from Cons.IH[OF 1(2,3)] obtain h' where "mutate_all c (map Insert vs) h1 = Some (Ret (), h')"
    by blast
  with 1(1) show ?case by (simp add: bind_def mutate_def try_catch_def ret_def)
qed

lemma insert_set_first_fault:
  assumes p: "pset h s t" and f: "faults h = True # fs"
  shows "\<exists>h'. insert_set s v h = Some (Throw, h')"
proof -
  from psetD[OF p] obtain r where r: "nodes h s = Some r" "value' r = None"
    "tree_at h (own h s) (left r) t" "m_size h s = Some (of_nat (tree_size t))" by blast
  show ?thesis
  proof (cases t)
    case Leaf
    with r have "left r = None" by simp
    with r f show ?thesis
      by (simp add: insert_set_def find_set_def lower_bound_def bind_def get_node_ok
          lower_bound_rec.simps ret_def get_size_ok try_catch_def insert_try_def
          make_shared_value_def may_throw_def restore_def set_node_def set_size_def throw_def)
  next
    case (Node l x r')
    from tree_at_NodeD[OF r(3)[unfolded Node]] obtain a n va where
      a: "left r = Some a" "nodes h a = Some n" "value' n = Some va" "vals h va = Some x" by blast
    with r f show ?thesis
      by (simp add: insert_set_def find_set_def lower_bound_def bind_def get_node_ok
          lower_bound_rec.simps deref_ok equal_T_def may_throw_def)
  qed
qed

lemma erase_first_fault:
  assumes p: "pset h s t" and f: "faults h = True # fs"
    and i: "it_at h (own h s) s it (Some x)" and x: "x \<in> elems t"
  shows "\<exists>h'. erase s it h = Some (Throw, h')"
proof -
  from psetD[OF p] obtain r where r: "nodes h s = Some r" "value' r = None"
    "tree_at h (own h s) (left r) t" "m_size h s = Some (of_nat (tree_size t))" "s < brk h" by blast
  from i have "holds h (node_ptr it) x" by (simp add: it_at_def)
  from holdsD[OF this] obtain itn va where itn: "nodes h (node_ptr it) = Some itn"
    "value' itn = Some va" "va < brk h" "vals h va = Some x" by blast
  from i have ni: "node_ptr it \<noteq> brk h" by (auto simp: it_at_def own_def)
  from x obtain l y r' where N: "t = Node l y r'" by (cases t) auto
  from tree_at_NodeD[OF r(3)[unfolded N]] obtain a n where
    a: "left r = Some a" "nodes h a = Some n" "a \<in> own h s" by blast
  then have na: "a \<noteq> brk h" by (auto simp: own_def)
  from r f itn a ni na show ?thesis
    by (simp add: erase_def bind_def get_node_ok get_size_ok try_catch_def erase_try_def
        alloc_node_def deref_ok erase_path_def make_shared_copy_def may_throw_def
        restore_def set_node_def set_size_def throw_def)
qed

subsection \<open>Which operation threw\<close>

lemma tracedI: "(\<And>h r h'. m h = Some (r, h') \<Longrightarrow> trace h r h') \<Longrightarrow> traced m"
  by (simp add: traced_def)

lemma tracedD: "traced m \<Longrightarrow> m h = Some (r, h') \<Longrightarrow> trace h r h'"
  by (simp add: traced_def)

lemma trace_Ret_then:
  "trace h (Ret x) h1 \<Longrightarrow> trace h1 r h2 \<Longrightarrow> trace h r h2"
proof -
  assume a: "trace h (Ret x) h1" "trace h1 r h2"
  from a(1) obtain k where k: "faults h = replicate k False @ faults h1" by (auto simp: trace_def)
  show ?thesis
  proof (cases r)
    case (Ret y)
    with a(2) obtain j where "faults h1 = replicate j False @ faults h2" by (auto simp: trace_def)
    with k have "faults h = replicate (k + j) False @ faults h2" by (simp add: replicate_add)
    with Ret show ?thesis unfolding trace_def by auto
  next
    case Throw
    with a(2) obtain j where "faults h1 = replicate j False @ True # faults h2"
      by (auto simp: trace_def)
    with k have "faults h = replicate (k + j) False @ True # faults h2" by (simp add: replicate_add)
    with Throw show ?thesis unfolding trace_def by auto
  next
    case UB
    then show ?thesis by (simp add: trace_def)
  qed
qed

lemma traced_and_then:
  assumes m: "traced m" and k: "\<And>x. traced (k x)"
  shows "traced (\<lambda>h. and_then (m h) k)"
proof (rule tracedI)
  fix h r h'
  assume run: "and_then (m h) k = Some (r, h')"
  from run obtain r1 h1 where m1: "m h = Some (r1, h1)"
    by (cases "m h") (auto simp: and_then_def)
  from tracedD[OF m m1] have t1: "trace h r1 h1" .
  show "trace h r h'"
  proof (cases r1)
    case (Ret x)
    with run m1 have "k x h1 = Some (r, h')" by simp
    from tracedD[OF k this] t1 Ret show ?thesis by (auto intro: trace_Ret_then)
  next
    case Throw
    with run m1 t1 show ?thesis by (auto simp: trace_def)
  next
    case UB
    with run m1 show ?thesis by (auto simp: trace_def)
  qed
qed

lemma traced_bind: "traced m \<Longrightarrow> (\<And>x. traced (k x)) \<Longrightarrow> traced (bind m k)"
  using traced_and_then[of m k] by (simp add: bind_def[abs_def])

lemma traced_if:
  "(c \<Longrightarrow> traced (\<lambda>h. A h)) \<Longrightarrow> (\<not> c \<Longrightarrow> traced (\<lambda>h. B h)) \<Longrightarrow>
   traced (\<lambda>h. if c then A h else B h)"
  by (auto simp: traced_def)

lemma traced_if':
  "(c \<Longrightarrow> traced A) \<Longrightarrow> (\<not> c \<Longrightarrow> traced B) \<Longrightarrow> traced (if c then A else B)"
  by (auto simp: traced_def)

lemma trace_same: "faults h' = faults h \<Longrightarrow> r \<noteq> Throw \<Longrightarrow> trace h r h'"
  by (cases r) (auto simp: trace_def intro: exI[of _ 0])

lemma traced_guard:
  assumes b: "traced body"
  shows "traced (try_catch body (restore s bu bs))"
proof (rule tracedI)
  fix h r h'
  assume run: "try_catch body (restore s bu bs) h = Some (r, h')"
  from run obtain r1 h1 where m1: "body h = Some (r1, h1)"
    by (cases "body h") (auto simp: try_catch_def)
  from tracedD[OF b m1] have t1: "trace h r1 h1" .
  show "trace h r h'"
  proof (cases r1)
    case (Ret x)
    with run m1 t1 show ?thesis by (auto simp: try_catch_def)
  next
    case Throw
    with run m1 have "restore s bu bs h1 = Some (r, h')" by (simp add: try_catch_def)
    then have "faults h' = faults h1" "r = Throw \<or> r = UB"
      by (auto simp: restore_def bind_def set_node_def set_size_def throw_def and_then_def
          split: option.splits)
    with t1 Throw show ?thesis by (auto simp: trace_def)
  next
    case UB
    with run m1 show ?thesis by (auto simp: try_catch_def trace_def)
  qed
qed

lemma traced_ret: "traced (ret x)"
  by (auto simp: traced_def ret_def intro: trace_same)

lemma traced_undef: "traced undef"
  by (auto simp: traced_def undef_def intro: trace_same)

lemma traced_may_throw: "traced may_throw"
proof (rule tracedI)
  fix h :: "'a heap" and r h'
  assume run: "may_throw h = Some (r, h')"
  show "trace h r h'"
  proof (cases "faults h")
    case Nil
    with run show ?thesis by (auto simp: may_throw_def trace_def intro: exI[of _ 0])
  next
    case (Cons b bs)
    show ?thesis
    proof (cases b)
      case True
      with Cons run show ?thesis by (auto simp: may_throw_def trace_def intro: exI[of _ 0])
    next
      case False
      with Cons run have "r = Ret ()" "faults h = replicate (Suc 0) False @ faults h'"
        by (auto simp: may_throw_def)
      then show ?thesis unfolding trace_def by (auto simp del: replicate_Suc replicate.simps)
    qed
  qed
qed

lemma traced_get_node: "traced (get_node p)"
  by (auto simp: traced_def get_node_def split: option.splits intro: trace_same)

lemma traced_get_size: "traced (get_size p)"
  by (auto simp: traced_def get_size_def split: option.splits intro: trace_same)

lemma traced_deref: "traced (deref p)"
  by (auto simp: traced_def deref_def split: option.splits intro: trace_same)

lemma traced_set_node: "traced (set_node p n)"
  by (auto simp: traced_def set_node_def split: option.splits intro: trace_same)

lemma traced_set_left: "traced (set_left p n)"
  by (auto simp: traced_def set_left_def split: option.splits intro: trace_same)

lemma traced_set_right: "traced (set_right p n)"
  by (auto simp: traced_def set_right_def split: option.splits intro: trace_same)

lemma traced_set_value: "traced (set_value p n)"
  by (auto simp: traced_def set_value_def split: option.splits intro: trace_same)

lemma traced_set_size: "traced (set_size p n)"
  by (auto simp: traced_def set_size_def split: option.splits intro: trace_same)

lemma traced_alloc_node: "traced (alloc_node n)"
  by (auto simp: traced_def alloc_node_def intro: trace_same)

lemma traced_alloc_val: "traced (alloc_val n)"
  by (auto simp: traced_def alloc_val_def intro: trace_same)

lemma traced_cmp:
  "traced (equal_T x y)" "traced (not_equal_T x y)" "traced (less_T v w)" "traced (greater_T v w)"
  unfolding equal_T_def not_equal_T_def less_T_def greater_T_def
  by (rule traced_bind[OF traced_may_throw traced_ret])+

lemma traced_make_shared_copy: "traced (make_shared_copy sp)"
  unfolding make_shared_copy_def
  by (cases sp) (auto intro!: traced_undef traced_bind traced_get_node traced_may_throw traced_alloc_node)

lemma traced_make_shared_value: "traced (make_shared_value v)"
  unfolding make_shared_value_def
  by (rule traced_bind traced_may_throw traced_alloc_node traced_alloc_val traced_set_value traced_ret)+

lemma traced_lower_bound_rec: "traced (lower_bound_rec this p v)"
proof -
  have "trace h (fst y) (snd y)"
    if run: "lower_bound_rec this p v h = Some y" for p h y
  proof (rule lower_bound_rec.raw_induct[of "\<lambda>this p v h y. trace h (fst y) (snd y)" this p v h y, OF _ run])
    fix f this p and v :: 'a and h :: "'a heap" and y :: "iterator res \<times> 'a heap"
    assume ih: "\<And>this p v h y. f this p v h = Some y \<Longrightarrow> trace h (fst y) (snd y)"
      and b: "(case p of None \<Rightarrow> ret (end_it this) h
      | Some p \<Rightarrow>
          and_then (get_node p h) (\<lambda>n h.
          and_then (deref (value' n) h) (\<lambda>x h.
          and_then (equal_T x v h) (\<lambda>e h.
            if e then ret \<lparr>node_ptr = p, set_ptr = this\<rparr> h
            else and_then (greater_T v x h) (\<lambda>g h.
              if g then f this (right n) v h
              else and_then (f this (left n) v h) (\<lambda>it h.
                if it = end_it this then ret \<lparr>node_ptr = p, set_ptr = this\<rparr> h
                else ret it h)))))) = Some y"
    have ih': "traced (f this p v)" for this p v
      using ih by (fastforce simp: traced_def)
    show "trace h (fst y) (snd y)"
    proof (cases p)
      case None
      with b show ?thesis by (auto simp: ret_def trace_def intro: exI[of _ 0])
    next
      case (Some a)
      have "traced (\<lambda>h. and_then (get_node a h) (\<lambda>n h.
          and_then (deref (value' n) h) (\<lambda>x h.
          and_then (equal_T x v h) (\<lambda>e h.
            if e then ret \<lparr>node_ptr = a, set_ptr = this\<rparr> h
            else and_then (greater_T v x h) (\<lambda>g h.
              if g then f this (right n) v h
              else and_then (f this (left n) v h) (\<lambda>it h.
                if it = end_it this then ret \<lparr>node_ptr = a, set_ptr = this\<rparr> h
                else ret it h))))))"
        by (rule traced_and_then traced_if traced_get_node traced_deref traced_cmp traced_ret traced_make_shared_copy traced_make_shared_value traced_set_left traced_set_right  ih')+
      from tracedD[OF this, of h "fst y" "snd y"] b Some show ?thesis by simp
    qed
  qed
  then show ?thesis by (fastforce simp: traced_def)
qed

lemma traced_insert_rec: "traced (insert_rec nx v)"
proof -
  have "trace h (fst y) (snd y)"
    if run: "insert_rec nx v h = Some y" for nx h y
  proof (rule insert_rec.raw_induct[of "\<lambda>nx v h y. trace h (fst y) (snd y)" nx v h y, OF _ run])
    fix f nx and v :: 'a and h :: "'a heap" and y :: "unit res \<times> 'a heap"
    assume ih: "\<And>nx v h y. f nx v h = Some y \<Longrightarrow> trace h (fst y) (snd y)"
      and b: "and_then (get_node nx h) (\<lambda>n h.
     and_then (deref (value' n) h) (\<lambda>x h.
     and_then (less_T v x h) (\<lambda>l h.
       if l then
         (if left n \<noteq> None then
            and_then (make_shared_copy (left n) h) (\<lambda>c h.
            and_then (set_left nx (Some c) h) (\<lambda>_ h. f c v h))
          else
            and_then (make_shared_value v h) (\<lambda>c h. set_left nx (Some c) h))
       else
         (if right n \<noteq> None then
            and_then (make_shared_copy (right n) h) (\<lambda>c h.
            and_then (set_right nx (Some c) h) (\<lambda>_ h. f c v h))
          else
            and_then (make_shared_value v h) (\<lambda>c h. set_right nx (Some c) h))))) = Some y"
    have ih': "traced (f nx v)" for nx v
      using ih by (fastforce simp: traced_def)
    have "traced (\<lambda>h. and_then (get_node nx h) (\<lambda>n h.
     and_then (deref (value' n) h) (\<lambda>x h.
     and_then (less_T v x h) (\<lambda>l h.
       if l then
         (if left n \<noteq> None then
            and_then (make_shared_copy (left n) h) (\<lambda>c h.
            and_then (set_left nx (Some c) h) (\<lambda>_ h. f c v h))
          else
            and_then (make_shared_value v h) (\<lambda>c h. set_left nx (Some c) h))
       else
         (if right n \<noteq> None then
            and_then (make_shared_copy (right n) h) (\<lambda>c h.
            and_then (set_right nx (Some c) h) (\<lambda>_ h. f c v h))
          else
            and_then (make_shared_value v h) (\<lambda>c h. set_right nx (Some c) h))))))"
      by (rule traced_and_then traced_if traced_get_node traced_deref traced_cmp traced_ret traced_make_shared_copy traced_make_shared_value traced_set_left traced_set_right  ih')+
    from tracedD[OF this, of h "fst y" "snd y"] b show "trace h (fst y) (snd y)" by simp
  qed
  then show ?thesis by (fastforce simp: traced_def)
qed

lemma traced_swap_value: "traced (swap_value p q)"
  unfolding swap_value_def
  by (rule traced_bind traced_get_node traced_set_value)+

lemma traced_erase_impl: "traced (erase_impl parent son)"
  unfolding erase_impl_def
  by (rule traced_bind traced_if' traced_get_node traced_set_left traced_set_right)+

lemma traced_erase_max: "traced (erase_max tp nx :: ('a, addr \<times> addr) prog)"
proof -
  have "trace h (fst y) (snd y)"
    if run: "erase_max tp nx h = Some y" for tp nx and h :: "'a heap" and y
  proof (rule erase_max.raw_induct[of "\<lambda>tp nx h y. trace h (fst y) (snd y)" tp nx h y, OF _ run])
    fix f tp nx and h :: "'a heap" and y :: "(addr \<times> addr) res \<times> 'a heap"
    assume ih: "\<And>tp nx h y. f tp nx h = Some y \<Longrightarrow> trace h (fst y) (snd y)"
      and b: "and_then (get_node nx h) (\<lambda>n h.
       if right n \<noteq> None then
         and_then (make_shared_copy (right n) h) (\<lambda>c h.
         and_then (set_right nx (Some c) h) (\<lambda>_ h. f nx c h))
       else ret (tp, nx) h) = Some y"
    have ih': "traced (f tp nx)" for tp nx
      using ih by (fastforce simp: traced_def)
    have "traced (\<lambda>h. and_then (get_node nx h) (\<lambda>n h.
       if right n \<noteq> None then
         and_then (make_shared_copy (right n) h) (\<lambda>c h.
         and_then (set_right nx (Some c) h) (\<lambda>_ h. f nx c h))
       else ret (tp, nx) h))"
      by (rule traced_and_then traced_if traced_get_node traced_deref traced_cmp traced_ret traced_make_shared_copy traced_make_shared_value traced_set_left traced_set_right  ih')+
    from tracedD[OF this, of h "fst y" "snd y"] b show "trace h (fst y) (snd y)" by simp
  qed
  then show ?thesis by (fastforce simp: traced_def)
qed

lemma traced_erase_loop: "traced (erase_loop v prev nx)"
proof -
  have "trace h (fst y) (snd y)"
    if run: "erase_loop v prev nx h = Some y" for prev nx h y
  proof (rule erase_loop.raw_induct[of "\<lambda>v prev nx h y. trace h (fst y) (snd y)" v prev nx h y, OF _ run])
    fix f prev nx and v :: 'a and h :: "'a heap" and y :: "unit res \<times> 'a heap"
    assume ih: "\<And>v prev nx h y. f v prev nx h = Some y \<Longrightarrow> trace h (fst y) (snd y)"
      and b: "and_then (get_node nx h) (\<lambda>n h.
     and_then (deref (value' n) h) (\<lambda>x h.
     and_then (equal_T x v h) (\<lambda>e h.
       if e then
         (if left n \<noteq> None \<and> right n \<noteq> None then
            and_then (make_shared_copy (left n) h) (\<lambda>c h.
            and_then (set_left nx (Some c) h) (\<lambda>_ h.
            and_then (erase_max nx c h) (\<lambda>ends h.
            and_then (swap_value nx (snd ends) h) (\<lambda>_ h.
              erase_impl (fst ends) (snd ends) h))))
          else erase_impl prev nx h)
       else
         and_then (less_T v x h) (\<lambda>l h.
           if l then
             and_then (make_shared_copy (left n) h) (\<lambda>c h.
             and_then (set_left nx (Some c) h) (\<lambda>_ h. f v nx c h))
           else
             and_then (make_shared_copy (right n) h) (\<lambda>c h.
             and_then (set_right nx (Some c) h) (\<lambda>_ h. f v nx c h)))))) = Some y"
    have ih': "traced (f v prev nx)" for v prev nx
      using ih by (fastforce simp: traced_def)
    have "traced (\<lambda>h. and_then (get_node nx h) (\<lambda>n h.
     and_then (deref (value' n) h) (\<lambda>x h.
     and_then (equal_T x v h) (\<lambda>e h.
       if e then
         (if left n \<noteq> None \<and> right n \<noteq> None then
            and_then (make_shared_copy (left n) h) (\<lambda>c h.
            and_then (set_left nx (Some c) h) (\<lambda>_ h.
            and_then (erase_max nx c h) (\<lambda>ends h.
            and_then (swap_value nx (snd ends) h) (\<lambda>_ h.
              erase_impl (fst ends) (snd ends) h))))
          else erase_impl prev nx h)
       else
         and_then (less_T v x h) (\<lambda>l h.
           if l then
             and_then (make_shared_copy (left n) h) (\<lambda>c h.
             and_then (set_left nx (Some c) h) (\<lambda>_ h. f v nx c h))
           else
             and_then (make_shared_copy (right n) h) (\<lambda>c h.
             and_then (set_right nx (Some c) h) (\<lambda>_ h. f v nx c h)))))))"
      by (rule traced_and_then traced_if traced_get_node traced_deref traced_cmp traced_ret traced_make_shared_copy traced_make_shared_value traced_set_left traced_set_right traced_erase_max traced_swap_value traced_erase_impl ih')+
    from tracedD[OF this, of h "fst y" "snd y"] b show "trace h (fst y) (snd y)" by simp
  qed
  then show ?thesis by (fastforce simp: traced_def)
qed

lemma traced_lower_bound: "traced (lower_bound this v)"
  unfolding lower_bound_def
  by (rule traced_bind traced_get_node traced_lower_bound_rec)+

lemma traced_deref_it: "traced (deref_it it)"
  unfolding deref_it_def
  by (rule traced_bind traced_get_node traced_deref)+

lemma traced_find_set: "traced (find_set this v)"
  unfolding find_set_def
  by (rule traced_bind traced_if' traced_lower_bound traced_deref_it traced_cmp traced_ret)+

lemma traced_insert_try: "traced (insert_try this v)"
  unfolding insert_try_def
  by (rule traced_bind traced_if' traced_get_node traced_make_shared_copy traced_make_shared_value
        traced_insert_rec traced_set_node traced_get_size traced_set_size traced_find_set
        traced_ret)+

lemma traced_insert_set: "traced (insert_set this v)"
  unfolding insert_set_def
  by (rule traced_bind traced_if' traced_find_set traced_ret traced_get_node traced_get_size
        traced_guard traced_insert_try)+

lemma traced_erase_path: "traced (erase_path v prev)"
  unfolding erase_path_def
  by (rule traced_bind traced_get_node traced_make_shared_copy traced_set_left traced_erase_loop)+

lemma traced_erase_try: "traced (erase_try this it)"
  unfolding erase_try_def
  by (rule traced_bind traced_get_node traced_alloc_node traced_deref traced_erase_path
        traced_set_node traced_get_size traced_set_size traced_lower_bound)+

lemma traced_erase: "traced (erase this it)"
  unfolding erase_def
  by (rule traced_bind traced_get_node traced_get_size traced_guard traced_erase_try)+

subsection \<open>Termination under every schedule of exceptions\<close>

lemma followsI:
  "(\<And>h r0 h0. alive s h \<Longrightarrow> m0 (calm h) = Some (r0, h0) \<Longrightarrow>
     \<exists>r h'. m h = Some (r, h') \<and> alive s h' \<and> ((r = r0 \<and> calm h' = h0) \<or> r = Throw))
   \<Longrightarrow> follows s m0 m"
  by (auto simp: follows_def)

lemma followsD:
  "follows s m0 m \<Longrightarrow> alive s h \<Longrightarrow> m0 (calm h) = Some (r0, h0) \<Longrightarrow>
     \<exists>r h'. m h = Some (r, h') \<and> alive s h' \<and> ((r = r0 \<and> calm h' = h0) \<or> r = Throw)"
  by (fastforce simp: follows_def)

lemma follows_and_then:
  assumes m: "follows s m0 m" and k: "\<And>x. follows s (k0 x) (k x)"
  shows "follows s (\<lambda>h. and_then (m0 h) k0) (\<lambda>h. and_then (m h) k)"
proof (rule followsI)
  fix h r0 h0
  assume a: "alive s h" and run: "and_then (m0 (calm h)) k0 = Some (r0, h0)"
  from run obtain r1 h1 where m1: "m0 (calm h) = Some (r1, h1)"
    by (cases "m0 (calm h)") (auto simp: and_then_def)
  from followsD[OF m a m1] obtain r h' where
    1: "m h = Some (r, h')" "alive s h'" "(r = r1 \<and> calm h' = h1) \<or> r = Throw" by blast
  show "\<exists>r h'. and_then (m h) k = Some (r, h') \<and> alive s h' \<and>
      ((r = r0 \<and> calm h' = h0) \<or> r = Throw)"
  proof (cases "r = Throw")
    case True
    with 1 show ?thesis by (auto simp: and_then_def)
  next
    case False
    with 1 have e: "r = r1" "calm h' = h1" by auto
    show ?thesis
    proof (cases r1)
      case (Ret x)
      with run m1 e have "k0 x (calm h') = Some (r0, h0)" by (simp add: and_then_def)
      from followsD[OF k 1(2) this] 1(1) e Ret show ?thesis by (simp add: and_then_def)
    next
      case Throw
      with e False show ?thesis by simp
    next
      case UB
      with run m1 1 e show ?thesis by (auto simp: and_then_def)
    qed
  qed
qed

lemma follows_bind:
  "follows s m0 m \<Longrightarrow> (\<And>x. follows s (k0 x) (k x)) \<Longrightarrow> follows s (bind m0 k0) (bind m k)"
  using follows_and_then[of s m0 m k0 k] by (simp add: bind_def[abs_def])

lemma follows_if:
  "(c \<Longrightarrow> follows s (\<lambda>h. A0 h) (\<lambda>h. A h)) \<Longrightarrow> (\<not> c \<Longrightarrow> follows s (\<lambda>h. B0 h) (\<lambda>h. B h)) \<Longrightarrow>
   follows s (\<lambda>h. if c then A0 h else B0 h) (\<lambda>h. if c then A h else B h)"
  by (auto simp: follows_def)

lemma follows_if':
  "(c \<Longrightarrow> follows s A0 A) \<Longrightarrow> (\<not> c \<Longrightarrow> follows s B0 B) \<Longrightarrow>
   follows s (if c then A0 else B0) (if c then A else B)"
  by (auto simp: follows_def)

lemma follows_guard:
  assumes b: "follows s b0 b"
  shows "follows s (try_catch b0 (restore s bu bs)) (try_catch b (restore s bu bs))"
proof (rule followsI)
  fix h r0 h0
  assume a: "alive s h" and run: "try_catch b0 (restore s bu bs) (calm h) = Some (r0, h0)"
  from run obtain r1 h1 where m1: "b0 (calm h) = Some (r1, h1)"
    by (cases "b0 (calm h)") (auto simp: try_catch_def)
  from followsD[OF b a m1] obtain r h' where
    1: "b h = Some (r, h')" "alive s h'" "(r = r1 \<and> calm h' = h1) \<or> r = Throw" by blast
  have R: "\<exists>h''. restore s bu bs h' = Some (Throw, h'') \<and> alive s h''"
    using 1(2)
    by (auto simp: restore_def bind_def set_node_def set_size_def throw_def and_then_def alive_def)
  show "\<exists>r h'. try_catch b (restore s bu bs) h = Some (r, h') \<and> alive s h' \<and>
      ((r = r0 \<and> calm h' = h0) \<or> r = Throw)"
  proof (cases "r = Throw")
    case True
    with 1 R show ?thesis by (auto simp: try_catch_def)
  next
    case False
    with 1 have e: "r = r1" "calm h' = h1" by auto
    with False run m1 have "r0 = r1" "h0 = h1" by (cases r1; simp add: try_catch_def)+
    with 1 e False show ?thesis by (cases r1) (auto simp: try_catch_def)
  qed
qed

lemma follows_ret: "follows s (ret x) (ret x)"
  by (auto simp: follows_def ret_def)

lemma follows_undef: "follows s undef undef"
  by (auto simp: follows_def undef_def)

lemma follows_may_throw: "follows s may_throw may_throw"
  by (auto simp: follows_def may_throw_def calm_def alive_def split: list.splits)

lemma follows_get_node: "follows s (get_node p) (get_node p)"
  by (auto simp: follows_def get_node_def calm_def alive_def split: option.splits)

lemma follows_get_size: "follows s (get_size p) (get_size p)"
  by (auto simp: follows_def get_size_def calm_def alive_def split: option.splits)

lemma follows_deref: "follows s (deref p) (deref p)"
  by (auto simp: follows_def deref_def calm_def alive_def split: option.splits)

lemma follows_set_node: "follows s (set_node p n) (set_node p n)"
  by (auto simp: follows_def set_node_def calm_def alive_def split: option.splits)

lemma follows_set_left: "follows s (set_left p n) (set_left p n)"
  by (auto simp: follows_def set_left_def calm_def alive_def split: option.splits)

lemma follows_set_right: "follows s (set_right p n) (set_right p n)"
  by (auto simp: follows_def set_right_def calm_def alive_def split: option.splits)

lemma follows_set_value: "follows s (set_value p n) (set_value p n)"
  by (auto simp: follows_def set_value_def calm_def alive_def split: option.splits)

lemma follows_set_size: "follows s (set_size p n) (set_size p n)"
  by (auto simp: follows_def set_size_def calm_def alive_def split: option.splits)

lemma follows_alloc_node: "follows s (alloc_node n) (alloc_node n)"
  by (auto simp: follows_def alloc_node_def calm_def alive_def)

lemma follows_alloc_val: "follows s (alloc_val n) (alloc_val n)"
  by (auto simp: follows_def alloc_val_def calm_def alive_def)

lemma follows_cmp:
  "follows s (equal_T x y) (equal_T x y)" "follows s (not_equal_T x y) (not_equal_T x y)"
  "follows s (less_T v w) (less_T v w)" "follows s (greater_T v w) (greater_T v w)"
  unfolding equal_T_def not_equal_T_def less_T_def greater_T_def
  by (rule follows_bind[OF follows_may_throw follows_ret])+

lemma follows_make_shared_copy: "follows s (make_shared_copy sp) (make_shared_copy sp)"
  unfolding make_shared_copy_def
  by (cases sp)
     (auto intro!: follows_undef follows_bind follows_get_node follows_may_throw follows_alloc_node)

lemma follows_make_shared_value: "follows s (make_shared_value v) (make_shared_value v)"
  unfolding make_shared_value_def
  by (rule follows_bind follows_may_throw follows_alloc_node follows_alloc_val follows_set_value
        follows_ret)+

lemma follows_swap_value: "follows s (swap_value p q) (swap_value p q)"
  unfolding swap_value_def
  by (rule follows_bind follows_get_node follows_set_value)+

lemma follows_erase_impl: "follows s (erase_impl parent son) (erase_impl parent son)"
  unfolding erase_impl_def
  by (rule follows_bind follows_if' follows_get_node follows_set_left follows_set_right)+

lemma follows_lower_bound_rec: "follows s (lower_bound_rec this p v) (lower_bound_rec this p v)"
proof -
  have "(\<forall>h. h0 = calm h \<longrightarrow> alive s h \<longrightarrow> (\<exists>r h'. lower_bound_rec this p v h = Some (r, h') \<and> alive s h' \<and> ((r = fst y0 \<and> calm h' = snd y0) \<or> r = Throw)))"
    if run: "lower_bound_rec this p v h0 = Some y0" for p h0 y0
  proof (rule lower_bound_rec.raw_induct[of "\<lambda>this p v h0 y0. (\<forall>h. h0 = calm h \<longrightarrow> alive s h \<longrightarrow> (\<exists>r h'. lower_bound_rec this p v h = Some (r, h') \<and> alive s h' \<and> ((r = fst y0 \<and> calm h' = snd y0) \<or> r = Throw)))" this p v h0 y0, OF _ run])
    fix f this p and v :: 'a and h0 :: "'a heap" and y0 :: "iterator res \<times> 'a heap"
    assume ih: "\<And>this p v h0 y0. f this p v h0 = Some y0 \<Longrightarrow> (\<forall>h. h0 = calm h \<longrightarrow> alive s h \<longrightarrow> (\<exists>r h'. lower_bound_rec this p v h = Some (r, h') \<and> alive s h' \<and> ((r = fst y0 \<and> calm h' = snd y0) \<or> r = Throw)))"
      and b: "(case p of None \<Rightarrow> ret (end_it this) h0
      | Some p \<Rightarrow>
          and_then (get_node p h0) (\<lambda>n h.
          and_then (deref (value' n) h) (\<lambda>x h.
          and_then (equal_T x v h) (\<lambda>e h.
            if e then ret \<lparr>node_ptr = p, set_ptr = this\<rparr> h
            else and_then (greater_T v x h) (\<lambda>g h.
              if g then f this (right n) v h
              else and_then (f this (left n) v h) (\<lambda>it h.
                if it = end_it this then ret \<lparr>node_ptr = p, set_ptr = this\<rparr> h
                else ret it h)))))) = Some y0"
    have ih': "follows s (f this p v) (lower_bound_rec this p v)" for this p v
      unfolding follows_def
    proof (intro allI impI)
      fix h y0 assume "alive s h" "f this p v (calm h) = Some y0"
      with ih[of this p v "calm h" y0]
      show "\<exists>r h'. lower_bound_rec this p v h = Some (r, h') \<and> alive s h' \<and> ((r = fst y0 \<and> calm h' = snd y0) \<or> r = Throw)"
        by blast
    qed
    show "(\<forall>h. h0 = calm h \<longrightarrow> alive s h \<longrightarrow> (\<exists>r h'. lower_bound_rec this p v h = Some (r, h') \<and> alive s h' \<and> ((r = fst y0 \<and> calm h' = snd y0) \<or> r = Throw)))"
    proof (intro allI impI)
      fix h assume h0: "h0 = calm h" and a: "alive s h"
      show "\<exists>r h'. lower_bound_rec this p v h = Some (r, h') \<and> alive s h' \<and> ((r = fst y0 \<and> calm h' = snd y0) \<or> r = Throw)"
      proof (cases p)
        case None
        with b h0 a show ?thesis by (subst lower_bound_rec.simps) (auto simp: ret_def calm_def)
      next
        case (Some a')
        have "follows s (\<lambda>h0. and_then (get_node a' h0) (\<lambda>n h.
          and_then (deref (value' n) h) (\<lambda>x h.
          and_then (equal_T x v h) (\<lambda>e h.
            if e then ret \<lparr>node_ptr = a', set_ptr = this\<rparr> h
            else and_then (greater_T v x h) (\<lambda>g h.
              if g then f this (right n) v h
              else and_then (f this (left n) v h) (\<lambda>it h.
                if it = end_it this then ret \<lparr>node_ptr = a', set_ptr = this\<rparr> h
                else ret it h)))))) (\<lambda>h0. and_then (get_node a' h0) (\<lambda>n h.
          and_then (deref (value' n) h) (\<lambda>x h.
          and_then (equal_T x v h) (\<lambda>e h.
            if e then ret \<lparr>node_ptr = a', set_ptr = this\<rparr> h
            else and_then (greater_T v x h) (\<lambda>g h.
              if g then lower_bound_rec this (right n) v h
              else and_then (lower_bound_rec this (left n) v h) (\<lambda>it h.
                if it = end_it this then ret \<lparr>node_ptr = a', set_ptr = this\<rparr> h
                else ret it h))))))"
          by (rule follows_and_then follows_if follows_get_node follows_deref follows_cmp follows_ret follows_make_shared_copy follows_make_shared_value follows_set_left follows_set_right  ih')+
        from followsD[OF this a, of "fst y0" "snd y0"] b h0 Some
        show ?thesis by (subst lower_bound_rec.simps) simp
      qed
    qed
  qed
  then show ?thesis by (fastforce simp: follows_def)
qed

lemma follows_insert_rec: "follows s (insert_rec nx v) (insert_rec nx v)"
proof -
  have "(\<forall>h. h0 = calm h \<longrightarrow> alive s h \<longrightarrow> (\<exists>r h'. insert_rec nx v h = Some (r, h') \<and> alive s h' \<and> ((r = fst y0 \<and> calm h' = snd y0) \<or> r = Throw)))"
    if run: "insert_rec nx v h0 = Some y0" for nx h0 y0
  proof (rule insert_rec.raw_induct[of "\<lambda>nx v h0 y0. (\<forall>h. h0 = calm h \<longrightarrow> alive s h \<longrightarrow> (\<exists>r h'. insert_rec nx v h = Some (r, h') \<and> alive s h' \<and> ((r = fst y0 \<and> calm h' = snd y0) \<or> r = Throw)))" nx v h0 y0, OF _ run])
    fix f nx and v :: 'a and h0 :: "'a heap" and y0 :: "unit res \<times> 'a heap"
    assume ih: "\<And>nx v h0 y0. f nx v h0 = Some y0 \<Longrightarrow> (\<forall>h. h0 = calm h \<longrightarrow> alive s h \<longrightarrow> (\<exists>r h'. insert_rec nx v h = Some (r, h') \<and> alive s h' \<and> ((r = fst y0 \<and> calm h' = snd y0) \<or> r = Throw)))"
      and b: "and_then (get_node nx h0) (\<lambda>n h.
     and_then (deref (value' n) h) (\<lambda>x h.
     and_then (less_T v x h) (\<lambda>l h.
       if l then
         (if left n \<noteq> None then
            and_then (make_shared_copy (left n) h) (\<lambda>c h.
            and_then (set_left nx (Some c) h) (\<lambda>_ h. f c v h))
          else
            and_then (make_shared_value v h) (\<lambda>c h. set_left nx (Some c) h))
       else
         (if right n \<noteq> None then
            and_then (make_shared_copy (right n) h) (\<lambda>c h.
            and_then (set_right nx (Some c) h) (\<lambda>_ h. f c v h))
          else
            and_then (make_shared_value v h) (\<lambda>c h. set_right nx (Some c) h))))) = Some y0"
    have ih': "follows s (f nx v) (insert_rec nx v)" for nx v
      unfolding follows_def
    proof (intro allI impI)
      fix h y0 assume "alive s h" "f nx v (calm h) = Some y0"
      with ih[of nx v "calm h" y0]
      show "\<exists>r h'. insert_rec nx v h = Some (r, h') \<and> alive s h' \<and> ((r = fst y0 \<and> calm h' = snd y0) \<or> r = Throw)"
        by blast
    qed
    show "(\<forall>h. h0 = calm h \<longrightarrow> alive s h \<longrightarrow> (\<exists>r h'. insert_rec nx v h = Some (r, h') \<and> alive s h' \<and> ((r = fst y0 \<and> calm h' = snd y0) \<or> r = Throw)))"
    proof (intro allI impI)
      fix h assume h0: "h0 = calm h" and a: "alive s h"
      have "follows s (\<lambda>h0. and_then (get_node nx h0) (\<lambda>n h.
     and_then (deref (value' n) h) (\<lambda>x h.
     and_then (less_T v x h) (\<lambda>l h.
       if l then
         (if left n \<noteq> None then
            and_then (make_shared_copy (left n) h) (\<lambda>c h.
            and_then (set_left nx (Some c) h) (\<lambda>_ h. f c v h))
          else
            and_then (make_shared_value v h) (\<lambda>c h. set_left nx (Some c) h))
       else
         (if right n \<noteq> None then
            and_then (make_shared_copy (right n) h) (\<lambda>c h.
            and_then (set_right nx (Some c) h) (\<lambda>_ h. f c v h))
          else
            and_then (make_shared_value v h) (\<lambda>c h. set_right nx (Some c) h)))))) (\<lambda>h0. and_then (get_node nx h0) (\<lambda>n h.
     and_then (deref (value' n) h) (\<lambda>x h.
     and_then (less_T v x h) (\<lambda>l h.
       if l then
         (if left n \<noteq> None then
            and_then (make_shared_copy (left n) h) (\<lambda>c h.
            and_then (set_left nx (Some c) h) (\<lambda>_ h. insert_rec c v h))
          else
            and_then (make_shared_value v h) (\<lambda>c h. set_left nx (Some c) h))
       else
         (if right n \<noteq> None then
            and_then (make_shared_copy (right n) h) (\<lambda>c h.
            and_then (set_right nx (Some c) h) (\<lambda>_ h. insert_rec c v h))
          else
            and_then (make_shared_value v h) (\<lambda>c h. set_right nx (Some c) h))))))"
        by (rule follows_and_then follows_if follows_get_node follows_deref follows_cmp follows_ret follows_make_shared_copy follows_make_shared_value follows_set_left follows_set_right  ih')+
      from followsD[OF this a, of "fst y0" "snd y0"] b h0
      show "\<exists>r h'. insert_rec nx v h = Some (r, h') \<and> alive s h' \<and> ((r = fst y0 \<and> calm h' = snd y0) \<or> r = Throw)"
        by (subst insert_rec.simps) simp
    qed
  qed
  then show ?thesis by (fastforce simp: follows_def)
qed

lemma follows_erase_max: "follows s (erase_max tp nx :: ('a, addr \<times> addr) prog) (erase_max tp nx)"
proof -
  have "(\<forall>h. h0 = calm h \<longrightarrow> alive s h \<longrightarrow> (\<exists>r h'. erase_max tp nx h = Some (r, h') \<and> alive s h' \<and> ((r = fst y0 \<and> calm h' = snd y0) \<or> r = Throw)))"
    if run: "erase_max tp nx h0 = Some y0" for tp nx and h0 :: "'a heap" and y0
  proof (rule erase_max.raw_induct[of "\<lambda>tp nx h0 y0. (\<forall>h. h0 = calm h \<longrightarrow> alive s h \<longrightarrow> (\<exists>r h'. erase_max tp nx h = Some (r, h') \<and> alive s h' \<and> ((r = fst y0 \<and> calm h' = snd y0) \<or> r = Throw)))" tp nx h0 y0, OF _ run])
    fix f tp nx and h0 :: "'a heap" and y0 :: "(addr \<times> addr) res \<times> 'a heap"
    assume ih: "\<And>tp nx h0 y0. f tp nx h0 = Some y0 \<Longrightarrow> (\<forall>h. h0 = calm h \<longrightarrow> alive s h \<longrightarrow> (\<exists>r h'. erase_max tp nx h = Some (r, h') \<and> alive s h' \<and> ((r = fst y0 \<and> calm h' = snd y0) \<or> r = Throw)))"
      and b: "and_then (get_node nx h0) (\<lambda>n h.
       if right n \<noteq> None then
         and_then (make_shared_copy (right n) h) (\<lambda>c h.
         and_then (set_right nx (Some c) h) (\<lambda>_ h. f nx c h))
       else ret (tp, nx) h) = Some y0"
    have ih': "follows s (f tp nx) (erase_max tp nx)" for tp nx
      unfolding follows_def
    proof (intro allI impI)
      fix h y0 assume "alive s h" "f tp nx (calm h) = Some y0"
      with ih[of tp nx "calm h" y0]
      show "\<exists>r h'. erase_max tp nx h = Some (r, h') \<and> alive s h' \<and> ((r = fst y0 \<and> calm h' = snd y0) \<or> r = Throw)"
        by blast
    qed
    show "(\<forall>h. h0 = calm h \<longrightarrow> alive s h \<longrightarrow> (\<exists>r h'. erase_max tp nx h = Some (r, h') \<and> alive s h' \<and> ((r = fst y0 \<and> calm h' = snd y0) \<or> r = Throw)))"
    proof (intro allI impI)
      fix h assume h0: "h0 = calm h" and a: "alive s h"
      have "follows s (\<lambda>h0. and_then (get_node nx h0) (\<lambda>n h.
       if right n \<noteq> None then
         and_then (make_shared_copy (right n) h) (\<lambda>c h.
         and_then (set_right nx (Some c) h) (\<lambda>_ h. f nx c h))
       else ret (tp, nx) h)) (\<lambda>h0. and_then (get_node nx h0) (\<lambda>n h.
       if right n \<noteq> None then
         and_then (make_shared_copy (right n) h) (\<lambda>c h.
         and_then (set_right nx (Some c) h) (\<lambda>_ h. erase_max nx c h))
       else ret (tp, nx) h))"
        by (rule follows_and_then follows_if follows_get_node follows_deref follows_cmp follows_ret follows_make_shared_copy follows_make_shared_value follows_set_left follows_set_right  ih')+
      from followsD[OF this a, of "fst y0" "snd y0"] b h0
      show "\<exists>r h'. erase_max tp nx h = Some (r, h') \<and> alive s h' \<and> ((r = fst y0 \<and> calm h' = snd y0) \<or> r = Throw)"
        by (subst erase_max.simps) simp
    qed
  qed
  then show ?thesis by (fastforce simp: follows_def)
qed

lemma follows_erase_loop: "follows s (erase_loop v prev nx) (erase_loop v prev nx)"
proof -
  have "(\<forall>h. h0 = calm h \<longrightarrow> alive s h \<longrightarrow> (\<exists>r h'. erase_loop v prev nx h = Some (r, h') \<and> alive s h' \<and> ((r = fst y0 \<and> calm h' = snd y0) \<or> r = Throw)))"
    if run: "erase_loop v prev nx h0 = Some y0" for prev nx h0 y0
  proof (rule erase_loop.raw_induct[of "\<lambda>v prev nx h0 y0. (\<forall>h. h0 = calm h \<longrightarrow> alive s h \<longrightarrow> (\<exists>r h'. erase_loop v prev nx h = Some (r, h') \<and> alive s h' \<and> ((r = fst y0 \<and> calm h' = snd y0) \<or> r = Throw)))" v prev nx h0 y0, OF _ run])
    fix f prev nx and v :: 'a and h0 :: "'a heap" and y0 :: "unit res \<times> 'a heap"
    assume ih: "\<And>v prev nx h0 y0. f v prev nx h0 = Some y0 \<Longrightarrow> (\<forall>h. h0 = calm h \<longrightarrow> alive s h \<longrightarrow> (\<exists>r h'. erase_loop v prev nx h = Some (r, h') \<and> alive s h' \<and> ((r = fst y0 \<and> calm h' = snd y0) \<or> r = Throw)))"
      and b: "and_then (get_node nx h0) (\<lambda>n h.
     and_then (deref (value' n) h) (\<lambda>x h.
     and_then (equal_T x v h) (\<lambda>e h.
       if e then
         (if left n \<noteq> None \<and> right n \<noteq> None then
            and_then (make_shared_copy (left n) h) (\<lambda>c h.
            and_then (set_left nx (Some c) h) (\<lambda>_ h.
            and_then (erase_max nx c h) (\<lambda>ends h.
            and_then (swap_value nx (snd ends) h) (\<lambda>_ h.
              erase_impl (fst ends) (snd ends) h))))
          else erase_impl prev nx h)
       else
         and_then (less_T v x h) (\<lambda>l h.
           if l then
             and_then (make_shared_copy (left n) h) (\<lambda>c h.
             and_then (set_left nx (Some c) h) (\<lambda>_ h. f v nx c h))
           else
             and_then (make_shared_copy (right n) h) (\<lambda>c h.
             and_then (set_right nx (Some c) h) (\<lambda>_ h. f v nx c h)))))) = Some y0"
    have ih': "follows s (f v prev nx) (erase_loop v prev nx)" for v prev nx
      unfolding follows_def
    proof (intro allI impI)
      fix h y0 assume "alive s h" "f v prev nx (calm h) = Some y0"
      with ih[of v prev nx "calm h" y0]
      show "\<exists>r h'. erase_loop v prev nx h = Some (r, h') \<and> alive s h' \<and> ((r = fst y0 \<and> calm h' = snd y0) \<or> r = Throw)"
        by blast
    qed
    show "(\<forall>h. h0 = calm h \<longrightarrow> alive s h \<longrightarrow> (\<exists>r h'. erase_loop v prev nx h = Some (r, h') \<and> alive s h' \<and> ((r = fst y0 \<and> calm h' = snd y0) \<or> r = Throw)))"
    proof (intro allI impI)
      fix h assume h0: "h0 = calm h" and a: "alive s h"
      have "follows s (\<lambda>h0. and_then (get_node nx h0) (\<lambda>n h.
     and_then (deref (value' n) h) (\<lambda>x h.
     and_then (equal_T x v h) (\<lambda>e h.
       if e then
         (if left n \<noteq> None \<and> right n \<noteq> None then
            and_then (make_shared_copy (left n) h) (\<lambda>c h.
            and_then (set_left nx (Some c) h) (\<lambda>_ h.
            and_then (erase_max nx c h) (\<lambda>ends h.
            and_then (swap_value nx (snd ends) h) (\<lambda>_ h.
              erase_impl (fst ends) (snd ends) h))))
          else erase_impl prev nx h)
       else
         and_then (less_T v x h) (\<lambda>l h.
           if l then
             and_then (make_shared_copy (left n) h) (\<lambda>c h.
             and_then (set_left nx (Some c) h) (\<lambda>_ h. f v nx c h))
           else
             and_then (make_shared_copy (right n) h) (\<lambda>c h.
             and_then (set_right nx (Some c) h) (\<lambda>_ h. f v nx c h))))))) (\<lambda>h0. and_then (get_node nx h0) (\<lambda>n h.
     and_then (deref (value' n) h) (\<lambda>x h.
     and_then (equal_T x v h) (\<lambda>e h.
       if e then
         (if left n \<noteq> None \<and> right n \<noteq> None then
            and_then (make_shared_copy (left n) h) (\<lambda>c h.
            and_then (set_left nx (Some c) h) (\<lambda>_ h.
            and_then (erase_max nx c h) (\<lambda>ends h.
            and_then (swap_value nx (snd ends) h) (\<lambda>_ h.
              erase_impl (fst ends) (snd ends) h))))
          else erase_impl prev nx h)
       else
         and_then (less_T v x h) (\<lambda>l h.
           if l then
             and_then (make_shared_copy (left n) h) (\<lambda>c h.
             and_then (set_left nx (Some c) h) (\<lambda>_ h. erase_loop v nx c h))
           else
             and_then (make_shared_copy (right n) h) (\<lambda>c h.
             and_then (set_right nx (Some c) h) (\<lambda>_ h. erase_loop v nx c h)))))))"
        by (rule follows_and_then follows_if follows_get_node follows_deref follows_cmp follows_ret follows_make_shared_copy follows_make_shared_value follows_set_left follows_set_right follows_erase_max follows_swap_value follows_erase_impl ih')+
      from followsD[OF this a, of "fst y0" "snd y0"] b h0
      show "\<exists>r h'. erase_loop v prev nx h = Some (r, h') \<and> alive s h' \<and> ((r = fst y0 \<and> calm h' = snd y0) \<or> r = Throw)"
        by (subst erase_loop.simps) simp
    qed
  qed
  then show ?thesis by (fastforce simp: follows_def)
qed

lemma follows_lower_bound: "follows s (lower_bound this v) (lower_bound this v)"
  unfolding lower_bound_def
  by (rule follows_bind follows_get_node follows_lower_bound_rec)+

lemma follows_deref_it: "follows s (deref_it it) (deref_it it)"
  unfolding deref_it_def
  by (rule follows_bind follows_get_node follows_deref)+

lemma follows_find_set: "follows s (find_set this v) (find_set this v)"
  unfolding find_set_def
  by (rule follows_bind follows_if' follows_lower_bound follows_deref_it follows_cmp follows_ret)+

lemma follows_insert_try: "follows s (insert_try this v) (insert_try this v)"
  unfolding insert_try_def
  by (rule follows_bind follows_if' follows_get_node follows_make_shared_copy
        follows_make_shared_value follows_insert_rec follows_set_node follows_get_size
        follows_set_size follows_find_set follows_ret)+

lemma follows_insert_set: "follows s (insert_set s v) (insert_set s v)"
  unfolding insert_set_def
  by (rule follows_bind follows_if' follows_find_set follows_ret follows_get_node follows_get_size
        follows_guard follows_insert_try)+

lemma follows_erase_path: "follows s (erase_path v prev) (erase_path v prev)"
  unfolding erase_path_def
  by (rule follows_bind follows_get_node follows_make_shared_copy follows_set_left
        follows_erase_loop)+

lemma follows_erase_try: "follows s (erase_try this it) (erase_try this it)"
  unfolding erase_try_def
  by (rule follows_bind follows_get_node follows_alloc_node follows_deref follows_erase_path
        follows_set_node follows_get_size follows_set_size follows_lower_bound)+

lemma follows_erase: "follows s (erase s it) (erase s it)"
  unfolding erase_def
  by (rule follows_bind follows_get_node follows_get_size follows_guard follows_erase_try)+

lemma replicate_False_True:
  "replicate j False @ xs = replicate k False @ True # xs \<Longrightarrow> R"
proof -
  assume a: "replicate j False @ xs = replicate k False @ True # xs"
  then have "length (replicate j False @ xs) = length (replicate k False @ True # xs)" by simp
  then have "j = Suc k" by simp
  with a have "replicate k False @ False # xs = replicate k False @ True # xs"
    by (simp add: replicate_app_Cons_same)
  then show R by simp
qed

lemma insert_set_any_faults:
  assumes p: "pset h s t"
  shows "\<exists>r h'. insert_set s v h = Some (r, h') \<and>
     (r = Throw \<or> (\<exists>it. r = Ret (it, v \<notin> elems t) \<and>
        pset h' s (if v \<in> elems t then t else ins v t)))"
proof -
  from p have p0: "pset (calm h) s t" by (simp add: calm_def)
  from insert_set_ok[OF p0, of v] obtain it h1 where
    1: "insert_set s v (calm h) = Some (Ret (it, v \<notin> elems t), h1)"
       "pset h1 s (if v \<in> elems t then t else ins v t)" by (auto simp: calm_def)
  from psetD[OF p] have a: "alive s h" by (auto simp: alive_def)
  from followsD[OF follows_insert_set a 1(1)] obtain r h' where
    2: "insert_set s v h = Some (r, h')" "(r = Ret (it, v \<notin> elems t) \<and> calm h' = h1) \<or> r = Throw"
    by blast
  from 2(2) 1(2) have "r = Throw \<or> (r = Ret (it, v \<notin> elems t) \<and>
        pset h' s (if v \<in> elems t then t else ins v t))"
    by (auto simp: calm_def)
  with 2(1) show ?thesis by blast
qed

lemma erase_any_faults:
  assumes p: "pset h s t" and hx: "holds h (node_ptr it) x" and x: "x \<in> elems t"
  shows "\<exists>r h'. erase s it h = Some (r, h') \<and>
     (r = Throw \<or> (\<exists>it'. r = Ret it' \<and> pset h' s (del x t)))"
proof -
  from p have p0: "pset (calm h) s t" by (simp add: calm_def)
  from hx have h0: "holds (calm h) (node_ptr it) x" by (auto simp: calm_def holds_def split: option.splits)
  from erase_ok[OF p0 _ h0 x] obtain it' h1 where
    1: "erase s it (calm h) = Some (Ret it', h1)" "pset h1 s (del x t)"
    by (auto simp: calm_def)
  from psetD[OF p] have a: "alive s h" by (auto simp: alive_def)
  from followsD[OF follows_erase a 1(1)] obtain r h' where
    2: "erase s it h = Some (r, h')" "(r = Ret it' \<and> calm h' = h1) \<or> r = Throw"
    by blast
  from 2(2) 1(2) have "r = Throw \<or> (r = Ret it' \<and> pset h' s (del x t))"
    by (auto simp: calm_def)
  with 2(1) show ?thesis by blast
qed

subsection \<open>Sets that share nodes and sets that do not\<close>

lemma tree_addrs_holds:
  "tree_at h A p t \<Longrightarrow> a \<in> tree_addrs h p t \<Longrightarrow> a \<in> A \<and> (\<exists>x\<in>elems t. holds h a x)"
proof (induction t arbitrary: p)
  case Leaf
  then show ?case by simp
next
  case (Node l x r)
  from tree_at_NodeD[OF Node.prems(1)] obtain q n where
    q: "p = Some q" "q \<in> A" "nodes h q = Some n" "holds h q x"
      "tree_at h A (left n) l" "tree_at h A (right n) r" by blast
  from Node.prems(2) q consider "a = q" | "a \<in> tree_addrs h (left n) l"
    | "a \<in> tree_addrs h (right n) r" by auto
  then show ?case
  proof cases
    case 1
    with q show ?thesis by auto
  next
    case 2
    from Node.IH(1)[OF q(5) 2] show ?thesis by auto
  next
    case 3
    from Node.IH(2)[OF q(6) 3] show ?thesis by auto
  qed
qed

lemma tree_addrs_root:
  "tree_at h A p (Node l x r) \<Longrightarrow> \<exists>a. p = Some a \<and> a \<in> tree_addrs h p (Node l x r)"
  by (auto split: option.splits)

lemma set_equal_ok:
  assumes "nodes h a = Some ra" and "m_size h a = Some na"
    and "nodes h b = Some rb" and "m_size h b = Some nb"
  shows "set_equal a b h =
       Some (Ret (left ra = left rb \<and> right ra = right rb \<and> value' ra = value' rb \<and> na = nb), h)"
  using assms
  by (auto simp: set_equal_def bind_def get_node_ok get_size_ok ret_def node_equal_def)

lemma insert_set_young:
  assumes p: "pset h s t" and nf: "faults h = []"
    and y: "\<forall>r c. nodes h s = Some r \<longrightarrow> left r = Some c \<longrightarrow> s < c"
  shows "\<exists>it h'. insert_set s v h = Some (Ret (it, v \<notin> elems t), h') \<and>
     pset h' s (if v \<in> elems t then t else ins v t) \<and> faults h' = [] \<and>
     (\<forall>r c. nodes h' s = Some r \<longrightarrow> left r = Some c \<longrightarrow> s < c)"
proof (cases "v \<in> elems t")
  case True
  from insert_set_old[OF p nf True] p nf y True show ?thesis by auto
next
  case False
  from psetD[OF p] have "s < brk h" by auto
  with insert_set_new[OF p nf False] False show ?thesis by auto
qed

lemma insert_all_young:
  "pset h s t \<Longrightarrow> faults h = [] \<Longrightarrow>
   \<forall>r c. nodes h s = Some r \<longrightarrow> left r = Some c \<longrightarrow> s < c \<Longrightarrow>
   \<exists>h' t'. insert_all s vs h = Some (Ret (), h') \<and> pset h' s t' \<and> elems t' = elems t \<union> set vs \<and>
     faults h' = [] \<and> (\<forall>r c. nodes h' s = Some r \<longrightarrow> left r = Some c \<longrightarrow> s < c)"
proof (induction vs arbitrary: h t)
  case Nil
  then show ?case by (auto simp: ret_def)
next
  case (Cons v vs)
  from insert_set_young[OF Cons.prems, of v] obtain it h1 where
    1: "insert_set s v h = Some (Ret (it, v \<notin> elems t), h1)"
      "pset h1 s (if v \<in> elems t then t else ins v t)" "faults h1 = []"
      "\<forall>r c. nodes h1 s = Some r \<longrightarrow> left r = Some c \<longrightarrow> s < c" by blast
  from Cons.IH[OF 1(2,3,4)] obtain h' t' where
    2: "insert_all s vs h1 = Some (Ret (), h')" "pset h' s t'"
      "elems t' = elems (if v \<in> elems t then t else ins v t) \<union> set vs" "faults h' = []"
      "\<forall>r c. nodes h' s = Some r \<longrightarrow> left r = Some c \<longrightarrow> s < c" by blast
  from 2(3) have "elems t' = elems t \<union> set (v # vs)" by (auto simp: elems_ins)
  with 1(1) 2 show ?case by (auto simp: bind_def)
qed

lemma safe_insert_all: "this \<notin> P \<Longrightarrow> safe P (insert_all this vs) (\<lambda>_. True)"
  by (induction vs) (auto intro!: safe_ret safe_bind safe_insert_set)

lemma build_ok:
  assumes nf: "faults h = []"
  shows "\<exists>h' t. build vs h = Some (Ret (brk h), h') \<and> pset h' (brk h) t \<and> elems t = set vs \<and>
     faults h' = [] \<and> (\<forall>r c. nodes h' (brk h) = Some r \<longrightarrow> left r = Some c \<longrightarrow> brk h < c) \<and>
     pres {..<brk h} h h'"
proof -
  let ?h1 = "h\<lparr>nodes := (nodes h)(brk h \<mapsto> \<lparr>value' = None, left = None, right = None\<rparr>),
       m_size := (m_size h)(brk h \<mapsto> 0), brk := Suc (brk h)\<rparr>"
  from new_set_ok[of h] have n: "new_set h = Some (Ret (brk h), ?h1)" "pset ?h1 (brk h) Leaf"
    by auto
  have nf1: "faults ?h1 = []" using nf by simp
  have y1: "\<forall>r c. nodes ?h1 (brk h) = Some r \<longrightarrow> left r = Some c \<longrightarrow> brk h < c" by simp
  from insert_all_young[OF n(2) nf1 y1, of vs] obtain h' t where
    a: "insert_all (brk h) vs ?h1 = Some (Ret (), h')" "pset h' (brk h) t" "elems t = set vs"
      "faults h' = []" "\<forall>r c. nodes h' (brk h) = Some r \<longrightarrow> left r = Some c \<longrightarrow> brk h < c"
    by auto
  have p01: "pres {..<brk h} h ?h1" by (auto simp: pres_def)
  have "safe {..<brk h} (insert_all (brk h) vs) (\<lambda>_. True)" by (rule safe_insert_all) simp
  from safeD[OF this _ a(1)] have "pres {..<brk h} ?h1 h'" by auto
  with p01 have "pres {..<brk h} h h'" by (rule pres_trans)
  moreover from n(1) a(1) have "build vs h = Some (Ret (brk h), h')"
    by (simp add: build_def bind_def ret_def)
  ultimately show ?thesis using a by blast
qed

lemma built_twice_ok:
  assumes nf: "faults h = []" and ne: "vs \<noteq> []"
  shows "\<exists>h'. built_twice vs h =
     Some (Ret (False, sorted_list_of_set (set vs), sorted_list_of_set (set vs)), h')"
proof -
  from build_ok[OF nf, of vs] obtain h1 ta where
    a: "build vs h = Some (Ret (brk h), h1)" "pset h1 (brk h) ta" "elems ta = set vs"
      "faults h1 = []" by blast
  from build_ok[OF a(4), of vs] obtain h2 tb where
    b: "build vs h1 = Some (Ret (brk h1), h2)" "pset h2 (brk h1) tb" "elems tb = set vs"
      "faults h2 = []" "\<forall>r c. nodes h2 (brk h1) = Some r \<longrightarrow> left r = Some c \<longrightarrow> brk h1 < c"
      "pres {..<brk h1} h1 h2" by blast
  from pset_pres_all[OF a(2) b(6)] have a2: "pset h2 (brk h) ta" "nodes h2 (brk h) = nodes h1 (brk h)"
    by auto
  from psetD[OF a(2)] obtain ra where ra: "nodes h1 (brk h) = Some ra"
    "tree_at h1 (own h1 (brk h)) (left ra) ta" "bst ta"
    "m_size h1 (brk h) = Some (of_nat (tree_size ta))" by blast
  from psetD[OF a2(1)] have ma: "m_size h2 (brk h) = Some (of_nat (tree_size ta))" by blast
  from psetD[OF b(2)] obtain rb where rb: "nodes h2 (brk h1) = Some rb"
    "tree_at h2 (own h2 (brk h1)) (left rb) tb" "bst tb"
    "m_size h2 (brk h1) = Some (of_nat (tree_size tb))" by blast
  from ne a(3) obtain la xa ra' where Na: "ta = Node la xa ra'" by (cases ta) auto
  from ne b(3) obtain lb' xb rb' where Nb: "tb = Node lb' xb rb'" by (cases tb) auto
  from tree_at_NodeD[OF ra(2)[unfolded Na]] obtain p where p: "left ra = Some p" "p \<in> own h1 (brk h)"
    by blast
  from tree_at_NodeD[OF rb(2)[unfolded Nb]] obtain q where q: "left rb = Some q" by blast
  from b(5) rb(1) q have "brk h1 < q" by blast
  moreover from p have "p < brk h1" by (simp add: own_def)
  ultimately have ne': "left ra \<noteq> left rb" using p q by simp
  from a2(2) ra(1) have ra2: "nodes h2 (brk h) = Some ra" by simp
  from set_equal_ok[OF ra2 ma rb(1,4)] ne'
  have e: "set_equal (brk h) (brk h1) h2 = Some (Ret False, h2)" by simp
  from to_list_ok[OF a2(1) b(4)] ra(3) a(3)
  have xs: "to_list (brk h) h2 = Some (Ret (sorted_list_of_set (set vs)), h2)"
    by (simp add: inorder_sorted_list)
  from to_list_ok[OF b(2,4)] rb(3) b(3)
  have ys: "to_list (brk h1) h2 = Some (Ret (sorted_list_of_set (set vs)), h2)"
    by (simp add: inorder_sorted_list)
  from a(1) b(1) e xs ys show ?thesis
    by (simp add: built_twice_def bind_def ret_def)
qed

lemma copy_set_pset:
  assumes p: "pset h s t" and c: "copy_set s h = Some (Ret c, h1)"
  shows "pset h1 s t \<and> pset h1 c t"
proof -
  from psetD[OF p] obtain rt where rt: "nodes h s = Some rt" "value' rt = None"
    "tree_at h (own h s) (left rt) t" "s < brk h" "bst t" "m_size h s = Some (of_nat (tree_size t))"
    by blast
  from copy_set_ok[OF p] c rt have c': "c = brk h"
    and h1: "h1 = h\<lparr>nodes := (nodes h)(brk h \<mapsto> rt),
        m_size := (m_size h)(brk h \<mapsto> of_nat (tree_size t)), brk := Suc (brk h)\<rparr>"
    by auto
  have p01: "pres {..<brk h} h h1" unfolding h1 by (auto simp: pres_def)
  from pset_pres_all[OF p p01] have s1: "pset h1 s t" by auto
  have A: "own h s \<subseteq> {..<brk h1} - {c}" "c < brk h1" unfolding c' h1 by (auto simp: own_def)
  have t1: "tree_at h1 (own h s) (left rt) t"
    using tree_at_pres[OF rt(3) p01] by (auto simp: own_def)
  have nc: "nodes h1 c = Some rt" "m_size h1 c = Some (of_nat (tree_size t))"
    unfolding c' h1 by auto
  have "pset h1 c t"
    using pset_pres[OF nc(1) rt(2) t1 A rt(5) nc(2) pres_refl[of "insert c (own h s)" h1]]
    by simp
  with s1 show ?thesis by simp
qed

lemma ex_copied_built: "copy_set 0 ex_heap = Some (Ret 6, ex_copied)"
  by (simp add: copy_set_def bind_def get_size_def get_node_def ex_heap_def ex_copied_def)

lemma ex_mutated_built:
  "bind (find_set 0 5) (\<lambda>it. bind (insert_set 0 6) (\<lambda>_. ret it)) ex_copied
     = Some (Ret \<lparr>node_ptr = 3, set_ptr = 0\<rparr>, ex_mutated)"
  by (simp add: exec_defs ex_copied_def ex_heap_def ex_mutated_def) (auto simp: fun_eq_iff)

lemma ex_pair_built:
  "bind new_set (\<lambda>a. bind (insert_set a 7) (\<lambda>_. bind new_set (\<lambda>b.
     bind (insert_set b 7) (\<lambda>_. ret (a, b))))) empty_heap = Some (Ret (0, 3), ex_pair)"
  by (simp add: exec_defs empty_heap_def ex_pair_def) (auto simp: fun_eq_iff)

lemma pset_ex_more:
  "pset ex_copied 0 ex_tree" "pset ex_copied 6 ex_tree"
  "pset ex_mutated 0 ex_tree'" "pset ex_mutated 6 ex_tree"
  "pset ex_pair 0 (Node Leaf 7 Leaf)" "pset ex_pair 3 (Node Leaf 7 Leaf)"
  by (simp_all add: pset_def ex_copied_def ex_heap_def ex_mutated_def ex_pair_def ex_tree_def
      ex_tree'_def holds_def)

lemma tree_addrs_pres:
  "tree_at h A p t \<Longrightarrow> pres P h h' \<Longrightarrow> A \<subseteq> P \<Longrightarrow> tree_addrs h' p t = tree_addrs h p t"
proof (induction t arbitrary: p)
  case Leaf
  then show ?case by simp
next
  case (Node l x r)
  from tree_at_NodeD[OF Node.prems(1)] obtain a n where
    a: "p = Some a" "a \<in> A" "nodes h a = Some n" "tree_at h A (left n) l" "tree_at h A (right n) r"
    by blast
  from Node.prems(2,3) a have n': "nodes h' a = Some n" by (auto simp: pres_def)
  from Node.IH(1)[OF a(4) Node.prems(2,3)] Node.IH(2)[OF a(5) Node.prems(2,3)] a n'
  show ?case by simp
qed

lemma incr_holds:
  assumes ps: "pset h s t" and hv: "holds h (node_ptr it) v" and sp: "set_ptr it = s"
  shows "deref_it it h = Some (Ret v, h) \<and> incr it h = upper_bound s v h \<and>
         (faults h = [] \<longrightarrow>
            (\<exists>up. incr it h = Some (Ret up, h) \<and>
               (if \<exists>y\<in>elems t. v < y
                then \<exists>y\<in>elems t. v < y \<and> (\<forall>z\<in>elems t. v < z \<longrightarrow> y \<le> z) \<and> points_to h s up y
                else up = end_it s)))"
proof -
  from psetD[OF ps] have b: "bst t" by auto
  from deref_it_ok[OF hv] have d: "deref_it it h = Some (Ret v, h)" .
  from holdsD[OF hv] obtain n va where n: "nodes h (node_ptr it) = Some n"
    "value' n = Some va" "vals h va = Some v" by blast
  have i: "incr it h = upper_bound s v h"
    using n sp by (simp add: incr_def bind_def get_node_ok deref_ok)
  have r: "\<exists>up. incr it h = Some (Ret up, h) \<and>
               (if \<exists>y\<in>elems t. v < y
                then \<exists>y\<in>elems t. v < y \<and> (\<forall>z\<in>elems t. v < z \<longrightarrow> y \<le> z) \<and> points_to h s up y
                else up = end_it s)" if nf: "faults h = []"
  proof -
    from upper_bound_ok[OF ps nf, of v] obtain up where
      up: "upper_bound s v h = Some (Ret up, h)" "it_at h (own h s) s up (ub v t)" by blast
    have "if \<exists>y\<in>elems t. v < y
      then \<exists>y\<in>elems t. v < y \<and> (\<forall>z\<in>elems t. v < z \<longrightarrow> y \<le> z) \<and> points_to h s up y
      else up = end_it s"
    proof (cases "ub v t")
      case None
      from ub_None[OF b None] have "\<not> (\<exists>y\<in>elems t. v < y)" by (auto simp: not_less)
      with up None show ?thesis by simp
    next
      case (Some y)
      from ub_Some[OF b Some] have "y \<in> elems t" "v < y" "\<forall>z\<in>elems t. v < z \<longrightarrow> y \<le> z" by auto
      moreover from up Some have "points_to h s up y" by (auto intro: it_at_points)
      ultimately show ?thesis by auto
    qed
    with up(1) i show ?thesis by auto
  qed
  from d i r show ?thesis by blast
qed

lemma set_nodes_holds:
  assumes pc: "pset h c tc" and it: "a \<in> set_nodes h c tc"
  shows "a \<in> own h c \<and> (\<exists>v\<in>elems tc. holds h a v)"
proof -
  from psetD[OF pc] obtain rc where rc: "nodes h c = Some rc"
    "tree_at h (own h c) (left rc) tc" by blast
  from it rc(1) have "a \<in> tree_addrs h (left rc) tc" by (simp add: set_nodes_def)
  from tree_addrs_holds[OF rc(2) this] show ?thesis .
qed

lemma copy_keeps_nodes:
  assumes p: "pset h s t" and c: "copy_set s h = Some (Ret c, h1)"
    and run: "mutate_all s ms h1 = Some (r, h2)"
  shows "pset h2 c t \<and> set_nodes h2 c t = set_nodes h s t \<and>
     (\<forall>a\<in>set_nodes h s t. \<forall>x. holds h a x \<longrightarrow> holds h2 a x)"
proof -
  from psetD[OF p] obtain rt where rt: "nodes h s = Some rt" "value' rt = None"
    "tree_at h (own h s) (left rt) t" "s < brk h" "bst t" "m_size h s = Some (of_nat (tree_size t))"
    by blast
  from copy_set_ok[OF p] c rt have c': "c = brk h"
    and h1: "h1 = h\<lparr>nodes := (nodes h)(brk h \<mapsto> rt),
        m_size := (m_size h)(brk h \<mapsto> of_nat (tree_size t)), brk := Suc (brk h)\<rparr>"
    by auto
  have p01: "pres {..<brk h} h h1" unfolding h1 by (auto simp: pres_def)
  have A: "own h s \<subseteq> {..<brk h1} - {c}" "c < brk h1" unfolding c' h1 by (auto simp: own_def)
  have t1: "tree_at h1 (own h s) (left rt) t"
    using tree_at_pres[OF rt(3) p01] by (auto simp: own_def)
  have a1: "tree_addrs h1 (left rt) t = tree_addrs h (left rt) t"
    using tree_addrs_pres[OF rt(3) p01] by (auto simp: own_def)
  have nc: "nodes h1 c = Some rt" "m_size h1 c = Some (of_nat (tree_size t))"
    unfolding c' h1 by auto
  let ?P = "insert c (own h s)"
  have "safe ?P (mutate_all s ms) (\<lambda>_. True)"
    by (rule safe_mutate_all) (use rt(4) in \<open>auto simp: c' own_def\<close>)
  moreover have "?P \<subseteq> {..<brk h1}" using A by auto
  ultimately have p12: "pres ?P h1 h2" using run by (auto dest: safeD)
  from pset_pres[OF nc(1) rt(2) t1 A rt(5) nc(2) p12]
  have 2: "pset h2 c t" "nodes h2 c = Some rt" by auto
  have a2: "tree_addrs h2 (left rt) t = tree_addrs h1 (left rt) t"
    using tree_addrs_pres[OF t1 p12] by auto
  have "holds h2 a x" if a: "a \<in> set_nodes h s t" and x: "holds h a x" for a x
  proof -
    from set_nodes_holds[OF p a] have o: "a \<in> own h s" by simp
    then have "a \<in> {..<brk h}" by (simp add: own_def)
    from holds_pres[OF x p01 this] have "holds h1 a x" .
    from holds_pres[OF this p12] o show ?thesis by simp
  qed
  with 2 a1 a2 rt(1) show ?thesis by (simp add: set_nodes_def)
qed

lemma ex_mutated_run: "mutate_all 0 [Insert 6] ex_copied = Some (Ret (), ex_mutated)"
  by (simp add: exec_defs mutate_def ex_copied_def ex_heap_def ex_mutated_def) (auto simp: fun_eq_iff)

section \<open>The claims\<close>

text \<open>
  C5. In a well-formed set and when nothing throws, \<^verbatim>\<open>lower_bound(v)\<close> returns an iterator
  to the smallest element not less than \<open>v\<close>, or \<^verbatim>\<open>end()\<close> if there is none, and
  \<^verbatim>\<open>upper_bound(v)\<close> returns an iterator to the smallest element greater than \<open>v\<close>, or
  \<^verbatim>\<open>end()\<close> if there is none. The store is left as it was.
\<close>

theorem bounds_correct:
  assumes "pset h s t" and "faults h = []"
  shows "\<exists>lo up. lower_bound s v h = Some (Ret lo, h) \<and> upper_bound s v h = Some (Ret up, h) \<and>
     (if \<exists>y\<in>elems t. v \<le> y
      then \<exists>y\<in>elems t. v \<le> y \<and> (\<forall>z\<in>elems t. v \<le> z \<longrightarrow> y \<le> z) \<and> points_to h s lo y
      else lo = end_it s) \<and>
     (if \<exists>y\<in>elems t. v < y
      then \<exists>y\<in>elems t. v < y \<and> (\<forall>z\<in>elems t. v < z \<longrightarrow> y \<le> z) \<and> points_to h s up y
      else up = end_it s)"
proof -
  from psetD[OF assms(1)] have b: "bst t" by auto
  from lower_bound_ok[OF assms, of v] obtain lo where
    lo: "lower_bound s v h = Some (Ret lo, h)" "it_at h (own h s) s lo (lb v t)" by blast
  from upper_bound_ok[OF assms, of v] obtain up where
    up: "upper_bound s v h = Some (Ret up, h)" "it_at h (own h s) s up (ub v t)" by blast
  have L: "if \<exists>y\<in>elems t. v \<le> y
      then \<exists>y\<in>elems t. v \<le> y \<and> (\<forall>z\<in>elems t. v \<le> z \<longrightarrow> y \<le> z) \<and> points_to h s lo y
      else lo = end_it s"
  proof (cases "lb v t")
    case None
    from lb_None[OF b None] have "\<not> (\<exists>y\<in>elems t. v \<le> y)" by (auto simp: not_le)
    with lo None show ?thesis by simp
  next
    case (Some y)
    from lb_Some[OF b Some] have "y \<in> elems t" "v \<le> y" "\<forall>z\<in>elems t. v \<le> z \<longrightarrow> y \<le> z" by auto
    moreover from lo Some have "points_to h s lo y" by (auto intro: it_at_points)
    ultimately show ?thesis by auto
  qed
  have U: "if \<exists>y\<in>elems t. v < y
      then \<exists>y\<in>elems t. v < y \<and> (\<forall>z\<in>elems t. v < z \<longrightarrow> y \<le> z) \<and> points_to h s up y
      else up = end_it s"
  proof (cases "ub v t")
    case None
    from ub_None[OF b None] have "\<not> (\<exists>y\<in>elems t. v < y)" by (auto simp: not_less)
    with up None show ?thesis by simp
  next
    case (Some y)
    from ub_Some[OF b Some] have "y \<in> elems t" "v < y" "\<forall>z\<in>elems t. v < z \<longrightarrow> y \<le> z" by auto
    moreover from up Some have "points_to h s up y" by (auto intro: it_at_points)
    ultimately show ?thesis by auto
  qed
  from lo(1) up(1) L U show ?thesis by blast
qed

theorem bounds_correct_witness:
  "pset ex_heap 0 ex_tree \<and> faults ex_heap = [] \<and>
   lower_bound 0 6 ex_heap = Some (Ret \<lparr>node_ptr = 4, set_ptr = 0\<rparr>, ex_heap) \<and>
   upper_bound 0 5 ex_heap = Some (Ret \<lparr>node_ptr = 4, set_ptr = 0\<rparr>, ex_heap) \<and>
   points_to ex_heap 0 \<lparr>node_ptr = 4, set_ptr = 0\<rparr> 8 \<and>
   lower_bound 0 9 ex_heap = Some (Ret (end_it 0), ex_heap)"
proof -
  have 1: "pset ex_heap 0 ex_tree" by (rule pset_ex)
  have 2: "faults ex_heap = []" by (simp add: ex_heap_def)
  from bounds_correct[OF 1 2, of 6] bounds_correct[OF 1 2, of 5] bounds_correct[OF 1 2, of 9]
  have "\<exists>lo. lower_bound 0 6 ex_heap = Some (Ret lo, ex_heap)" by blast
  then show ?thesis using 1 2
    by (simp add: exec_defs ex_heap_def points_to_def)
qed

text \<open>
  C7. In a well-formed set and when nothing throws, \<^verbatim>\<open>insert(v)\<close> of a value that is
  already an element returns an iterator to that element and \<open>False\<close>, and the store after
  the call is the store before it: root, size and iteration order are unchanged.
\<close>

theorem insert_existing:
  assumes "pset h s t" and "faults h = []" and "v \<in> elems t"
  shows "\<exists>it. insert_set s v h = Some (Ret (it, False), h) \<and> points_to h s it v"
  using insert_set_old[OF assms] by (auto intro: it_at_points)

theorem insert_existing_witness:
  "pset ex_heap 0 ex_tree \<and> faults ex_heap = [] \<and> 8 \<in> elems ex_tree \<and>
   insert_set 0 8 ex_heap = Some (Ret (\<lparr>node_ptr = 4, set_ptr = 0\<rparr>, False), ex_heap)"
proof -
  have 1: "pset ex_heap 0 ex_tree" by (rule pset_ex)
  have 2: "faults ex_heap = []" by (simp add: ex_heap_def)
  have 3: "8 \<in> elems ex_tree" by (simp add: ex_tree_def)
  from insert_existing[OF 1 2 3] obtain it where
    it: "insert_set 0 8 ex_heap = Some (Ret (it, False), ex_heap)" "points_to ex_heap 0 it 8" by blast
  have "insert_set 0 8 ex_heap = Some (Ret (\<lparr>node_ptr = 4, set_ptr = 0\<rparr>, False), ex_heap)"
    by (simp add: exec_defs ex_heap_def)
  with 1 2 3 show ?thesis by simp
qed

text \<open>
  C8. In a well-formed set and when nothing throws, \<^verbatim>\<open>find(v)\<close> is the result of
  \<^verbatim>\<open>lower_bound(v)\<close> when that is not \<^verbatim>\<open>end()\<close> and dereferences to \<open>v\<close>, and
  \<^verbatim>\<open>end()\<close> otherwise. So \<^verbatim>\<open>*find(e) == e\<close> for every element \<open>e\<close>, and
  \<^verbatim>\<open>find(v) == end()\<close> for every \<open>v\<close> that is not an element.
\<close>

theorem find_correct:
  assumes "pset h s t" and "faults h = []"
  shows "\<exists>lo. lower_bound s v h = Some (Ret lo, h) \<and>
     find_set s v h =
       Some (Ret (if lo \<noteq> end_it s \<and> deref_it lo h = Some (Ret v, h) then lo else end_it s), h) \<and>
     (v \<in> elems t \<longrightarrow> (\<exists>it. find_set s v h = Some (Ret it, h) \<and> points_to h s it v)) \<and>
     (v \<notin> elems t \<longrightarrow> find_set s v h = Some (Ret (end_it s), h))"
proof -
  from psetD[OF assms(1)] have b: "bst t" by auto
  from lower_bound_ok[OF assms, of v] obtain lo where
    lo: "lower_bound s v h = Some (Ret lo, h)" "it_at h (own h s) s lo (lb v t)" by blast
  from find_set_ok[OF assms, of v] obtain it where
    it: "find_set s v h = Some (Ret it, h)"
      "it_at h (own h s) s it (if v \<in> elems t then Some v else None)" by blast
  have f: "find_set s v h =
       Some (Ret (if lo \<noteq> end_it s \<and> deref_it lo h = Some (Ret v, h) then lo else end_it s), h)"
  proof (cases "lb v t")
    case None
    with lo have "lo = end_it s" by simp
    with find_set_lower_bound[OF lo(1) assms(2), of v] show ?thesis by simp
  next
    case (Some y)
    with lo have "points_to h s lo y" by (auto intro: it_at_points)
    then have d: "deref_it lo h = Some (Ret y, h)" "lo \<noteq> end_it s" by (auto simp: points_to_def)
    from find_set_lower_bound[OF lo(1) assms(2), of y] d show ?thesis by auto
  qed
  from it have "v \<in> elems t \<longrightarrow> points_to h s it v" "v \<notin> elems t \<longrightarrow> it = end_it s"
    by (auto intro: it_at_points)
  with lo(1) f it(1) show ?thesis by auto
qed

theorem find_correct_witness:
  "pset ex_heap 0 ex_tree \<and> faults ex_heap = [] \<and>
   find_set 0 8 ex_heap = Some (Ret \<lparr>node_ptr = 4, set_ptr = 0\<rparr>, ex_heap) \<and>
   deref_it \<lparr>node_ptr = 4, set_ptr = 0\<rparr> ex_heap = Some (Ret 8, ex_heap) \<and>
   find_set 0 6 ex_heap = Some (Ret (end_it 0), ex_heap)"
proof -
  have 1: "pset ex_heap 0 ex_tree" by (rule pset_ex)
  have 2: "faults ex_heap = []" by (simp add: ex_heap_def)
  from find_correct[OF 1 2, of 6] have "find_set 0 6 ex_heap = Some (Ret (end_it 0), ex_heap)"
    by (auto simp: ex_tree_def)
  moreover have "find_set 0 8 ex_heap = Some (Ret \<lparr>node_ptr = 4, set_ptr = 0\<rparr>, ex_heap)"
    "deref_it \<lparr>node_ptr = 4, set_ptr = 0\<rparr> ex_heap = Some (Ret 8, ex_heap)"
    by (simp_all add: exec_defs ex_heap_def)
  ultimately show ?thesis using 1 2 by simp
qed

text \<open>
  C10. Set equality compares the three pointers stored in the two roots and the two sizes.
  A set equals itself. The copy constructor makes a new set object, at an address that was
  not in use, and leaves every other object as it was; the new object stores the three
  pointers and the size of the original, so the copy and the original compare equal, and the
  copy of a well-formed set is a well-formed set with the same tree.
\<close>

theorem copy_equal:
  assumes "nodes h a = Some ra" and "m_size h a = Some na"
    and "nodes h b = Some rb" and "m_size h b = Some nb" and "a < brk h"
  shows "set_equal a b h =
       Some (Ret (left ra = left rb \<and> right ra = right rb \<and> value' ra = value' rb \<and> na = nb), h) \<and>
     set_equal a a h = Some (Ret True, h) \<and>
     (\<exists>c h'. copy_set a h = Some (Ret c, h') \<and> c \<noteq> a \<and> c = brk h \<and> brk h' = Suc c \<and>
        nodes h' c = Some ra \<and> m_size h' c = Some na \<and>
        nodes h' a = Some ra \<and> m_size h' a = Some na \<and>
        (\<forall>p. p \<noteq> c \<longrightarrow> nodes h' p = nodes h p \<and> m_size h' p = m_size h p) \<and>
        vals h' = vals h \<and> faults h' = faults h \<and>
        set_equal c a h' = Some (Ret True, h') \<and> set_equal a c h' = Some (Ret True, h') \<and>
        (pset h a t \<longrightarrow> pset h' a t \<and> pset h' c t))"
proof -
  let ?h' = "h\<lparr>nodes := (nodes h)(brk h \<mapsto> ra), m_size := (m_size h)(brk h \<mapsto> na),
       brk := Suc (brk h)\<rparr>"
  have c: "copy_set a h = Some (Ret (brk h), ?h')"
    using assms by (simp add: copy_set_def bind_def get_node_ok get_size_ok)
  have ne: "brk h \<noteq> a" using assms(5) by simp
  have na: "nodes ?h' a = Some ra" "m_size ?h' a = Some na"
    "nodes ?h' (brk h) = Some ra" "m_size ?h' (brk h) = Some na"
    using assms ne by simp_all
  have p: "pset ?h' a t \<and> pset ?h' (brk h) t" if "pset h a t"
    using copy_set_pset[OF that c] .
  from set_equal_ok[OF na(3,4) na(1,2)] set_equal_ok[OF na(1,2) na(3,4)]
  have e: "set_equal (brk h) a ?h' = Some (Ret True, ?h')"
    "set_equal a (brk h) ?h' = Some (Ret True, ?h')" by simp_all
  have "\<exists>c h'. copy_set a h = Some (Ret c, h') \<and> c \<noteq> a \<and> c = brk h \<and> brk h' = Suc c \<and>
        nodes h' c = Some ra \<and> m_size h' c = Some na \<and>
        nodes h' a = Some ra \<and> m_size h' a = Some na \<and>
        (\<forall>p. p \<noteq> c \<longrightarrow> nodes h' p = nodes h p \<and> m_size h' p = m_size h p) \<and>
        vals h' = vals h \<and> faults h' = faults h \<and>
        set_equal c a h' = Some (Ret True, h') \<and> set_equal a c h' = Some (Ret True, h') \<and>
        (pset h a t \<longrightarrow> pset h' a t \<and> pset h' c t)"
    using c ne na e p by (intro exI[of _ "brk h"] exI[of _ ?h']) simp
  with set_equal_ok[OF assms(1,2,3,4)] set_equal_ok[OF assms(1,2,1,2)] show ?thesis by simp
qed

theorem copy_equal_witness:
  "nodes ex_heap 0 = Some \<lparr>value' = None, left = Some 3, right = None\<rparr> \<and> m_size ex_heap 0 = Some 2 \<and>
   0 < brk ex_heap \<and> pset ex_heap 0 ex_tree \<and>
   copy_set 0 ex_heap = Some (Ret 6, ex_copied) \<and> pset ex_copied 6 ex_tree \<and>
   nodes ex_copied 6 = Some \<lparr>value' = None, left = Some 3, right = None\<rparr> \<and>
   m_size ex_copied 6 = Some 2 \<and> 6 < brk ex_copied \<and>
   set_equal 6 0 ex_copied = Some (Ret True, ex_copied) \<and>
   set_equal 0 0 ex_heap = Some (Ret True, ex_heap) \<and>
   nodes ex_mutated 0 = Some \<lparr>value' = None, left = Some 7, right = None\<rparr> \<and>
   m_size ex_mutated 0 = Some 3 \<and>
   set_equal 6 0 ex_mutated = Some (Ret False, ex_mutated)"
proof -
  let ?r = "\<lparr>value' = None, left = Some 3, right = None\<rparr>"
  let ?r' = "\<lparr>value' = None, left = Some 7, right = None\<rparr>"
  have 1: "nodes ex_heap 0 = Some ?r" and 2: "m_size ex_heap 0 = Some 2"
    and 3: "0 < brk ex_heap" by (simp_all add: ex_heap_def)
  have 4: "nodes ex_copied 6 = Some ?r" "m_size ex_copied 6 = Some 2"
    "nodes ex_copied 0 = Some ?r" "m_size ex_copied 0 = Some 2" "6 < brk ex_copied"
    by (simp_all add: ex_copied_def ex_heap_def)
  have 5: "nodes ex_mutated 6 = Some ?r" "m_size ex_mutated 6 = Some 2"
    "nodes ex_mutated 0 = Some ?r'" "m_size ex_mutated 0 = Some 3" "6 < brk ex_mutated"
    by (simp_all add: ex_mutated_def)
  have 6: "pset ex_heap 0 ex_tree" by (rule pset_ex)
  from copy_equal[OF 1 2 1 2 3, of ex_tree] 6 ex_copied_built
  have A: "set_equal 0 0 ex_heap = Some (Ret True, ex_heap)" "pset ex_copied 6 ex_tree"
    by auto
  from copy_equal[OF 4(1,2,3,4,5)]
  have B: "set_equal 6 0 ex_copied = Some (Ret True, ex_copied)" by simp
  from copy_equal[OF 5(1,2,3,4,5)]
  have C: "set_equal 6 0 ex_mutated = Some (Ret False, ex_mutated)" by simp
  from 1 2 3 4 5 6 A B C ex_copied_built show ?thesis by simp
qed

text \<open>
  C3. The claim that two sets compare equal if and only if they hold the same elements fails:
  two sets built separately, each by inserting \<open>7\<close>, iterate to the same sequence and
  compare unequal.
\<close>

theorem set_equal_counterexample:
  "map_option fst (two_sets empty_heap) = Some (Ret (False, [7], [7]))"
  by (simp add: two_sets_def exec_defs empty_heap_def)

text \<open>
  C3, as amended. For two well-formed sets, \<^verbatim>\<open>==\<close> is true exactly when the two roots
  store the same three pointers and the two sizes are equal. Two sets that compare equal
  hold the same tree of elements. Two sets of which one is not empty and whose trees have
  no node object in common compare unequal, whatever their elements. In particular, when
  nothing throws, two sets built separately by inserting the same non-empty list of values
  compare unequal, although both iterate to the sorted sequence of these values.
\<close>

theorem set_equal_shallow:
  "(pset h a ta \<and> pset h b tb \<longrightarrow>
      (\<exists>e. set_equal a b h = Some (Ret e, h) \<and>
         (e \<longleftrightarrow> nodes h a = nodes h b \<and> m_size h a = m_size h b) \<and>
         (e \<longrightarrow> ta = tb) \<and>
         (ta \<noteq> Leaf \<and> set_nodes h a ta \<inter> set_nodes h b tb = {} \<longrightarrow> \<not> e))) \<and>
   (faults h = [] \<and> vs \<noteq> [] \<longrightarrow>
      map_option fst (built_twice vs h) =
        Some (Ret (False, sorted_list_of_set (set vs), sorted_list_of_set (set vs))))"
proof (intro conjI impI)
  assume p: "pset h a ta \<and> pset h b tb"
  from psetD[of h a ta] p obtain ra where a: "nodes h a = Some ra"
    "tree_at h (own h a) (left ra) ta" "m_size h a = Some (of_nat (tree_size ta))" by blast
  from psetD[of h b tb] p obtain rb where b: "nodes h b = Some rb"
    "tree_at h (own h b) (left rb) tb" "m_size h b = Some (of_nat (tree_size tb))" by blast
  let ?e = "left ra = left rb \<and> right ra = right rb \<and> value' ra = value' rb \<and>
     (of_nat (tree_size ta) :: 64 word) = of_nat (tree_size tb)"
  from set_equal_ok[OF a(1,3) b(1,3)] have "set_equal a b h = Some (Ret ?e, h)" by simp
  moreover have "?e \<longleftrightarrow> nodes h a = nodes h b \<and> m_size h a = m_size h b"
    using a b by auto
  moreover have eq: "?e \<longrightarrow> ta = tb" using tree_at_unique[OF a(2), of "own h b" tb] b(2) by auto
  moreover have "ta \<noteq> Leaf \<and> set_nodes h a ta \<inter> set_nodes h b tb = {} \<longrightarrow> \<not> ?e"
  proof (intro impI notI)
    assume d: "ta \<noteq> Leaf \<and> set_nodes h a ta \<inter> set_nodes h b tb = {}" and e: ?e
    from d obtain l x r where N: "ta = Node l x r" by (cases ta) auto
    from tree_addrs_root[OF a(2)[unfolded N]] obtain q where
      q: "q \<in> tree_addrs h (left ra) ta" unfolding N by blast
    from e eq have "tb = ta" "left rb = left ra" by auto
    with q a(1) b(1) have "q \<in> set_nodes h a ta \<inter> set_nodes h b tb" by (simp add: set_nodes_def)
    with d show False by blast
  qed
  ultimately show "\<exists>e. set_equal a b h = Some (Ret e, h) \<and>
         (e \<longleftrightarrow> nodes h a = nodes h b \<and> m_size h a = m_size h b) \<and>
         (e \<longrightarrow> ta = tb) \<and>
         (ta \<noteq> Leaf \<and> set_nodes h a ta \<inter> set_nodes h b tb = {} \<longrightarrow> \<not> e)" by blast
next
  assume "faults h = [] \<and> vs \<noteq> []"
  then have "faults h = []" "vs \<noteq> []" by auto
  from built_twice_ok[OF this] show "map_option fst (built_twice vs h) =
        Some (Ret (False, sorted_list_of_set (set vs), sorted_list_of_set (set vs)))" by auto
qed

theorem set_equal_shallow_witness:
  "pset ex_copied 0 ex_tree \<and> pset ex_copied 6 ex_tree \<and>
   set_equal 0 6 ex_copied = Some (Ret True, ex_copied) \<and>
   pset ex_pair 0 (Node Leaf 7 Leaf) \<and> pset ex_pair 3 (Node Leaf 7 Leaf) \<and>
   set_nodes ex_pair 0 (Node Leaf 7 Leaf) = {1} \<and> set_nodes ex_pair 3 (Node Leaf 7 Leaf) = {4} \<and>
   set_equal 0 3 ex_pair = Some (Ret False, ex_pair) \<and>
   m_size ex_pair 0 = m_size ex_pair 3 \<and>
   faults empty_heap = [] \<and>
   map_option fst (built_twice [8, 5 :: int] empty_heap) = Some (Ret (False, [5, 8], [5, 8]))"
proof -
  let ?t = "Node Leaf (7 :: int) Leaf"
  note p = pset_ex_more
  have n: "set_nodes ex_pair 0 ?t = {1}" "set_nodes ex_pair 3 ?t = {4}"
    "m_size ex_pair 0 = m_size ex_pair 3"
    by (simp_all add: set_nodes_def ex_pair_def)
  have f: "faults empty_heap = []" by (simp add: empty_heap_def)
  have s: "sorted_list_of_set (set [8, 5 :: int]) = [5, 8]" by (simp add: insort_key.simps)
  from set_equal_shallow[of ex_copied 0 ex_tree 6 ex_tree "[]", THEN conjunct1, rule_format, OF conjI,
      OF p(1,2)] obtain e where
    e: "set_equal 0 6 ex_copied = Some (Ret e, ex_copied)"
      "e \<longleftrightarrow> nodes ex_copied 0 = nodes ex_copied 6 \<and> m_size ex_copied 0 = m_size ex_copied 6"
    by blast
  have "nodes ex_copied 0 = nodes ex_copied 6 \<and> m_size ex_copied 0 = m_size ex_copied 6"
    by (simp add: ex_copied_def ex_heap_def)
  with e have A: "set_equal 0 6 ex_copied = Some (Ret True, ex_copied)" by simp
  from set_equal_shallow[of ex_pair 0 ?t 3 ?t "[]", THEN conjunct1, rule_format, OF conjI,
      OF p(5,6)] obtain e' where
    e': "set_equal 0 3 ex_pair = Some (Ret e', ex_pair)"
      "?t \<noteq> Leaf \<and> set_nodes ex_pair 0 ?t \<inter> set_nodes ex_pair 3 ?t = {} \<longrightarrow> \<not> e'"
    by blast
  from e'(2) n have "\<not> e'" by simp
  with e' have B: "set_equal 0 3 ex_pair = Some (Ret False, ex_pair)" by simp
  have ne: "[8, 5 :: int] \<noteq> []" by simp
  from set_equal_shallow[of empty_heap 0 Leaf 0 Leaf "[8, 5]", THEN conjunct2, rule_format, OF conjI, OF f ne]
  have C: "map_option fst (built_twice [8, 5 :: int] empty_heap) = Some (Ret (False, [5, 8], [5, 8]))"
    unfolding s .
  from p n f A B C show ?thesis by simp
qed

text \<open>
  C9. Let \<open>it\<close> be an iterator of the well-formed set \<open>s\<close> whose node is owned by the tree
  of a well-formed set of the store: by \<open>s\<close> itself, or by another set that shares the node.
  Then \<^verbatim>\<open>*it\<close> is an element \<open>v\<close> of that tree, and \<^verbatim>\<open>++it\<close> is \<^verbatim>\<open>upper_bound(v)\<close>
  of \<open>s\<close> run in the present state, on the present root of \<open>s\<close>, under every schedule of
  exceptions; when nothing throws it returns, without a change of the store, an iterator
  to the least element of \<open>s\<close> greater than \<open>v\<close>, or \<^verbatim>\<open>end()\<close> if there is none.

  This holds when \<open>s\<close> has been mutated since the iterator was made, as long as the node
  still has an owner: if \<open>it\<close> points into \<open>s\<close>, then \<open>s\<close> is copied, and then any
  sequence of \<^verbatim>\<open>insert\<close> and \<^verbatim>\<open>erase\<close> calls is applied to \<open>s\<close>, the node of \<open>it\<close>
  is owned by the copy, \<^verbatim>\<open>*it\<close> is the value it was, and \<^verbatim>\<open>++it\<close> is computed on the
  tree \<open>s\<close> has after the calls. An iterator whose node has lost its last owner is not
  covered: in the code it dangles.

  On a well-formed set that is not empty, \<^verbatim>\<open>--\<close> applied to \<^verbatim>\<open>end()\<close> gives an iterator
  to the greatest element.
\<close>

theorem iterator_steps:
  "(pset h s t \<and> pset h c tc \<and> node_ptr it \<in> set_nodes h c tc \<and> set_ptr it = s \<longrightarrow>
      (\<exists>v. v \<in> elems tc \<and> deref_it it h = Some (Ret v, h) \<and>
         incr it h = upper_bound s v h \<and>
         (faults h = [] \<longrightarrow>
            (\<exists>up. incr it h = Some (Ret up, h) \<and>
               (if \<exists>y\<in>elems t. v < y
                then \<exists>y\<in>elems t. v < y \<and> (\<forall>z\<in>elems t. v < z \<longrightarrow> y \<le> z) \<and> points_to h s up y
                else up = end_it s))))) \<and>
   (pset h s t \<and> node_ptr it \<in> set_nodes h s t \<and> set_ptr it = s \<and>
    copy_set s h = Some (Ret c, h1) \<and> mutate_all s ms h1 = Some (r, h2) \<and> pset h2 s t2 \<longrightarrow>
      pset h2 c t \<and> node_ptr it \<in> set_nodes h2 c t \<and>
      (\<exists>v. v \<in> elems t \<and> deref_it it h = Some (Ret v, h) \<and> deref_it it h2 = Some (Ret v, h2) \<and>
         incr it h2 = upper_bound s v h2 \<and>
         (faults h2 = [] \<longrightarrow>
            (\<exists>up. incr it h2 = Some (Ret up, h2) \<and>
               (if \<exists>y\<in>elems t2. v < y
                then \<exists>y\<in>elems t2. v < y \<and> (\<forall>z\<in>elems t2. v < z \<longrightarrow> y \<le> z) \<and>
                       points_to h2 s up y
                else up = end_it s))))) \<and>
   (pset h s t \<and> t \<noteq> Leaf \<longrightarrow>
      (\<exists>it' m. decr (end_it s) h = Some (Ret it', h) \<and> points_to h s it' m \<and>
         m \<in> elems t \<and> (\<forall>z\<in>elems t. z \<le> m)))"
proof -
  have A: "(pset h s t \<and> pset h c tc \<and> node_ptr it \<in> set_nodes h c tc \<and> set_ptr it = s \<longrightarrow>
        (\<exists>v. v \<in> elems tc \<and> deref_it it h = Some (Ret v, h) \<and>
           incr it h = upper_bound s v h \<and>
           (faults h = [] \<longrightarrow>
              (\<exists>up. incr it h = Some (Ret up, h) \<and>
                 (if \<exists>y\<in>elems t. v < y
                  then \<exists>y\<in>elems t. v < y \<and> (\<forall>z\<in>elems t. v < z \<longrightarrow> y \<le> z) \<and> points_to h s up y
                  else up = end_it s)))))"
  proof (rule impI)
    assume a: "pset h s t \<and> pset h c tc \<and> node_ptr it \<in> set_nodes h c tc \<and> set_ptr it = s"
    then have ps: "pset h s t" and pc: "pset h c tc" and it: "node_ptr it \<in> set_nodes h c tc"
      and sp: "set_ptr it = s" by auto
    from set_nodes_holds[OF pc it] obtain v where v: "v \<in> elems tc" "holds h (node_ptr it) v"
      by blast
    from incr_holds[OF ps v(2) sp] v(1)
    show "\<exists>v. v \<in> elems tc \<and> deref_it it h = Some (Ret v, h) \<and>
           incr it h = upper_bound s v h \<and>
           (faults h = [] \<longrightarrow>
              (\<exists>up. incr it h = Some (Ret up, h) \<and>
                 (if \<exists>y\<in>elems t. v < y
                  then \<exists>y\<in>elems t. v < y \<and> (\<forall>z\<in>elems t. v < z \<longrightarrow> y \<le> z) \<and> points_to h s up y
                  else up = end_it s)))" by blast
  qed
  have B: "(pset h s t \<and> node_ptr it \<in> set_nodes h s t \<and> set_ptr it = s \<and>
      copy_set s h = Some (Ret c, h1) \<and> mutate_all s ms h1 = Some (r, h2) \<and> pset h2 s t2 \<longrightarrow>
        pset h2 c t \<and> node_ptr it \<in> set_nodes h2 c t \<and>
        (\<exists>v. v \<in> elems t \<and> deref_it it h = Some (Ret v, h) \<and> deref_it it h2 = Some (Ret v, h2) \<and>
           incr it h2 = upper_bound s v h2 \<and>
           (faults h2 = [] \<longrightarrow>
              (\<exists>up. incr it h2 = Some (Ret up, h2) \<and>
                 (if \<exists>y\<in>elems t2. v < y
                  then \<exists>y\<in>elems t2. v < y \<and> (\<forall>z\<in>elems t2. v < z \<longrightarrow> y \<le> z) \<and>
                         points_to h2 s up y
                  else up = end_it s)))))"
  proof (rule impI)
    assume a: "pset h s t \<and> node_ptr it \<in> set_nodes h s t \<and> set_ptr it = s \<and>
      copy_set s h = Some (Ret c, h1) \<and> mutate_all s ms h1 = Some (r, h2) \<and> pset h2 s t2"
    then have ps: "pset h s t" and it: "node_ptr it \<in> set_nodes h s t" and sp: "set_ptr it = s"
      and c: "copy_set s h = Some (Ret c, h1)" and run: "mutate_all s ms h1 = Some (r, h2)"
      and p2: "pset h2 s t2" by auto
    from set_nodes_holds[OF ps it] obtain v where v: "v \<in> elems t" "holds h (node_ptr it) v"
      by blast
    from copy_keeps_nodes[OF ps c run] it v(2)
    have k: "pset h2 c t" "node_ptr it \<in> set_nodes h2 c t" "holds h2 (node_ptr it) v" by auto
    from incr_holds[OF p2 k(3) sp] deref_it_ok[OF v(2)] v(1)
    have "\<exists>v. v \<in> elems t \<and> deref_it it h = Some (Ret v, h) \<and> deref_it it h2 = Some (Ret v, h2) \<and>
           incr it h2 = upper_bound s v h2 \<and>
           (faults h2 = [] \<longrightarrow>
              (\<exists>up. incr it h2 = Some (Ret up, h2) \<and>
                 (if \<exists>y\<in>elems t2. v < y
                  then \<exists>y\<in>elems t2. v < y \<and> (\<forall>z\<in>elems t2. v < z \<longrightarrow> y \<le> z) \<and>
                         points_to h2 s up y
                  else up = end_it s)))" by blast
    with k(1,2) show "pset h2 c t \<and> node_ptr it \<in> set_nodes h2 c t \<and>
        (\<exists>v. v \<in> elems t \<and> deref_it it h = Some (Ret v, h) \<and> deref_it it h2 = Some (Ret v, h2) \<and>
           incr it h2 = upper_bound s v h2 \<and>
           (faults h2 = [] \<longrightarrow>
              (\<exists>up. incr it h2 = Some (Ret up, h2) \<and>
                 (if \<exists>y\<in>elems t2. v < y
                  then \<exists>y\<in>elems t2. v < y \<and> (\<forall>z\<in>elems t2. v < z \<longrightarrow> y \<le> z) \<and>
                         points_to h2 s up y
                  else up = end_it s))))" by blast
  qed
  have C: "(pset h s t \<and> t \<noteq> Leaf \<longrightarrow>
        (\<exists>it' m. decr (end_it s) h = Some (Ret it', h) \<and> points_to h s it' m \<and>
           m \<in> elems t \<and> (\<forall>z\<in>elems t. z \<le> m)))"
  proof (rule impI)
    assume a: "pset h s t \<and> t \<noteq> Leaf"
    from psetD[of h s t] a obtain r where r: "nodes h s = Some r" "value' r = None"
      "tree_at h (own h s) (left r) t" "bst t" by blast
    from a obtain l x r' where N: "t = Node l x r'" by (cases t) auto
    with r obtain p where p: "left r = Some p" by (auto split: option.splits)
    from rightmost_loop_ok[of h "own h s" p l x r'] r(3) p N obtain q where
      q: "rightmost_loop p h = Some (Ret q, h)" "q \<in> own h s" "holds h q (rightmost l x r')" by auto
    let ?it = "\<lparr>node_ptr = q, set_ptr = s\<rparr>"
    have "decr (end_it s) h = Some (Ret ?it, h)"
      using r p q by (simp add: decr_def rev_upper_bound_def bind_def get_node_ok ret_def)
    moreover have "points_to h s ?it (rightmost l x r')"
      using q by (intro it_at_points) (simp add: it_at_def)
    moreover have "rightmost l x r' \<in> elems t" "\<forall>z\<in>elems t. z \<le> rightmost l x r'"
      using rightmost_in[of l x r'] rightmost_max[of l x r'] r(4) N by auto
    ultimately show "\<exists>it' m. decr (end_it s) h = Some (Ret it', h) \<and> points_to h s it' m \<and>
           m \<in> elems t \<and> (\<forall>z\<in>elems t. z \<le> m)" by blast
  qed
  show ?thesis by (rule conjI[OF A conjI[OF B C]])
qed

theorem iterator_steps_witness:
  "pset ex_heap 0 ex_tree \<and> ex_tree \<noteq> Leaf \<and> faults ex_heap = [] \<and>
   set_nodes ex_heap 0 ex_tree = {3, 4} \<and>
   find_set 0 5 ex_heap = Some (Ret \<lparr>node_ptr = 3, set_ptr = 0\<rparr>, ex_heap) \<and>
   incr \<lparr>node_ptr = 3, set_ptr = 0\<rparr> ex_heap = Some (Ret \<lparr>node_ptr = 4, set_ptr = 0\<rparr>, ex_heap) \<and>
   incr \<lparr>node_ptr = 4, set_ptr = 0\<rparr> ex_heap = Some (Ret (end_it 0), ex_heap) \<and>
   decr (end_it 0) ex_heap = Some (Ret \<lparr>node_ptr = 4, set_ptr = 0\<rparr>, ex_heap) \<and>
   points_to ex_heap 0 \<lparr>node_ptr = 4, set_ptr = 0\<rparr> 8 \<and>
   copy_set 0 ex_heap = Some (Ret 6, ex_copied) \<and>
   mutate_all 0 [Insert 6] ex_copied = Some (Ret (), ex_mutated) \<and>
   pset ex_mutated 0 ex_tree' \<and> pset ex_mutated 6 ex_tree \<and> faults ex_mutated = [] \<and>
   set_nodes ex_mutated 6 ex_tree = {3, 4} \<and> set_nodes ex_mutated 0 ex_tree' = {7, 8, 9} \<and>
   deref_it \<lparr>node_ptr = 3, set_ptr = 0\<rparr> ex_mutated = Some (Ret 5, ex_mutated) \<and>
   incr \<lparr>node_ptr = 3, set_ptr = 0\<rparr> ex_mutated = upper_bound 0 5 ex_mutated \<and>
   incr \<lparr>node_ptr = 3, set_ptr = 0\<rparr> ex_mutated = Some (Ret \<lparr>node_ptr = 9, set_ptr = 0\<rparr>, ex_mutated) \<and>
   points_to ex_mutated 0 \<lparr>node_ptr = 9, set_ptr = 0\<rparr> 6"
proof -
  let ?i3 = "\<lparr>node_ptr = 3, set_ptr = 0\<rparr>"
  let ?i4 = "\<lparr>node_ptr = 4, set_ptr = 0\<rparr>"
  note p = pset_ex_more(3,4) pset_ex
  have f: "faults ex_mutated = []" "faults ex_heap = []" "ex_tree \<noteq> Leaf"
    by (simp_all add: ex_mutated_def ex_heap_def ex_tree_def)
  have n: "set_nodes ex_mutated 6 ex_tree = {3, 4}" "set_nodes ex_mutated 0 ex_tree' = {7, 8, 9}"
    "set_nodes ex_heap 0 ex_tree = {3, 4}"
    by (auto simp: set_nodes_def ex_mutated_def ex_heap_def ex_tree_def ex_tree'_def)
  have m: "node_ptr ?i3 \<in> set_nodes ex_mutated 6 ex_tree" "set_ptr ?i3 = 0"
    "node_ptr ?i4 \<in> set_nodes ex_heap 0 ex_tree" "set_ptr ?i4 = 0"
    "node_ptr ?i3 \<in> set_nodes ex_heap 0 ex_tree" unfolding n by simp_all
  have d: "deref_it ?i3 ex_mutated = Some (Ret 5, ex_mutated)"
    "deref_it ?i4 ex_heap = Some (Ret 8, ex_heap)"
    by (simp_all add: exec_defs ex_mutated_def ex_heap_def)
  have e: "\<not> (\<exists>y\<in>elems ex_tree. 8 < y)" by (simp add: ex_tree_def)
  from iterator_steps[of ex_heap 0 ex_tree 0 ex_tree ?i4, THEN conjunct1, rule_format,
      OF conjI, OF p(3) conjI, OF p(3) conjI, OF m(3,4)] d(2) f(2) e
  have A: "incr ?i4 ex_heap = Some (Ret (end_it 0), ex_heap)" by auto
  from iterator_steps[of ex_heap 0 ex_tree 6 _ ?i3 ex_copied "[Insert 6]" "Ret ()" ex_mutated ex_tree',
      THEN conjunct2, THEN conjunct1, rule_format,
      OF conjI, OF p(3) conjI, OF m(5) conjI, OF m(2) conjI, OF ex_copied_built conjI,
      OF ex_mutated_run p(1)] d(1)
  have B: "incr ?i3 ex_mutated = upper_bound 0 5 ex_mutated" by auto
  from iterator_steps[of ex_heap 0 ex_tree, THEN conjunct2, THEN conjunct2, rule_format,
      OF conjI, OF p(3) f(3)]
  have "\<exists>it' m. decr (end_it 0) ex_heap = Some (Ret it', ex_heap) \<and> points_to ex_heap 0 it' m"
    by blast
  moreover have C: "find_set 0 5 ex_heap = Some (Ret ?i3, ex_heap)"
    "incr ?i3 ex_heap = Some (Ret ?i4, ex_heap)"
    "decr (end_it 0) ex_heap = Some (Ret ?i4, ex_heap)"
    "points_to ex_heap 0 ?i4 8"
    "incr ?i3 ex_mutated = Some (Ret \<lparr>node_ptr = 9, set_ptr = 0\<rparr>, ex_mutated)"
    "points_to ex_mutated 0 \<lparr>node_ptr = 9, set_ptr = 0\<rparr> 6"
    by (simp_all add: exec_defs ex_heap_def ex_mutated_def points_to_def)
  ultimately show ?thesis using p f n d A B ex_copied_built ex_mutated_run by simp
qed

text \<open>
  C4. When nothing throws, inserting a list of values into a new set gives a well-formed
  set whose elements are exactly the values of the list, and iterating from \<^verbatim>\<open>begin()\<close>
  to \<^verbatim>\<open>end()\<close> yields them in strictly ascending order. \<^verbatim>\<open>insert\<close> and
  \<^verbatim>\<open>erase\<close> on a well-formed set give a well-formed set again, whose tree satisfies the
  order invariant \<open>bst\<close>: everything in a left subtree is less than the node's value,
  everything in a right subtree is greater.
\<close>

theorem inserts_sorted:
  "faults h = [] \<Longrightarrow>
   (\<exists>s h1 h' t xs. new_set h = Some (Ret s, h1) \<and> insert_all s vs h1 = Some (Ret (), h') \<and>
      pset h' s t \<and> bst t \<and> elems t = set vs \<and>
      to_list s h' = Some (Ret xs, h') \<and> set xs = set vs \<and> sorted_wrt (<) xs) \<and>
   (pset h s t \<longrightarrow>
      (\<exists>r h' t'. insert_set s v h = Some (Ret r, h') \<and> pset h' s t' \<and> bst t' \<and>
         elems t' = insert v (elems t))) \<and>
   (pset h s t \<and> it_at h (own h s) s it (Some x) \<and> x \<in> elems t \<longrightarrow>
      (\<exists>it' h' t'. erase s it h = Some (Ret it', h') \<and> pset h' s t' \<and> bst t' \<and>
         elems t' = elems t - {x}))"
proof (intro conjI impI)
  assume nf: "faults h = []"
  let ?h1 = "h\<lparr>nodes := (nodes h)(brk h \<mapsto> \<lparr>value' = None, left = None, right = None\<rparr>),
       m_size := (m_size h)(brk h \<mapsto> 0), brk := Suc (brk h)\<rparr>"
  from new_set_ok[of h] have n: "new_set h = Some (Ret (brk h), ?h1)" "pset ?h1 (brk h) Leaf"
    by auto
  have nf1: "faults ?h1 = []" using nf by simp
  from insert_all_ok[OF n(2) nf1, of vs] obtain h' t where
    a: "insert_all (brk h) vs ?h1 = Some (Ret (), h')" "pset h' (brk h) t" "elems t = set vs"
      "faults h' = []" by auto
  from psetD[OF a(2)] have b: "bst t" by auto
  from to_list_ok[OF a(2,4)] have "to_list (brk h) h' = Some (Ret (inorder t), h')" .
  moreover have "set (inorder t) = set vs" "sorted_wrt (<) (inorder t)"
    using a(3) b by (simp_all add: set_inorder sorted_inorder)
  ultimately show "\<exists>s h1 h' t xs. new_set h = Some (Ret s, h1) \<and> insert_all s vs h1 = Some (Ret (), h') \<and>
      pset h' s t \<and> bst t \<and> elems t = set vs \<and>
      to_list s h' = Some (Ret xs, h') \<and> set xs = set vs \<and> sorted_wrt (<) xs"
    using n(1) a b by blast
next
  assume nf: "faults h = []" and p: "pset h s t"
  from insert_set_ok[OF p nf, of v] obtain it h' where
    1: "insert_set s v h = Some (Ret (it, v \<notin> elems t), h')"
      "pset h' s (if v \<in> elems t then t else ins v t)" by blast
  from psetD[OF 1(2)] have "bst (if v \<in> elems t then t else ins v t)" by auto
  moreover have "elems (if v \<in> elems t then t else ins v t) = insert v (elems t)"
    by (auto simp: elems_ins)
  ultimately show "\<exists>r h' t'. insert_set s v h = Some (Ret r, h') \<and> pset h' s t' \<and> bst t' \<and>
         elems t' = insert v (elems t)" using 1 by blast
next
  assume nf: "faults h = []" and p: "pset h s t \<and> it_at h (own h s) s it (Some x) \<and> x \<in> elems t"
  then have hx: "holds h (node_ptr it) x" by (simp add: it_at_def)
  from psetD[of h s t] p have b: "bst t" by auto
  from erase_ok[OF _ nf hx, of s t] p obtain h' it' where
    1: "erase s it h = Some (Ret it', h')" "pset h' s (del x t)" by blast
  from psetD[OF 1(2)] have "bst (del x t)" by auto
  with 1 elems_del[OF b, of x] show "\<exists>it' h' t'. erase s it h = Some (Ret it', h') \<and> pset h' s t' \<and> bst t' \<and>
         elems t' = elems t - {x}" by blast
qed

theorem inserts_sorted_witness:
  "faults empty_heap = [] \<and>
   map_option fst (bind new_set (\<lambda>s. bind (insert_all s [5, 3, 8, 1, 4, 3]) (\<lambda>_. to_list s)) empty_heap)
     = Some (Ret [1, 3, 4, 5, 8]) \<and>
   pset ex_heap 0 ex_tree \<and> it_at ex_heap (own ex_heap 0) 0 \<lparr>node_ptr = 4, set_ptr = 0\<rparr> (Some 8) \<and>
   8 \<in> elems ex_tree \<and>
   (\<exists>r h' t'. insert_set 0 6 ex_heap = Some (Ret r, h') \<and> pset h' 0 t' \<and> bst t' \<and> elems t' = {5, 6, 8}) \<and>
   (\<exists>it' h' t'. erase 0 \<lparr>node_ptr = 4, set_ptr = 0\<rparr> ex_heap = Some (Ret it', h') \<and> pset h' 0 t' \<and>
      bst t' \<and> elems t' = {5})"
proof -
  have 1: "faults empty_heap = []" "faults ex_heap = []" by (simp_all add: empty_heap_def ex_heap_def)
  have 2: "pset ex_heap 0 ex_tree \<and> it_at ex_heap (own ex_heap 0) 0 \<lparr>node_ptr = 4, set_ptr = 0\<rparr> (Some 8) \<and>
     8 \<in> elems ex_tree"
    by (simp add: pset_ex) (simp add: it_at_def own_def holds_def ex_heap_def ex_tree_def)
  have 3: "elems ex_tree = {5, 8}" by (auto simp: ex_tree_def)
  have 4: "insert 6 (elems ex_tree) = {5, 6, 8}" "elems ex_tree - {8} = {5}" using 3 by auto
  from inserts_sorted[OF 1(2), of "[]" 0 ex_tree 6 "\<lparr>node_ptr = 4, set_ptr = 0\<rparr>" 8] 2
  have "(\<exists>r h' t'. insert_set 0 6 ex_heap = Some (Ret r, h') \<and> pset h' 0 t' \<and> bst t' \<and> elems t' = {5, 6, 8}) \<and>
   (\<exists>it' h' t'. erase 0 \<lparr>node_ptr = 4, set_ptr = 0\<rparr> ex_heap = Some (Ret it', h') \<and> pset h' 0 t' \<and>
      bst t' \<and> elems t' = {5})"
    unfolding 4 by blast
  moreover have "map_option fst (bind new_set (\<lambda>s. bind (insert_all s [5, 3, 8, 1, 4, 3]) (\<lambda>_. to_list s)) empty_heap)
     = Some (Ret [1, 3, 4, 5, 8])"
    by (simp add: exec_defs empty_heap_def)
  ultimately show ?thesis using 1 2 by simp
qed

text \<open>
  C6. On a well-formed set and when nothing throws, \<^verbatim>\<open>erase(it)\<close> with an iterator of
  the set that points to a node holding the element \<open>x\<close> removes exactly \<open>x\<close>, decreases
  \<^verbatim>\<open>m_size\<close> and the number of nodes by one, and returns what \<^verbatim>\<open>lower_bound(x)\<close>
  returns on the tree after the erasure: an iterator to the least element greater than \<open>x\<close>,
  or \<^verbatim>\<open>end()\<close> if \<open>x\<close> was the greatest. Afterwards \<^verbatim>\<open>find(x)\<close> is \<^verbatim>\<open>end()\<close>, also
  when the iterator erased was the one \<^verbatim>\<open>find(x)\<close> returned.
\<close>

theorem erase_correct:
  assumes "pset h s t" and "faults h = []"
    and "it_at h (own h s) s it (Some x)" and "x \<in> elems t"
  shows "\<exists>h' it' t' n. erase s it h = Some (Ret it', h') \<and>
     pset h' s t' \<and> elems t' = elems t - {x} \<and>
     m_size h s = Some n \<and> m_size h' s = Some (n - 1) \<and> Suc (tree_size t') = tree_size t \<and>
     lower_bound s x h' = Some (Ret it', h') \<and>
     (if \<exists>y\<in>elems t. x < y
      then \<exists>y\<in>elems t. x < y \<and> (\<forall>z\<in>elems t. x < z \<longrightarrow> y \<le> z) \<and> points_to h' s it' y
      else it' = end_it s) \<and>
     find_set s x h' = Some (Ret (end_it s), h') \<and>
     (\<exists>itf h''. find_set s x h = Some (Ret itf, h) \<and>
        bind (erase s itf) (\<lambda>_. find_set s x) h = Some (Ret (end_it s), h''))"
proof -
  from psetD[OF assms(1)] have b: "bst t" and n: "m_size h s = Some (of_nat (tree_size t))" by auto
  from assms(3) have hx: "holds h (node_ptr it) x" by (simp add: it_at_def)
  from erase_ok[OF assms(1,2) hx assms(4)] obtain h' it' where
    e: "erase s it h = Some (Ret it', h')" "pset h' s (del x t)"
      "it_at h' (own h' s) s it' (lb x (del x t))" "faults h' = []"
      "lower_bound s x h' = Some (Ret it', h')" by blast
  have ed: "elems (del x t) = elems t - {x}" using b by (rule elems_del)
  have sz: "Suc (tree_size (del x t)) = tree_size t" using b assms(4) by (rule tree_size_del)
  from psetD[OF e(2)] have n': "m_size h' s = Some (of_nat (tree_size (del x t)))" by auto
  have "(of_nat (tree_size t) - 1 :: 64 word) = of_nat (tree_size (del x t))"
    using sz by (metis add_diff_cancel_left' of_nat_Suc)
  with n' have n'': "m_size h' s = Some (of_nat (tree_size t) - 1)" by simp
  have nx: "if \<exists>y\<in>elems t. x < y
      then \<exists>y\<in>elems t. x < y \<and> (\<forall>z\<in>elems t. x < z \<longrightarrow> y \<le> z) \<and> points_to h' s it' y
      else it' = end_it s"
  proof (cases "ub x t")
    case None
    from ub_None[OF b None] have "\<not> (\<exists>y\<in>elems t. x < y)" by (auto simp: not_less)
    with e(3) None lb_del[OF b, of x] show ?thesis by simp
  next
    case (Some y)
    from ub_Some[OF b Some] have "y \<in> elems t" "x < y" "\<forall>z\<in>elems t. x < z \<longrightarrow> y \<le> z" by auto
    moreover from e(3) Some lb_del[OF b, of x] have "points_to h' s it' y"
      by (auto intro: it_at_points)
    ultimately show ?thesis by auto
  qed
  from find_set_ok[OF e(2,4), of x] ed have fe: "find_set s x h' = Some (Ret (end_it s), h')"
    by simp
  from find_set_ok[OF assms(1,2), of x] assms(4) obtain itf where
    itf: "find_set s x h = Some (Ret itf, h)" "it_at h (own h s) s itf (Some x)" by auto
  then have hf: "holds h (node_ptr itf) x" by (simp add: it_at_def)
  from erase_ok[OF assms(1,2) hf assms(4)] obtain h2 it2 where
    e2: "erase s itf h = Some (Ret it2, h2)" "pset h2 s (del x t)" "faults h2 = []" by blast
  from find_set_ok[OF e2(2,3), of x] ed have "find_set s x h2 = Some (Ret (end_it s), h2)"
    by simp
  with e2(1) have "bind (erase s itf) (\<lambda>_. find_set s x) h = Some (Ret (end_it s), h2)"
    by (simp add: bind_def)
  with e(1,2,5) ed n n'' sz nx fe itf(1) show ?thesis by blast
qed

theorem erase_correct_witness:
  "pset ex_heap 0 ex_tree \<and> faults ex_heap = [] \<and>
   it_at ex_heap (own ex_heap 0) 0 \<lparr>node_ptr = 3, set_ptr = 0\<rparr> (Some 5) \<and> 5 \<in> elems ex_tree \<and>
   map_option fst (erase 0 \<lparr>node_ptr = 3, set_ptr = 0\<rparr> ex_heap) = Some (Ret \<lparr>node_ptr = 4, set_ptr = 0\<rparr>) \<and>
   map_option fst (bind (erase 0 \<lparr>node_ptr = 3, set_ptr = 0\<rparr>) (\<lambda>_. bind (size_set 0) (\<lambda>n.
       bind (to_list 0) (\<lambda>xs. ret (n, xs)))) ex_heap) = Some (Ret (1, [8])) \<and>
   (\<exists>h''. bind (find_set 0 5) (\<lambda>itf. bind (erase 0 itf) (\<lambda>_. find_set 0 5)) ex_heap
      = Some (Ret (end_it 0), h''))"
proof -
  have 1: "pset ex_heap 0 ex_tree" by (rule pset_ex)
  have 2: "faults ex_heap = []" by (simp add: ex_heap_def)
  have 3: "it_at ex_heap (own ex_heap 0) 0 \<lparr>node_ptr = 3, set_ptr = 0\<rparr> (Some 5)"
    by (simp add: it_at_def own_def holds_def ex_heap_def)
  have 4: "5 \<in> elems ex_tree" by (simp add: ex_tree_def)
  from erase_correct[OF 1 2 3 4] obtain itf h'' where
    "find_set 0 5 ex_heap = Some (Ret itf, ex_heap)"
    "bind (erase 0 itf) (\<lambda>_. find_set 0 5) ex_heap = Some (Ret (end_it 0), h'')" by blast
  then have "\<exists>h''. bind (find_set 0 5) (\<lambda>itf. bind (erase 0 itf) (\<lambda>_. find_set 0 5)) ex_heap
      = Some (Ret (end_it 0), h'')" by (simp add: bind_def)
  moreover have "map_option fst (erase 0 \<lparr>node_ptr = 3, set_ptr = 0\<rparr> ex_heap) = Some (Ret \<lparr>node_ptr = 4, set_ptr = 0\<rparr>)"
    "map_option fst (bind (erase 0 \<lparr>node_ptr = 3, set_ptr = 0\<rparr>) (\<lambda>_. bind (size_set 0) (\<lambda>n.
       bind (to_list 0) (\<lambda>xs. ret (n, xs)))) ex_heap) = Some (Ret (1, [8]))"
    by (simp_all add: exec_defs ex_heap_def)
  ultimately show ?thesis using 1 2 3 4 by simp
qed

text \<open>
  C1. Let \<open>c\<close> be the copy of a well-formed set \<open>s\<close>. Both are well-formed sets with the
  same elements. Whatever sequence of \<^verbatim>\<open>insert\<close> and \<^verbatim>\<open>erase\<close> calls is applied to
  \<open>c\<close>, and whatever the outcome of each call, the root, the size and the iteration sequence
  of \<open>s\<close> afterwards are those before the copy was made; and the same holds for \<open>c\<close> when
  the calls are applied to \<open>s\<close>. When nothing throws, a sequence of insertions into the
  copy runs to its end.
\<close>

theorem persistence:
  assumes "pset h s t" and "copy_set s h = Some (Ret c, h1)"
  shows "pset h1 s t \<and> pset h1 c t \<and>
     (mutate_all c ms h1 = Some (r, h2) \<longrightarrow>
        pset h2 s t \<and> nodes h2 s = nodes h s \<and> m_size h2 s = m_size h s \<and>
        iteration h2 s = iteration h s) \<and>
     (mutate_all s ms h1 = Some (r, h2) \<longrightarrow>
        pset h2 c t \<and> nodes h2 c = nodes h1 c \<and> m_size h2 c = m_size h1 c \<and>
        iteration h2 c = iteration h1 c) \<and>
     (faults h = [] \<longrightarrow> (\<exists>h3. mutate_all c (map Insert vs) h1 = Some (Ret (), h3)))"
proof -
  from psetD[OF assms(1)] obtain rt where rt: "nodes h s = Some rt" "value' rt = None"
    "tree_at h (own h s) (left rt) t" "s < brk h" "bst t" "m_size h s = Some (of_nat (tree_size t))"
    by blast
  from copy_set_ok[OF assms(1)] assms(2) rt have c: "c = brk h"
    and h1: "h1 = h\<lparr>nodes := (nodes h)(brk h \<mapsto> rt),
        m_size := (m_size h)(brk h \<mapsto> of_nat (tree_size t)), brk := Suc (brk h)\<rparr>"
    by auto
  have p01: "pres {..<brk h} h h1" unfolding h1 by (auto simp: pres_def)
  from pset_pres_all[OF assms(1) p01] have s1: "pset h1 s t" "nodes h1 s = nodes h s"
    "m_size h1 s = m_size h s" by auto
  have A: "own h s \<subseteq> {..<brk h1} - {c}" "c < brk h1" unfolding c h1 by (auto simp: own_def)
  have t1: "tree_at h1 (own h s) (left rt) t"
    using tree_at_pres[OF rt(3) p01] by (auto simp: own_def)
  have nc: "nodes h1 c = Some rt" "m_size h1 c = Some (of_nat (tree_size t))"
    unfolding c h1 by auto
  have c1: "pset h1 c t"
    using pset_pres[OF nc(1) rt(2) t1 A rt(5) nc(2) pres_refl[of "insert c (own h s)" h1]]
    by simp
  have M1: "pset h2 s t \<and> nodes h2 s = nodes h s \<and> m_size h2 s = m_size h s \<and>
        iteration h2 s = iteration h s" if run: "mutate_all c ms h1 = Some (r, h2)"
  proof -
    have "safe {..<brk h} (mutate_all c ms) (\<lambda>_. True)" by (rule safe_mutate_all) (simp add: c)
    from safeD[OF this _ run] have "pres {..<brk h} h1 h2" unfolding h1 by auto
    with p01 have "pres {..<brk h} h h2" by (rule pres_trans)
    from pset_pres_all[OF assms(1) this] iteration_ok[OF assms(1)] show ?thesis
      by (auto simp: iteration_ok)
  qed
  have M2: "pset h2 c t \<and> nodes h2 c = nodes h1 c \<and> m_size h2 c = m_size h1 c \<and>
        iteration h2 c = iteration h1 c" if run: "mutate_all s ms h1 = Some (r, h2)"
  proof -
    let ?P = "insert c (own h s)"
    have "safe ?P (mutate_all s ms) (\<lambda>_. True)"
      by (rule safe_mutate_all) (use rt(4) in \<open>auto simp: c own_def\<close>)
    moreover have "?P \<subseteq> {..<brk h1}" using A by auto
    ultimately have "pres ?P h1 h2" using run by (auto dest: safeD)
    from pset_pres[OF nc(1) rt(2) t1 A rt(5) nc(2) this] nc iteration_ok[OF c1]
    show ?thesis by (auto simp: iteration_ok)
  qed
  have M3: "\<exists>h3. mutate_all c (map Insert vs) h1 = Some (Ret (), h3)" if "faults h = []"
    using mutate_all_inserts[OF c1, of vs] that by (simp add: h1)
  from s1 c1 M1 M2 M3 show ?thesis by blast
qed

theorem persistence_witness:
  "pset ex_heap 0 ex_tree \<and>
   (\<exists>c h1. copy_set 0 ex_heap = Some (Ret c, h1) \<and> pset h1 c ex_tree \<and>
      (\<exists>r h2. mutate_all c [Insert 6, Erase \<lparr>node_ptr = 4, set_ptr = c\<rparr>] h1 = Some (r, h2) \<and>
         iteration h2 0 = iteration ex_heap 0 \<and> m_size h2 0 = m_size ex_heap 0) \<and>
      (\<exists>r h2. mutate_all 0 [Insert 6, Erase \<lparr>node_ptr = 4, set_ptr = 0\<rparr>] h1 = Some (r, h2) \<and>
         iteration h2 c = iteration h1 c \<and> m_size h2 c = m_size h1 c)) \<and>
   map_option fst (bind (copy_set 0) (\<lambda>c.
      bind (mutate_all c [Insert 6, Erase \<lparr>node_ptr = 4, set_ptr = c\<rparr>]) (\<lambda>_.
      bind (to_list 0) (\<lambda>xs. bind (to_list c) (\<lambda>ys.
      bind (size_set 0) (\<lambda>m. bind (size_set c) (\<lambda>n. ret (xs, ys, m, n))))))) ex_heap)
     = Some (Ret ([5, 8], [5, 6], 2, 2))"
proof -
  have 1: "pset ex_heap 0 ex_tree" by (rule pset_ex)
  let ?h1 = "ex_heap\<lparr>nodes := (nodes ex_heap)(brk ex_heap \<mapsto> \<lparr>value' = None, left = Some 3, right = None\<rparr>),
       m_size := (m_size ex_heap)(brk ex_heap \<mapsto> 2), brk := Suc (brk ex_heap)\<rparr>"
  have 2: "copy_set 0 ex_heap = Some (Ret 6, ?h1)"
    by (simp add: copy_set_def bind_def get_size_def get_node_def ex_heap_def)
  have 3: "\<exists>r h2. mutate_all 6 [Insert 6, Erase \<lparr>node_ptr = 4, set_ptr = 6\<rparr>] ?h1 = Some (r, h2)"
    by (simp add: exec_defs mutate_def ex_heap_def)
  have 4: "\<exists>r h2. mutate_all 0 [Insert 6, Erase \<lparr>node_ptr = 4, set_ptr = 0\<rparr>] ?h1 = Some (r, h2)"
    by (simp add: exec_defs mutate_def ex_heap_def)
  from 3 obtain r h2 where a: "mutate_all 6 [Insert 6, Erase \<lparr>node_ptr = 4, set_ptr = 6\<rparr>] ?h1 = Some (r, h2)"
    by blast
  from 4 obtain r' h2' where b: "mutate_all 0 [Insert 6, Erase \<lparr>node_ptr = 4, set_ptr = 0\<rparr>] ?h1 = Some (r', h2')"
    by blast
  from persistence[OF 1 2, of "[Insert 6, Erase \<lparr>node_ptr = 4, set_ptr = 6\<rparr>]" r h2] a
  have A: "pset ?h1 6 ex_tree" "iteration h2 0 = iteration ex_heap 0" "m_size h2 0 = m_size ex_heap 0"
    by auto
  from persistence[OF 1 2, of "[Insert 6, Erase \<lparr>node_ptr = 4, set_ptr = 0\<rparr>]" r' h2'] b
  have B: "iteration h2' 6 = iteration ?h1 6" "m_size h2' 6 = m_size ?h1 6"
    by auto
  have C: "map_option fst (bind (copy_set 0) (\<lambda>c.
      bind (mutate_all c [Insert 6, Erase \<lparr>node_ptr = 4, set_ptr = c\<rparr>]) (\<lambda>_.
      bind (to_list 0) (\<lambda>xs. bind (to_list c) (\<lambda>ys.
      bind (size_set 0) (\<lambda>m. bind (size_set c) (\<lambda>n. ret (xs, ys, m, n))))))) ex_heap)
     = Some (Ret ([5, 8], [5, 6], 2, 2))"
    by (simp add: exec_defs mutate_def ex_heap_def)
  from 1 2 a b A B C show ?thesis by blast
qed

text \<open>
  C2. On a well-formed set, under every schedule of exceptions, \<^verbatim>\<open>insert(v)\<close> terminates
  and either returns or leaves by an exception, and so does \<^verbatim>\<open>erase(it)\<close> for an iterator
  at an element of the set. The call leaves by an exception exactly when one of its
  comparisons or allocations threw (the entries of \<open>faults\<close> it consumed are some \<open>False\<close>
  and then a \<open>True\<close>); a call that returns has met no exception. When the call leaves by
  an exception, the root and the size of the set are those before the call, the set is still
  well formed with the same elements, and its iteration sequence is unchanged. Each of the two
  calls starts with an operation that may throw: an exception scheduled first is thrown.
\<close>

theorem strong_guarantee:
  assumes "pset h s t"
  shows "(\<exists>r h'. insert_set s v h = Some (r, h') \<and>
        (r = Throw \<longleftrightarrow> (\<exists>k. faults h = replicate k False @ True # faults h')) \<and>
        (r \<noteq> Throw \<longrightarrow> (\<exists>y. r = Ret y) \<and> (\<exists>k. faults h = replicate k False @ faults h')) \<and>
        (r = Throw \<longrightarrow> nodes h' s = nodes h s \<and> m_size h' s = m_size h s \<and> pset h' s t \<and>
           iteration h' s = iteration h s)) \<and>
     (it_at h (own h s) s it (Some x) \<and> x \<in> elems t \<longrightarrow>
      (\<exists>r h'. erase s it h = Some (r, h') \<and>
        (r = Throw \<longleftrightarrow> (\<exists>k. faults h = replicate k False @ True # faults h')) \<and>
        (r \<noteq> Throw \<longrightarrow> (\<exists>y. r = Ret y) \<and> (\<exists>k. faults h = replicate k False @ faults h')) \<and>
        (r = Throw \<longrightarrow> nodes h' s = nodes h s \<and> m_size h' s = m_size h s \<and> pset h' s t \<and>
           iteration h' s = iteration h s))) \<and>
     (faults h = True # fs \<longrightarrow> (\<exists>h''. insert_set s v h = Some (Throw, h''))) \<and>
     (faults h = True # fs \<and> it_at h (own h s) s it (Some x) \<and> x \<in> elems t \<longrightarrow>
        (\<exists>h''. erase s it h = Some (Throw, h'')))"
proof -
  from psetD[OF assms] have s: "s < brk h" by auto
  have tr: "(r = Throw \<longleftrightarrow> (\<exists>k. faults h = replicate k False @ True # faults h')) \<and>
        (r \<noteq> Throw \<longrightarrow> (\<exists>y. r = Ret y) \<and> (\<exists>k. faults h = replicate k False @ faults h'))"
    if t: "trace h r h'" and r: "r = Throw \<or> (\<exists>y. r = Ret y)" for r :: "'r res" and h'
  proof (cases r)
    case (Ret y)
    with t obtain j where j: "faults h = replicate j False @ faults h'" by (auto simp: trace_def)
    have "\<not> (\<exists>k. faults h = replicate k False @ True # faults h')"
    proof
      assume "\<exists>k. faults h = replicate k False @ True # faults h'"
      then obtain k where "faults h = replicate k False @ True # faults h'" by blast
      with j have "replicate j False @ faults h' = replicate k False @ True # faults h'" by simp
      then show False by (rule replicate_False_True)
    qed
    with Ret j show ?thesis by blast
  next
    case Throw
    with t show ?thesis by (auto simp: trace_def)
  next
    case UB
    with r show ?thesis by simp
  qed
  have 1: "nodes h' s = nodes h s \<and> m_size h' s = m_size h s \<and> pset h' s t \<and>
        iteration h' s = iteration h s" if "insert_set s v h = Some (Throw, h')" for h'
    using insert_set_Throw[OF that s] pset_pres_all[OF assms, of h'] iteration_ok[OF assms]
    by (auto simp: iteration_ok)
  have 2: "nodes h' s = nodes h s \<and> m_size h' s = m_size h s \<and> pset h' s t \<and>
        iteration h' s = iteration h s" if "erase s it h = Some (Throw, h')" for h'
    using erase_Throw[OF that] pset_pres_all[OF assms, of h'] iteration_ok[OF assms]
    by (auto simp: iteration_ok)
  have A: "\<exists>r h'. insert_set s v h = Some (r, h') \<and>
        (r = Throw \<longleftrightarrow> (\<exists>k. faults h = replicate k False @ True # faults h')) \<and>
        (r \<noteq> Throw \<longrightarrow> (\<exists>y. r = Ret y) \<and> (\<exists>k. faults h = replicate k False @ faults h')) \<and>
        (r = Throw \<longrightarrow> nodes h' s = nodes h s \<and> m_size h' s = m_size h s \<and> pset h' s t \<and>
           iteration h' s = iteration h s)"
  proof -
    from insert_set_any_faults[OF assms, of v] obtain r h' where
      a: "insert_set s v h = Some (r, h')" "r = Throw \<or> (\<exists>y. r = Ret y)" by blast
    from tracedD[OF traced_insert_set a(1)] have "trace h r h'" .
    from tr[OF this a(2)] a(1) 1[of h'] show ?thesis by blast
  qed
  have B: "\<exists>r h'. erase s it h = Some (r, h') \<and>
        (r = Throw \<longleftrightarrow> (\<exists>k. faults h = replicate k False @ True # faults h')) \<and>
        (r \<noteq> Throw \<longrightarrow> (\<exists>y. r = Ret y) \<and> (\<exists>k. faults h = replicate k False @ faults h')) \<and>
        (r = Throw \<longrightarrow> nodes h' s = nodes h s \<and> m_size h' s = m_size h s \<and> pset h' s t \<and>
           iteration h' s = iteration h s)"
    if i: "it_at h (own h s) s it (Some x)" and x: "x \<in> elems t"
  proof -
    from i have "holds h (node_ptr it) x" by (simp add: it_at_def)
    from erase_any_faults[OF assms this x] obtain r h' where
      a: "erase s it h = Some (r, h')" "r = Throw \<or> (\<exists>y. r = Ret y)" by blast
    from tracedD[OF traced_erase a(1)] have "trace h r h'" .
    from tr[OF this a(2)] a(1) 2[of h'] show ?thesis by blast
  qed
  from A B insert_set_first_fault[OF assms, of fs v] erase_first_fault[OF assms, of fs it x]
  show ?thesis by blast
qed

theorem strong_guarantee_witness:
  "pset ex_faulty 0 ex_tree \<and>
   (\<exists>h'. insert_set 0 9 ex_faulty = Some (Throw, h') \<and>
      (\<exists>k. faults ex_faulty = replicate k False @ True # faults h') \<and>
      nodes h' 0 = nodes ex_faulty 0 \<and> m_size h' 0 = m_size ex_faulty 0 \<and>
      iteration h' 0 = Some [5, 8] \<and> brk ex_faulty < brk h') \<and>
   it_at (ex_faulty\<lparr>faults := [False, False, False, True]\<rparr>)
     (own (ex_faulty\<lparr>faults := [False, False, False, True]\<rparr>) 0) 0
     \<lparr>node_ptr = 4, set_ptr = 0\<rparr> (Some 8) \<and> 8 \<in> elems ex_tree \<and>
   (\<exists>h'. erase 0 \<lparr>node_ptr = 4, set_ptr = 0\<rparr> (ex_faulty\<lparr>faults := [False, False, False, True]\<rparr>)
        = Some (Throw, h') \<and>
      (\<exists>k. [False, False, False, True] = replicate k False @ True # faults h') \<and>
      nodes h' 0 = nodes ex_faulty 0 \<and> m_size h' 0 = m_size ex_faulty 0 \<and>
      iteration h' 0 = Some [5, 8] \<and> brk ex_faulty < brk h') \<and>
   faults (ex_faulty\<lparr>faults := [True]\<rparr>) = True # [] \<and>
   it_at (ex_faulty\<lparr>faults := [True]\<rparr>) (own (ex_faulty\<lparr>faults := [True]\<rparr>) 0) 0
     \<lparr>node_ptr = 4, set_ptr = 0\<rparr> (Some 8) \<and>
   (\<exists>h'. insert_set 0 9 (ex_faulty\<lparr>faults := [True]\<rparr>) = Some (Throw, h')) \<and>
   (\<exists>h'. erase 0 \<lparr>node_ptr = 4, set_ptr = 0\<rparr> (ex_faulty\<lparr>faults := [True]\<rparr>) = Some (Throw, h'))"
proof -
  let ?e = "ex_faulty\<lparr>faults := [False, False, False, True]\<rparr>"
  let ?f = "ex_faulty\<lparr>faults := [True]\<rparr>"
  let ?i = "\<lparr>node_ptr = 4, set_ptr = 0\<rparr>"
  have p1: "pset ex_faulty 0 ex_tree" by (simp add: ex_faulty_def pset_ex)
  have p2: "pset ?e 0 ex_tree" by (simp add: ex_faulty_def pset_ex)
  have p3: "pset ?f 0 ex_tree" by (simp add: ex_faulty_def pset_ex)
  have it: "iteration ex_faulty 0 = Some [5, 8]" "iteration ?e 0 = Some [5, 8]"
    using iteration_ok[OF p1] iteration_ok[OF p2] by (simp_all add: ex_tree_def)
  have r1: "\<exists>h'. insert_set 0 9 ex_faulty = Some (Throw, h') \<and> brk ex_faulty < brk h'"
    by (simp add: exec_defs ex_faulty_def ex_heap_def)
  have r2: "\<exists>h'. erase 0 ?i ?e = Some (Throw, h') \<and> brk ex_faulty < brk h'"
    by (simp add: exec_defs ex_faulty_def ex_heap_def)
  have f1: "faults ?f = True # []" by simp
  have f2: "it_at ?f (own ?f 0) 0 ?i (Some 8)" "8 \<in> elems ex_tree"
    "it_at ?e (own ?e 0) 0 ?i (Some 8)"
    by (simp_all add: it_at_def own_def holds_def ex_faulty_def ex_heap_def ex_tree_def)
  from r1 obtain h1 where a: "insert_set 0 9 ex_faulty = Some (Throw, h1)" "brk ex_faulty < brk h1"
    by blast
  from r2 obtain h2 where b: "erase 0 ?i ?e = Some (Throw, h2)" "brk ex_faulty < brk h2" by blast
  from strong_guarantee[OF p1, of 9] a it
  have A: "(\<exists>k. faults ex_faulty = replicate k False @ True # faults h1) \<and>
      nodes h1 0 = nodes ex_faulty 0 \<and> m_size h1 0 = m_size ex_faulty 0 \<and>
      iteration h1 0 = Some [5, 8]" by auto
  from strong_guarantee[OF p2, of _ ?i 8] f2 b it
  have B: "(\<exists>k. [False, False, False, True] = replicate k False @ True # faults h2) \<and>
      nodes h2 0 = nodes ex_faulty 0 \<and> m_size h2 0 = m_size ex_faulty 0 \<and>
      iteration h2 0 = Some [5, 8]" by auto
  from strong_guarantee[OF p3, of 9 ?i 8 "[]"] f1 f2
  have C: "(\<exists>h'. insert_set 0 9 ?f = Some (Throw, h')) \<and> (\<exists>h'. erase 0 ?i ?f = Some (Throw, h'))"
    by blast
  from p1 a b A B C f1 f2 show ?thesis by blast
qed

end
